(* ===== verification/JP_Prelude.thy ===== *)
theory JP_Prelude
  imports Main "HOL-Library.Word" "HOL-Library.Monad_Syntax"
begin

text \<open>
  The vocabulary the components share: bytes, C strings and \<open>size_t\<close> values, buffers with
  bounds-checked stores, the configuration constants of \<^verbatim>\<open>jp_config.h.in\<close>, and the generic
  lemmas on lists, buffers and 64-bit words that the component proofs rest on.

  A buffer is the list of the bytes of one allocated object. A store outside the object is
  undefined behaviour in C; here it is the value \<^const>\<open>None\<close>, so a theorem that an operation
  returns \<^const>\<open>Some\<close> says that every store of it stays inside its object. A count of bytes that
  lies inside one object is a \<^typ>\<open>nat\<close>; a \<open>size_t\<close> that the code computes from user input, or
  adds to and subtracts from, is a 64-bit word.
\<close>

section \<open>Types\<close>

type_synonym byte = "8 word"
type_synonym size_t = "64 word"
type_synonym cstring = "byte list" \<comment> \<open>the characters before the terminating NUL\<close>
type_synonym buffer = "byte list"

definition bytes :: "string \<Rightarrow> byte list" where
  "bytes s = map of_char s"

named_theorems jp_simps \<open>evaluation of the model's constants and string literals\<close>
named_theorems buf_simps \<open>stores into and reads from buffers\<close>

declare bytes_def [jp_simps]

section \<open>Configuration constants (jp\_config.h.in)\<close>

definition BYTES_IN_KB :: nat where "BYTES_IN_KB = 1024"
definition JP_PATH_MAX :: nat where "JP_PATH_MAX = 4096"
definition JP_CONF_CHUNK_SIZE_MIN :: nat where "JP_CONF_CHUNK_SIZE_MIN = 1024"
definition JP_CONF_CHUNK_SIZE_DEF :: nat where "JP_CONF_CHUNK_SIZE_DEF = 16384"
definition JP_CONF_CHUNK_SIZE_MAX :: nat where "JP_CONF_CHUNK_SIZE_MAX = 131072"
definition JP_CONF_BUFFER_SIZE_MIN :: nat where "JP_CONF_BUFFER_SIZE_MIN = 1"
definition JP_CONF_BUFFER_SIZE_DEF :: nat where "JP_CONF_BUFFER_SIZE_DEF = 64"
definition JP_CONF_BUFFER_SIZE_MAX :: nat where "JP_CONF_BUFFER_SIZE_MAX = 1024"
definition JP_CONF_OUTDIR_DEF :: cstring where "JP_CONF_OUTDIR_DEF = bytes ''.''"
definition JP_CONF_FIELDS_MAX :: nat where "JP_CONF_FIELDS_MAX = 32"
definition JP_CONF_FIELD_MAX_KEY :: nat where "JP_CONF_FIELD_MAX_KEY = 32"
definition JP_CONF_FIELD_MAX_VAL :: nat where "JP_CONF_FIELD_MAX_VAL = 512"

lemmas jp_conf_defs [jp_simps] =
  BYTES_IN_KB_def JP_PATH_MAX_def JP_CONF_CHUNK_SIZE_MIN_def JP_CONF_CHUNK_SIZE_DEF_def
  JP_CONF_CHUNK_SIZE_MAX_def JP_CONF_BUFFER_SIZE_MIN_def JP_CONF_BUFFER_SIZE_DEF_def
  JP_CONF_BUFFER_SIZE_MAX_def JP_CONF_OUTDIR_DEF_def JP_CONF_FIELDS_MAX_def
  JP_CONF_FIELD_MAX_KEY_def JP_CONF_FIELD_MAX_VAL_def

section \<open>Buffers\<close>

text \<open>\<^verbatim>\<open>b[i] = v\<close> and \<^verbatim>\<open>memcpy(b + i, vs, n)\<close>.\<close>

definition buf_set :: "buffer \<Rightarrow> nat \<Rightarrow> byte \<Rightarrow> buffer option" where
  "buf_set b i v = (if i < length b then Some (b[i := v]) else None)"

definition buf_copy :: "buffer \<Rightarrow> nat \<Rightarrow> byte list \<Rightarrow> buffer option" where
  "buf_copy b i vs =
     (if i + length vs \<le> length b then Some (take i b @ vs @ drop (i + length vs) b) else None)"

lemma buf_set_eq_Some [buf_simps]:
  "buf_set b i v = Some b' \<longleftrightarrow> i < length b \<and> b' = b[i := v]"
  by (auto simp: buf_set_def)

lemma buf_copy_eq_Some [buf_simps]:
  "buf_copy b i vs = Some b' \<longleftrightarrow>
     i + length vs \<le> length b \<and> b' = take i b @ vs @ drop (i + length vs) b"
  by (auto simp: buf_copy_def)

lemma take_Suc_update:
  "i < length b \<Longrightarrow> take (Suc i) (b[i := v]) = take i b @ [v]"
  by (simp add: take_Suc_conv_app_nth)

text \<open>
  Sequential output: a cursor \<open>i\<close> below which the bytes \<open>xs\<close> have been written. Each store at
  the cursor appends to what is below it, and keeps the size of the object.
\<close>

definition written :: "buffer \<Rightarrow> nat \<Rightarrow> byte list \<Rightarrow> bool" where
  "written b i xs \<longleftrightarrow> i = length xs \<and> i \<le> length b \<and> take i b = xs"

lemma written_0 [simp]: "written b 0 []"
  by (simp add: written_def)

lemma written_set:
  "written b i xs \<Longrightarrow> i < length b \<Longrightarrow>
     \<exists>b'. buf_set b i v = Some b' \<and> written b' (Suc i) (xs @ [v]) \<and> length b' = length b"
  by (auto simp: written_def buf_set_def take_Suc_update)

lemma written_copy:
  "written b i xs \<Longrightarrow> i + length vs \<le> length b \<Longrightarrow>
     \<exists>b'. buf_copy b i vs = Some b' \<and> written b' (i + length vs) (xs @ vs) \<and> length b' = length b"
  by (auto simp: written_def buf_copy_def)

lemma written_take: "written b i xs \<Longrightarrow> take i b = xs"
  by (auto simp: written_def)

text \<open>
  A store is a copy of one byte, and adjacent copies are one copy: a sequence of stores at a moving
  cursor is a single copy of the text it writes.
\<close>

lemma buf_set_copy: "buf_set b i v = buf_copy b i [v]"
  by (auto simp: buf_set_def buf_copy_def upd_conv_take_nth_drop)

lemma buf_copy_copy:
  "j = i + length xs \<Longrightarrow>
   buf_copy b i xs \<bind> (\<lambda>d. buf_copy d j ys \<bind> f) = buf_copy b i (xs @ ys) \<bind> f"
  by (auto simp: buf_copy_def ac_simps)

lemma buf_copy_Nil: "i \<le> length b \<Longrightarrow> buf_copy b i [] = Some b"
  by (simp add: buf_copy_def)

lemma bind_copy_cong:
  "(\<And>d. length d = length b \<Longrightarrow> i + length xs \<le> length b \<Longrightarrow> f d = g d) \<Longrightarrow>
   buf_copy b i xs \<bind> f = buf_copy b i xs \<bind> g"
  by (auto simp: buf_copy_def)

lemma take_of_take_Suc: "take (Suc (length xs)) m = xs @ [c] \<Longrightarrow> take (length xs) m = xs"
  by (drule arg_cong [of _ _ "take (length xs)"]) simp

lemma take_drop_disjoint:
  assumes "a + n \<le> b \<or> b + length vs \<le> a" "b + length vs \<le> length xs"
  shows "take n (drop a (take b xs @ vs @ drop (b + length vs) xs)) = take n (drop a xs)"
  using assms(1)
proof
  assume "a + n \<le> b"
  then have "take n (drop a (take b xs @ ys)) = take n (drop a xs)" for ys
    using assms(2) by (simp add: take_drop min_def)
  then show ?thesis .
next
  assume "b + length vs \<le> a"
  then have "drop a (take b xs @ vs @ drop (b + length vs) xs) = drop a xs"
    using assms(2) by simp
  then show ?thesis by simp
qed

lemma shuffles_append_right: "ys @ cs \<in> shuffles cs ys"
  by (induction ys) (auto intro: Cons_in_shuffles_rightI)

lemma shuffles_append_left:
  "zs \<in> shuffles xs ys \<Longrightarrow> zs @ cs \<in> shuffles (xs @ cs) ys"
proof (induction xs ys arbitrary: zs rule: shuffles.induct)
  case (1 ys)
  then show ?case by (simp add: shuffles_append_right)
next
  case (2 xs)
  then show ?case by simp
next
  case (3 x xs y ys)
  then show ?case by auto
qed

lemma shuffles_append_dropped: "zs \<in> shuffles xs ys \<Longrightarrow> zs @ cs \<in> shuffles xs (ys @ cs)"
  using shuffles_append_left [of zs ys xs cs] by (simp add: shuffles_commutes)

section \<open>Numbers\<close>

lemma mod_add_left_inj:
  fixes a c i j :: nat
  assumes "(a + i) mod c = (a + j) mod c" "i < c" "j < c"
  shows "i = j"
proof -
  have "(int a + int i) mod int c = (int a + int j) mod int c"
    using arg_cong [OF assms(1), of int] by (simp add: zmod_int)
  then have "(int a + int i - int a) mod int c = (int a + int j - int a) mod int c"
    by (rule mod_diff_cong) simp
  with assms(2,3) show ?thesis by simp
qed

lemma area_index:
  fixes i j c :: nat
  assumes "i \<noteq> j" "n \<le> c" "m \<le> c"
  shows "i * c + n \<le> j * c \<or> j * c + m \<le> i * c"
proof -
  have "i + 1 \<le> j \<or> j + 1 \<le> i" using assms(1) by linarith
  then have "(i + 1) * c \<le> j * c \<or> (j + 1) * c \<le> i * c"
    using mult_le_mono1 by blast
  then show ?thesis using assms(2,3) by auto
qed


lemma unat_plus_one:
  fixes t c :: "'a::len word"
  assumes "t < c"
  shows "unat (t + 1) = unat t + 1"
proof -
  have "unat t + 1 \<le> unat c" using assms by (simp add: word_less_nat_alt)
  also have "unat c < 2 ^ LENGTH('a)" by (rule unsigned_less)
  finally show ?thesis by (simp add: unat_word_ariths)
qed

lemma unat_Suc_mod:
  fixes t c :: "'a::len word"
  assumes "t < c"
  shows "unat ((t + 1) mod c) = (unat t + 1) mod unat c"
  by (simp add: unat_mod_distrib unat_plus_one [OF assms])

lemma unat_mult_small:
  fixes a b :: "'a::len word"
  assumes "unat a * unat b < 2 ^ LENGTH('a)"
  shows "unat (a * b) = unat a * unat b"
  using assms by (simp add: unat_word_ariths)

lemma unat_add_small:
  fixes a b :: "'a::len word"
  assumes "unat a + unat b < 2 ^ LENGTH('a)"
  shows "unat (a + b) = unat a + unat b"
  using assms by (simp add: unat_word_ariths)

end
