(* ===== verification/JP_Errno.thy ===== *)
theory JP_Errno
  imports JP_Prelude
begin

text \<open>
  \<^verbatim>\<open>include/jp_errno.h\<close> and \<^verbatim>\<open>src/errno.c\<close>: the error codes, the per-thread error context, and
  the row that \<open>jp_errno_ctx_print\<close> assembles with \<^verbatim>\<open>snprintf\<close> in a stack buffer of 640 bytes.
  The texts of \<^verbatim>\<open>strerror\<close> and of \<^verbatim>\<open>mach_error_string\<close> are parameters, as is whether the build
  is for macOS. The main result is that the row always fits: the running offset never passes the
  end of the buffer, so the two stores that terminate the row are in bounds, and the row printed
  is exactly the concatenation of its parts.
\<close>

section \<open>Error codes\<close>

datatype jp_errno =
    JP_OK
  | JP_EMISSING_CMD
  | JP_EUNKNOWN_CMD
  | JP_EUNKNOWN_RUN_CMD
  | JP_ECHUNK_SIZE
  | JP_EBUFFER_SIZE
  | JP_EOVERFLOW_POLICY
  | JP_EOUT_DIR
  | JP_ETOO_MANY_FIELD
  | JP_EINV_FIELD_KEY
  | JP_EINV_FIELD_VAL
  | JP_ESHUTTING_DOWN
  | JP_EMSG_SHOULD_DROP
  | JP_ETRYAGAIN
  | JP_ERUN_FAILED
  | JP_ENOMEMORY
  | JP_EREAD_FAILED
  | JP_EWRITE_FAILED
  | JP_ESYS_ERR

datatype jp_errno_src = JP_ERRNO_SRC_NONE | JP_ERRNO_SRC_POSIX | JP_ERRNO_SRC_MACH

text \<open>The numbering of the C enumeration.\<close>

fun jp_errno_code :: "jp_errno \<Rightarrow> nat" where
  "jp_errno_code JP_OK = 0"
| "jp_errno_code JP_EMISSING_CMD = 1"
| "jp_errno_code JP_EUNKNOWN_CMD = 2"
| "jp_errno_code JP_EUNKNOWN_RUN_CMD = 3"
| "jp_errno_code JP_ECHUNK_SIZE = 4"
| "jp_errno_code JP_EBUFFER_SIZE = 5"
| "jp_errno_code JP_EOVERFLOW_POLICY = 6"
| "jp_errno_code JP_EOUT_DIR = 7"
| "jp_errno_code JP_ETOO_MANY_FIELD = 8"
| "jp_errno_code JP_EINV_FIELD_KEY = 9"
| "jp_errno_code JP_EINV_FIELD_VAL = 10"
| "jp_errno_code JP_ESHUTTING_DOWN = 11"
| "jp_errno_code JP_EMSG_SHOULD_DROP = 12"
| "jp_errno_code JP_ETRYAGAIN = 13"
| "jp_errno_code JP_ERUN_FAILED = 14"
| "jp_errno_code JP_ENOMEMORY = 15"
| "jp_errno_code JP_EREAD_FAILED = 16"
| "jp_errno_code JP_EWRITE_FAILED = 17"
| "jp_errno_code JP_ESYS_ERR = 18"

fun explain_error :: "jp_errno \<Rightarrow> cstring" where
  "explain_error JP_EMISSING_CMD =
     bytes ''Missing command. Please use 'jpipe --help' to see available commands.''"
| "explain_error JP_EUNKNOWN_CMD =
     bytes ''Unknown command. Please use 'jpipe --help' to see available commands.''"
| "explain_error JP_EUNKNOWN_RUN_CMD =
     bytes ''Unknown [run] argument. Please use 'jpipe run --help' to see available options.''"
| "explain_error JP_ECHUNK_SIZE =
     bytes ''Chunk size must be between 1kb (1024B) and 128kb (131072B), default (16kb).''"
| "explain_error JP_EBUFFER_SIZE =
     bytes ''Buffer size must be between 1 and 1024, (default: 64)''"
| "explain_error JP_EOVERFLOW_POLICY =
     bytes ''Overflow policy must be 'wait' or 'drop', (default: wait).''"
| "explain_error JP_EOUT_DIR =
     bytes ''Output directory is invalid, inaccessible or path too long.''"
| "explain_error JP_ETOO_MANY_FIELD =
     bytes ''Too many fields. Maximum allowed field number is 32.''"
| "explain_error JP_EINV_FIELD_KEY =
     bytes ''Invalid field key. The key must be at most 64 character (allowed: a-z, A-Z, 0-9, _, -).''"
| "explain_error JP_EINV_FIELD_VAL =
     bytes ''Invalid field value. The key must be at most 512 byte.''"
| "explain_error JP_ESHUTTING_DOWN = bytes ''The application is shutting down.''"
| "explain_error JP_EMSG_SHOULD_DROP = bytes ''Message was dropped.''"
| "explain_error JP_ETRYAGAIN = bytes ''Try again later.''"
| "explain_error JP_ERUN_FAILED = bytes ''An error occurred. Cannot run the application.''"
| "explain_error JP_ENOMEMORY = bytes ''Could not allocate memory.''"
| "explain_error JP_EREAD_FAILED = bytes ''Cannot read the incoming stream.''"
| "explain_error JP_EWRITE_FAILED = bytes ''Cannot write the stream.''"
| "explain_error JP_ESYS_ERR = bytes ''System error occurred.''"
| "explain_error JP_OK = bytes ''unknown error''"

section \<open>The error context\<close>

definition ERROR_MSG_MAX_LEN :: nat where "ERROR_MSG_MAX_LEN = 128"
definition ERROR_ROW_MAX_LEN :: nat where "ERROR_ROW_MAX_LEN = ERROR_MSG_MAX_LEN * 5"

record global_errno_ctx =
  ctx_line :: int
  ctx_sys_err :: int
  ctx_file :: cstring
  ctx_err :: jp_errno
  ctx_src :: jp_errno_src
  ctx_stack :: buffer

definition initial_errno_ctx :: global_errno_ctx where
  "initial_errno_ctx =
     \<lparr>ctx_line = 0, ctx_sys_err = 0, ctx_file = [], ctx_err = JP_OK, ctx_src = JP_ERRNO_SRC_NONE,
      ctx_stack = replicate ERROR_MSG_MAX_LEN 0\<rparr>"

definition jp_errno_ctx_set ::
  "jp_errno \<Rightarrow> jp_errno_src \<Rightarrow> int \<Rightarrow> cstring \<Rightarrow> int \<Rightarrow> global_errno_ctx \<Rightarrow> jp_errno \<times> global_errno_ctx"
where
  "jp_errno_ctx_set err src sys_err file line ctx =
     (err, ctx\<lparr>ctx_err := err, ctx_src := src, ctx_sys_err := sys_err, ctx_file := file,
               ctx_line := line, ctx_stack := (ctx_stack ctx)[0 := 0]\<rparr>)"

text \<open>
  \<^verbatim>\<open>snprintf(b + off, n, ...)\<close> for a rendered text: at most \<open>n - 1\<close> characters and a NUL are
  stored, nothing when \<open>n\<close> is 0; the result is the length the whole text would have needed.
\<close>

definition snprintf :: "buffer \<Rightarrow> nat \<Rightarrow> nat \<Rightarrow> cstring \<Rightarrow> (buffer \<times> nat) option" where
  "snprintf b off n text =
     (if n = 0 then Some (b, length text)
      else do { b' \<leftarrow> buf_copy b off (take (n - 1) text @ [0]); Some (b', length text) })"

text \<open>The caller's format arguments are rendered by \<^verbatim>\<open>vsnprintf\<close>; \<open>text\<close> is the rendered text.\<close>

definition jp_errno_ctx_setf ::
  "jp_errno \<Rightarrow> jp_errno_src \<Rightarrow> int \<Rightarrow> cstring \<Rightarrow> int \<Rightarrow> cstring \<Rightarrow> global_errno_ctx
     \<Rightarrow> (jp_errno \<times> global_errno_ctx) option"
where
  "jp_errno_ctx_setf err src sys_err file line text ctx =
     (let ctx' = snd (jp_errno_ctx_set err src sys_err file line ctx)
      in do {
        (stack, _) \<leftarrow> snprintf (ctx_stack ctx') 0 ERROR_MSG_MAX_LEN text;
        Some (err, ctx'\<lparr>ctx_stack := stack\<rparr>)
      })"

text \<open>The C string at the start of a buffer.\<close>

definition cstr_of :: "buffer \<Rightarrow> cstring" where
  "cstr_of b = takeWhile (\<lambda>c. c \<noteq> 0) b"

text \<open>The \<^verbatim>\<open>%d\<close> conversion.\<close>

fun dec_nat :: "nat \<Rightarrow> cstring" where
  "dec_nat n = (if n < 10 then [48 + of_nat n] else dec_nat (n div 10) @ [48 + of_nat (n mod 10)])"

declare dec_nat.simps [simp del]

definition dec_int :: "int \<Rightarrow> cstring" where
  "dec_int i = (if i < 0 then 45 # dec_nat (nat (- i)) else dec_nat (nat i))"

section \<open>Printing the context\<close>

definition tty_red :: "bool \<Rightarrow> cstring" where
  "tty_red no_color = (if no_color then [] else 27 # bytes ''[31m'')"

definition tty_rst :: "bool \<Rightarrow> cstring" where
  "tty_rst no_color = (if no_color then [] else 27 # bytes ''[0m'')"

text \<open>The texts of the four \<^verbatim>\<open>snprintf\<close> calls; \<^verbatim>\<open>%.128s\<close> cuts its argument at 128 bytes.\<close>

definition row_head :: "bool \<Rightarrow> global_errno_ctx \<Rightarrow> cstring" where
  "row_head no_color ctx =
     tty_red no_color @ bytes ''[ERROR]'' @ tty_rst no_color @ bytes '': '' @
     take 128 (explain_error (ctx_err ctx))"

definition row_stack :: "global_errno_ctx \<Rightarrow> cstring" where
  "row_stack ctx = bytes '' | '' @ take 128 (cstr_of (ctx_stack ctx))"

definition row_sys :: "(int \<Rightarrow> cstring) \<Rightarrow> global_errno_ctx \<Rightarrow> cstring" where
  "row_sys errstr ctx =
     bytes '' | (E'' @ dec_int (ctx_sys_err ctx) @ bytes '') '' @ take 128 (errstr (ctx_sys_err ctx))"

definition row_src :: "global_errno_ctx \<Rightarrow> cstring" where
  "row_src ctx =
     bytes '' | ['' @ take 128 (ctx_file ctx) @ bytes ''@'' @ dec_int (ctx_line ctx) @ bytes '']''"

text \<open>\<^verbatim>\<open>offset += snprintf(stack + offset, size - offset, text)\<close>, the difference in \<open>size_t\<close>.\<close>

definition row_append :: "buffer \<times> nat \<Rightarrow> cstring \<Rightarrow> (buffer \<times> nat) option" where
  "row_append row text =
     (case row of (stack, offset) \<Rightarrow> do {
        (stack', n) \<leftarrow>
          snprintf stack offset (unat (of_nat ERROR_ROW_MAX_LEN - of_nat offset :: size_t)) text;
        Some (stack', offset + n)
      })"

text \<open>The calls in order, each with the conjunction of the conditions it stands under.\<close>

definition row_parts ::
  "bool \<Rightarrow> bool \<Rightarrow> (int \<Rightarrow> cstring) \<Rightarrow> (int \<Rightarrow> cstring) \<Rightarrow> global_errno_ctx \<Rightarrow> (bool \<times> cstring) list"
where
  "row_parts apple no_color strerror mach_error_string ctx =
     [(True, row_head no_color ctx),
      (ctx_stack ctx ! 0 \<noteq> 0, row_stack ctx),
      (ctx_sys_err ctx > 0 \<and> ctx_src ctx = JP_ERRNO_SRC_POSIX, row_sys strerror ctx),
      (ctx_sys_err ctx > 0 \<and> apple \<and> ctx_src ctx = JP_ERRNO_SRC_MACH, row_sys mach_error_string ctx),
      (ctx_src ctx \<noteq> JP_ERRNO_SRC_NONE, row_src ctx)]"

fun row_append_all :: "buffer \<times> nat \<Rightarrow> (bool \<times> cstring) list \<Rightarrow> (buffer \<times> nat) option" where
  "row_append_all row [] = Some row"
| "row_append_all row ((c, piece) # ps) =
     do { row' \<leftarrow> (if c then row_append row piece else Some row); row_append_all row' ps }"

text \<open>
  \<open>stack0\<close> is the uninitialised stack array. The result is \<^const>\<open>None\<close> for a store out of
  bounds, \<open>Some None\<close> when nothing is printed, \<open>Some (Some row)\<close> for the row given to \<^verbatim>\<open>fputs\<close>.
\<close>

definition jp_errno_ctx_print ::
  "bool \<Rightarrow> bool \<Rightarrow> (int \<Rightarrow> cstring) \<Rightarrow> (int \<Rightarrow> cstring) \<Rightarrow> buffer \<Rightarrow> global_errno_ctx
     \<Rightarrow> cstring option option"
where
  "jp_errno_ctx_print apple no_color strerror mach_error_string stack0 ctx =
     (if ctx_err ctx = JP_OK then Some None
      else do {
        (stack, offset) \<leftarrow>
          row_append_all (stack0, 0) (row_parts apple no_color strerror mach_error_string ctx);
        stack \<leftarrow> buf_set stack offset 10;
        stack \<leftarrow> buf_set stack (Suc offset) 0;
        Some (Some (cstr_of stack))
      })"

section \<open>The row fits its buffer\<close>

lemma length_dec_nat: "n < 10 ^ k \<Longrightarrow> 0 < k \<Longrightarrow> length (dec_nat n) \<le> k"
proof (induction k arbitrary: n)
  case 0
  then show ?case by simp
next
  case (Suc k)
  show ?case
  proof (cases "n < 10")
    case True
    then show ?thesis by (simp add: dec_nat.simps [of n])
  next
    case False
    with Suc.prems have "0 < k" by (cases k) auto
    moreover have "n div 10 < 10 ^ k" using Suc.prems by auto
    ultimately have "length (dec_nat (n div 10)) \<le> k" by (intro Suc.IH)
    with False show ?thesis by (simp add: dec_nat.simps [of n])
  qed
qed

lemma dec_nat_no_nul: "0 \<notin> set (dec_nat n)"
proof (induction n rule: dec_nat.induct)
  case (1 n)
  have digit: "48 + of_nat d \<noteq> (0 :: byte)" if "d < 10" for d :: nat
  proof
    assume "48 + of_nat d = (0 :: byte)"
    then have "unat (48 + of_nat d :: byte) = 0" by simp
    with that show False by (simp add: unat_word_ariths unat_of_nat)
  qed
  show ?case
    using "1.IH" digit [of n] digit [of "n mod 10"] by (auto simp: dec_nat.simps [of n])
qed

definition int32 :: "int \<Rightarrow> bool" where
  "int32 i \<longleftrightarrow> - (2 ^ 31) \<le> i \<and> i < 2 ^ 31"

lemma length_dec_int: "int32 i \<Longrightarrow> length (dec_int i) \<le> 11"
  using length_dec_nat [of "nat (- i)" 10] length_dec_nat [of "nat i" 11]
  by (auto simp: dec_int_def int32_def)

lemma dec_int_no_nul: "0 \<notin> set (dec_int i)"
  by (auto simp: dec_int_def dec_nat_no_nul)

text \<open>What the context has to satisfy: machine integers, C strings, a 128-byte stack array.\<close>

definition errno_ctx_ok :: "global_errno_ctx \<Rightarrow> bool" where
  "errno_ctx_ok ctx \<longleftrightarrow>
     int32 (ctx_line ctx) \<and> int32 (ctx_sys_err ctx) \<and> 0 \<notin> set (ctx_file ctx) \<and>
     length (ctx_stack ctx) = ERROR_MSG_MAX_LEN \<and> 0 \<in> set (ctx_stack ctx)"

lemma initial_errno_ctx_ok: "errno_ctx_ok initial_errno_ctx"
  by (simp add: errno_ctx_ok_def initial_errno_ctx_def int32_def ERROR_MSG_MAX_LEN_def)

lemma jp_errno_ctx_set_ok:
  assumes "errno_ctx_ok ctx" "int32 sys_err" "int32 line" "0 \<notin> set file"
  shows "errno_ctx_ok (snd (jp_errno_ctx_set err src sys_err file line ctx))"
  using assms by (auto simp: errno_ctx_ok_def jp_errno_ctx_set_def ERROR_MSG_MAX_LEN_def
      intro: set_update_memI)

lemma jp_errno_ctx_setf_ok:
  assumes "errno_ctx_ok ctx" "int32 sys_err" "int32 line" "0 \<notin> set file"
  obtains ctx' where "jp_errno_ctx_setf err src sys_err file line text ctx = Some (err, ctx')"
    and "errno_ctx_ok ctx'" and "ctx_err ctx' = err"
  using assms
  by (auto simp: jp_errno_ctx_setf_def jp_errno_ctx_set_def errno_ctx_ok_def snprintf_def
      buf_copy_def ERROR_MSG_MAX_LEN_def Let_def)

lemma cstr_of_no_nul: "0 \<notin> set (cstr_of b)"
  by (auto simp: cstr_of_def dest: set_takeWhileD)

lemma cstr_of_stop: "0 \<notin> set xs \<Longrightarrow> cstr_of (xs @ 0 # ys) = xs"
  by (auto simp: cstr_of_def takeWhile_append)

text \<open>
  The row under construction holds the text appended so far. An append succeeds, and only
  appends, while the text ends before the buffer does.
\<close>

definition row_holds :: "buffer \<times> nat \<Rightarrow> cstring \<Rightarrow> bool" where
  "row_holds row xs \<longleftrightarrow> written (fst row) (snd row) xs \<and> length (fst row) = ERROR_ROW_MAX_LEN"

lemma row_append_holds:
  assumes "row_holds row xs" "length (xs @ piece) < ERROR_ROW_MAX_LEN"
  obtains row' where "row_append row piece = Some row'" "row_holds row' (xs @ piece)"
proof -
  obtain b i where row: "row = (b, i)" by (cases row)
  have w: "written b i xs" and i: "i = length xs" and b: "length b = ERROR_ROW_MAX_LEN"
    using assms(1) by (auto simp: row row_holds_def written_def)
  have n: "unat (of_nat ERROR_ROW_MAX_LEN - of_nat i :: size_t) = ERROR_ROW_MAX_LEN - i"
    using assms(2) by (simp add: i ERROR_ROW_MAX_LEN_def ERROR_MSG_MAX_LEN_def unat_sub unat_of_nat
        word_le_nat_alt)
  show thesis
    using assms(2) w b written_copy [OF w, of "piece @ [0]"] that
    by (auto simp: row row_append_def snprintf_def n [unfolded i] buf_copy_def i row_holds_def)
      (auto simp: written_def)
qed

definition row_text :: "(bool \<times> cstring) list \<Rightarrow> cstring" where
  "row_text ps = concat (map (\<lambda>(c, piece). if c then piece else []) ps)"

lemma row_append_all_holds:
  assumes "row_holds row xs" "length (xs @ row_text ps) < ERROR_ROW_MAX_LEN"
  shows "\<exists>row'. row_append_all row ps = Some row' \<and> row_holds row' (xs @ row_text ps)"
  using assms
proof (induction ps arbitrary: row xs)
  case Nil
  then show ?case by (simp add: row_text_def)
next
  case (Cons p ps)
  obtain c piece where p: "p = (c, piece)" by (cases p)
  let ?piece = "if c then piece else []"
  have step: "xs @ row_text (p # ps) = (xs @ ?piece) @ row_text ps" by (simp add: row_text_def p)
  have "\<exists>row1. (if c then row_append row piece else Some row) = Some row1 \<and> row_holds row1 (xs @ ?piece)"
  proof (cases c)
    case True
    with Cons.prems(2) have "length (xs @ piece) < ERROR_ROW_MAX_LEN" by (simp add: step)
    with Cons.prems(1) obtain row1 where "row_append row piece = Some row1" "row_holds row1 (xs @ piece)"
      by (rule row_append_holds)
    with True show ?thesis by simp
  next
    case False
    with Cons.prems(1) show ?thesis by simp
  qed
  then obtain row1 where "(if c then row_append row piece else Some row) = Some row1"
    and "row_holds row1 (xs @ ?piece)" by blast
  with Cons.IH [of row1 "xs @ ?piece"] Cons.prems(2) show ?case
    unfolding step by (simp add: p)
qed

text \<open>The text of the whole row, without its newline.\<close>

definition errno_row ::
  "bool \<Rightarrow> bool \<Rightarrow> (int \<Rightarrow> cstring) \<Rightarrow> (int \<Rightarrow> cstring) \<Rightarrow> global_errno_ctx \<Rightarrow> cstring"
where
  "errno_row apple no_color strerror mach_error_string ctx =
     row_text (row_parts apple no_color strerror mach_error_string ctx)"

lemmas errno_row_defs = errno_row_def row_text_def row_parts_def

lemma length_row_parts:
  "length (row_head no_color ctx) \<le> 146"
  "length (row_stack ctx) \<le> 131"
  "int32 (ctx_sys_err ctx) \<Longrightarrow> length (row_sys errstr ctx) \<le> 146"
  "int32 (ctx_line ctx) \<Longrightarrow> length (row_src ctx) \<le> 145"
  using length_dec_int [of "ctx_sys_err ctx"] length_dec_int [of "ctx_line ctx"]
  by (simp_all add: row_head_def row_stack_def row_sys_def row_src_def tty_red_def tty_rst_def
      bytes_def min_le_iff_disj)

lemma length_errno_row:
  assumes "errno_ctx_ok ctx"
  shows "length (errno_row apple no_color strerror mach_error_string ctx) \<le> 568"
proof -
  have "int32 (ctx_sys_err ctx)" "int32 (ctx_line ctx)"
    using assms by (simp_all add: errno_ctx_ok_def)
  with length_row_parts(1,2) [where ctx = ctx] length_row_parts(3,4) [where ctx = ctx]
  have "length (row_head no_color ctx) \<le> 146" "length (row_stack ctx) \<le> 131"
    "length (row_sys strerror ctx) \<le> 146" "length (row_sys mach_error_string ctx) \<le> 146"
    "length (row_src ctx) \<le> 145"
    by auto
  then show ?thesis by (cases "ctx_src ctx") (auto simp: errno_row_defs)
qed

lemma explain_error_no_nul: "0 \<notin> set (explain_error e)"
  by (cases e) (simp_all add: bytes_def)

lemma errno_row_no_nul:
  assumes "errno_ctx_ok ctx" "\<And>n. 0 \<notin> set (strerror n)" "\<And>n. 0 \<notin> set (mach_error_string n)"
  shows "0 \<notin> set (errno_row apple no_color strerror mach_error_string ctx)"
proof -
  have "0 \<notin> set (row_head no_color ctx)"
    using explain_error_no_nul
    by (auto simp: row_head_def tty_red_def tty_rst_def bytes_def dest: in_set_takeD)
  moreover have "0 \<notin> set (row_stack ctx)"
    using cstr_of_no_nul by (auto simp: row_stack_def bytes_def dest: in_set_takeD)
  moreover have "0 \<notin> set (row_sys errstr ctx)" if "\<And>n. 0 \<notin> set (errstr n)" for errstr
    using that dec_int_no_nul by (auto simp: row_sys_def bytes_def dest: in_set_takeD)
  moreover have "0 \<notin> set (row_src ctx)"
    using assms(1) dec_int_no_nul
    by (auto simp: row_src_def bytes_def errno_ctx_ok_def dest: in_set_takeD)
  ultimately show ?thesis using assms(2,3) by (auto simp: errno_row_defs)
qed

text \<open>The last two stores end the row with a newline and a NUL.\<close>

lemma row_terminated:
  assumes "row_holds (b, i) xs" "Suc (length xs) < ERROR_ROW_MAX_LEN" "0 \<notin> set xs"
  obtains b1 b2 where "buf_set b i 10 = Some b1" "buf_set b1 (Suc i) 0 = Some b2"
    "cstr_of b2 = xs @ [10]"
proof -
  have w: "written b i xs" and i: "i = length xs" and b: "length b = ERROR_ROW_MAX_LEN"
    using assms(1) by (auto simp: row_holds_def written_def)
  obtain b1 where b1: "buf_set b i 10 = Some b1" "written b1 (Suc i) (xs @ [10])"
    "length b1 = length b"
    using written_set [OF w, of 10] assms(2) b i by auto
  obtain b2 where b2: "buf_set b1 (Suc i) 0 = Some b2" "written b2 (Suc (Suc i)) ((xs @ [10]) @ [0])"
    using written_set [OF b1(2), of 0] assms(2) b1(3) b i by auto
  then have "b2 = (xs @ [10]) @ 0 # drop (Suc (Suc i)) b2"
    by (metis append.assoc append_Cons append_Nil append_take_drop_id written_take)
  then have "cstr_of b2 = xs @ [10]"
    using assms(3) cstr_of_stop [of "xs @ [10]" "drop (Suc (Suc i)) b2"] by auto
  with b1 b2 that show thesis by blast
qed

lemma errno_ctx_print_row:
  assumes ctx: "errno_ctx_ok ctx" and pending: "ctx_err ctx \<noteq> JP_OK"
    and texts: "\<And>n. 0 \<notin> set (strerror n)" "\<And>n. 0 \<notin> set (mach_error_string n)"
    and stack0: "length stack0 = ERROR_ROW_MAX_LEN"
  shows "jp_errno_ctx_print apple no_color strerror mach_error_string stack0 ctx =
           Some (Some (errno_row apple no_color strerror mach_error_string ctx @ [10]))"
proof -
  let ?row = "errno_row apple no_color strerror mach_error_string ctx"
  have len: "length ?row \<le> 568" by (rule length_errno_row [OF ctx])
  note max = ERROR_ROW_MAX_LEN_def ERROR_MSG_MAX_LEN_def
  have "row_holds (stack0, 0) []" by (simp add: row_holds_def stack0)
  then obtain b i where
    all: "row_append_all (stack0, 0) (row_parts apple no_color strerror mach_error_string ctx) = Some (b, i)"
    and holds: "row_holds (b, i) ?row"
    using row_append_all_holds [of "(stack0, 0)" "[]"
        "row_parts apple no_color strerror mach_error_string ctx"] len
    by (auto simp: errno_row_def max)
  obtain b1 b2 where "buf_set b i 10 = Some b1" "buf_set b1 (Suc i) 0 = Some b2"
    "cstr_of b2 = ?row @ [10]"
    using row_terminated [OF holds _ errno_row_no_nul [OF ctx texts]] len by (auto simp: max)
  with all pending show ?thesis by (simp add: jp_errno_ctx_print_def)
qed

text \<open>
  C21: \<open>jp_errno_ctx_print\<close> never stores outside its 640-byte row: for every context with a pending
  error, whatever the message, the system's error text and the file name, it prints exactly the
  parts of the row followed by one newline.
\<close>

theorem jp_errno_ctx_print_row:
  assumes ctx: "errno_ctx_ok ctx" and pending: "ctx_err ctx \<noteq> JP_OK"
    and texts: "\<And>n. 0 \<notin> set (strerror n)" "\<And>n. 0 \<notin> set (mach_error_string n)"
    and stack0: "length stack0 = ERROR_ROW_MAX_LEN"
  shows "jp_errno_ctx_print apple no_color strerror mach_error_string stack0 ctx =
           Some (Some (errno_row apple no_color strerror mach_error_string ctx @ [10]))"
  using assms by (rule errno_ctx_print_row)

theorem jp_errno_ctx_print_row_witness:
  "jp_errno_ctx_print False True (\<lambda>_. bytes ''x'') (\<lambda>_. []) (replicate 640 7)
     (snd (jp_errno_ctx_set JP_ESYS_ERR JP_ERRNO_SRC_POSIX 5 (bytes ''q.c'') 31 initial_errno_ctx)) =
   Some (Some (bytes ''[ERROR]: System error occurred. | (E5) x | [q.c@31]'' @ [10]))"
proof -
  let ?ctx = "snd (jp_errno_ctx_set JP_ESYS_ERR JP_ERRNO_SRC_POSIX 5 (bytes ''q.c'') 31 initial_errno_ctx)"
  have "errno_ctx_ok ?ctx"
    by (rule jp_errno_ctx_set_ok [OF initial_errno_ctx_ok]) (simp_all add: int32_def bytes_def)
  moreover have "errno_row False True (\<lambda>_. bytes ''x'') (\<lambda>_. []) ?ctx =
      bytes ''[ERROR]: System error occurred. | (E5) x | [q.c@31]''"
    by (simp add: errno_row_defs row_head_def row_stack_def row_sys_def row_src_def tty_red_def
        tty_rst_def jp_errno_ctx_set_def initial_errno_ctx_def bytes_def dec_int_def dec_nat.simps
        ERROR_MSG_MAX_LEN_def)
  ultimately show ?thesis
    using jp_errno_ctx_print_row [of ?ctx "\<lambda>_. bytes ''x''" "\<lambda>_. []" "replicate 640 7" False True]
    by (simp add: jp_errno_ctx_set_def bytes_def ERROR_ROW_MAX_LEN_def ERROR_MSG_MAX_LEN_def)
qed

end
