(* ===== verification/JP_Memory.thy ===== *)
theory JP_Memory
  imports JP_Errno
begin

text \<open>
  \<^verbatim>\<open>src/memory.c\<close>: the allocation wrappers. The C library's \<^verbatim>\<open>malloc\<close> and \<^verbatim>\<open>calloc\<close> are parameters:
  they give the new object's bytes, or \<^const>\<open>None\<close>. A wrapper returns an object or ends the process
  with \<^verbatim>\<open>abort\<close> after it has raised and printed \<^const>\<open>JP_ENOMEMORY\<close>; it never returns a null
  pointer. The components therefore take a parameter \<open>junk\<close>, the indeterminate contents of new
  objects, and \<open>malloc_bytes junk n\<close> is what a call that returned gave: \<open>n\<close> bytes, of which nothing
  is known.
\<close>

text \<open>
  What the code promises to the compiler: going on although \<open>cond\<close> is false is undefined, hence \<^const>\<open>None\<close>. Here it
  is that no object of size 0 is asked for.
\<close>

definition JP_ATTR_ASSUME :: "bool \<Rightarrow> unit option" where
  "JP_ATTR_ASSUME cond = (if \<not> cond then None else Some ())"

lemma assume_true [simp]: "cond \<Longrightarrow> JP_ATTR_ASSUME cond = Some ()"
  by (simp add: JP_ATTR_ASSUME_def)

text \<open>
  \<open>Abort ctx\<close> is the end of the process; \<open>ctx\<close> is the error context that was raised and that
  \<^const>\<open>jp_errno_ctx_print\<close> has printed. \<open>errno\<close> is the value the C library left there.
\<close>

datatype 'a mem_result = Returned 'a | Abort global_errno_ctx

definition raise_nomemory :: "int \<Rightarrow> int \<Rightarrow> global_errno_ctx \<Rightarrow> global_errno_ctx" where
  "raise_nomemory line errno ctx =
     snd (jp_errno_ctx_set JP_ENOMEMORY JP_ERRNO_SRC_POSIX errno (bytes ''memory.c'') line ctx)"

definition jp_mem_malloc ::
  "(nat \<Rightarrow> buffer option) \<Rightarrow> int \<Rightarrow> global_errno_ctx \<Rightarrow> nat \<Rightarrow> buffer mem_result option"
where
  "jp_mem_malloc malloc errno ctx sz =
     do {
       JP_ATTR_ASSUME (sz > 0);
       Some (case malloc sz of None \<Rightarrow> Abort (raise_nomemory 11 errno ctx) | Some p \<Rightarrow> Returned p)
     }"

definition jp_mem_calloc ::
  "(nat \<Rightarrow> nat \<Rightarrow> buffer option) \<Rightarrow> int \<Rightarrow> global_errno_ctx \<Rightarrow> nat \<Rightarrow> nat \<Rightarrow> buffer mem_result option"
where
  "jp_mem_calloc calloc errno ctx count sz =
     do {
       JP_ATTR_ASSUME (count > 0);
       JP_ATTR_ASSUME (sz > 0);
       Some (case calloc count sz of None \<Rightarrow> Abort (raise_nomemory 24 errno ctx) | Some p \<Rightarrow> Returned p)
     }"

text \<open>\<^const>\<open>None\<close> is here a store outside the new object as well.\<close>

definition jp_mem_strdup ::
  "(nat \<Rightarrow> buffer option) \<Rightarrow> int \<Rightarrow> global_errno_ctx \<Rightarrow> cstring \<Rightarrow> buffer mem_result option"
where
  "jp_mem_strdup malloc errno ctx src =
     (let len = length src + 1
      in do {
        r \<leftarrow> jp_mem_malloc malloc errno ctx len;
        case r of
          Abort e \<Rightarrow> Some (Abort e)
        | Returned p \<Rightarrow> map_option Returned (buf_copy p 0 (take len (src @ [0])))
      })"

text \<open>
  The documented contract of \<^verbatim>\<open>malloc\<close>, and of the objects handed to the components: what a call of
  \<open>jp_mem_malloc\<close> or \<open>jp_mem_calloc\<close> gave that returned.
\<close>

definition malloc_ok :: "(nat \<Rightarrow> buffer option) \<Rightarrow> bool" where
  "malloc_ok malloc \<longleftrightarrow> (\<forall>n p. malloc n = Some p \<longrightarrow> length p = n)"

definition malloc_bytes :: "(nat \<Rightarrow> buffer) \<Rightarrow> nat \<Rightarrow> buffer" where
  "malloc_bytes junk n = take n (junk n @ replicate n 0)"

definition new_object :: "(nat \<Rightarrow> buffer) \<Rightarrow> nat \<Rightarrow> buffer option" where
  "new_object junk n = do { JP_ATTR_ASSUME (n > 0); Some (malloc_bytes junk n) }"

definition new_zeroed :: "nat \<Rightarrow> nat \<Rightarrow> buffer option" where
  "new_zeroed count n = do { JP_ATTR_ASSUME (count > 0); JP_ATTR_ASSUME (n > 0); Some (replicate (count * n) 0) }"

lemma length_malloc_bytes [simp]: "length (malloc_bytes junk n) = n"
  by (simp add: malloc_bytes_def)

lemma new_object_pos [simp]: "0 < n \<Longrightarrow> new_object junk n = Some (malloc_bytes junk n)"
  by (simp add: new_object_def)

lemma new_object_eq_Some: "new_object junk n = Some p \<longleftrightarrow> 0 < n \<and> p = malloc_bytes junk n"
  by (auto simp: new_object_def JP_ATTR_ASSUME_def)

lemma new_zeroed_pos [simp]: "0 < count \<Longrightarrow> 0 < n \<Longrightarrow> new_zeroed count n = Some (replicate (count * n) 0)"
  by (simp add: new_zeroed_def)

lemma jp_mem_malloc_bytes:
  assumes "malloc_ok malloc" "jp_mem_malloc malloc errno ctx n = Some (Returned p)"
  shows "new_object (\<lambda>_. p) n = Some p"
  using assms
  by (auto simp: jp_mem_malloc_def malloc_ok_def new_object_def malloc_bytes_def bind_eq_Some_conv split: option.splits)

text \<open>A store into an object needs no assumption on its size: an object of size 0 has no place for it.\<close>

lemma new_object_copy:
  "xs \<noteq> [] \<Longrightarrow> new_object junk n \<bind> (\<lambda>m. buf_copy m i xs \<bind> f) = buf_copy (malloc_bytes junk n) i xs \<bind> f"
  by (cases "n = 0") (simp_all add: new_object_def JP_ATTR_ASSUME_def buf_copy_def)

text \<open>
  \<open>jp_mem_strdup\<close>, for a C string, stores only inside the object it allocates and returns an
  object of exactly the string and its NUL that reads back as the string; when \<^verbatim>\<open>malloc\<close> has no
  memory it does not return but ends the process with the no-memory error in the context.
\<close>

theorem jp_mem_strdup_copies:
  assumes "malloc_ok malloc" "0 \<notin> set src"
  shows "case malloc (length src + 1) of
           None \<Rightarrow> \<exists>c. jp_mem_strdup malloc errno ctx src = Some (Abort c) \<and>
                     ctx_err c = JP_ENOMEMORY \<and> ctx_sys_err c = errno
         | Some _ \<Rightarrow> \<exists>p. jp_mem_strdup malloc errno ctx src = Some (Returned p) \<and>
                     length p = length src + 1 \<and> cstr_of p = src"
proof (cases "malloc (length src + 1)")
  case None
  then show ?thesis
    by (simp add: jp_mem_strdup_def jp_mem_malloc_def Let_def raise_nomemory_def jp_errno_ctx_set_def)
next
  case (Some p)
  then have "length p = length src + 1" using assms(1) by (simp add: malloc_ok_def)
  with Some assms(2) cstr_of_stop [of src "[]"] show ?thesis
    by (simp add: jp_mem_strdup_def jp_mem_malloc_def Let_def buf_copy_def)
qed

theorem jp_mem_strdup_copies_witness:
  "\<exists>p. jp_mem_strdup (\<lambda>n. Some (replicate n 7)) 0 initial_errno_ctx (bytes ''ab'') = Some (Returned p) \<and>
       length p = 3 \<and> cstr_of p = bytes ''ab''"
proof -
  have "malloc_ok (\<lambda>n. Some (replicate n 7))" by (simp add: malloc_ok_def)
  moreover have "0 \<notin> set (bytes ''ab'')" by (simp add: bytes_def)
  ultimately show ?thesis
    using jp_mem_strdup_copies [of "\<lambda>n. Some (replicate n 7)" "bytes ''ab''" 0 initial_errno_ctx]
    by (auto simp: bytes_def)
qed

end
