(* ===== verification/JP_Queue.thy ===== *)
theory JP_Queue
  imports JP_Memory
begin

text \<open>
  \<^verbatim>\<open>include/jp_queue.h\<close> and \<^verbatim>\<open>src/queue.c\<close>, one call at a time: the ring of blocks that the reader
  fills and the writer empties. A push or a pop is two calls, one that gives the block and one that
  commits. Interleavings of the calls of several threads are the subject of \<open>JP_Queue_Conc\<close>; here a
  call that waits on a condition variable takes as an argument the states of the queue it finds
  each time it wakes up, and has no result when that list ends while it still has to wait.

  The indices, the capacity and the length are 64-bit words. The queue, its blocks and its area are
  one allocation, whose size the code computes in \<open>size_t\<close> arithmetic; the sizes of the two structs
  are parameters. The abstraction of a queue is the list of the contents of its committed blocks.
\<close>

section \<open>Data\<close>

datatype jp_queue_policy = JP_QUEUE_POLICY_WAIT | JP_QUEUE_POLICY_DROP

record jp_block =
  blk_data :: nat \<comment> \<open>\<^verbatim>\<open>data\<close>, as an offset into the area\<close>
  blk_length :: nat

record jp_queue =
  q_head :: size_t
  q_tail :: size_t
  q_capacity :: size_t
  q_chunk_size :: size_t
  q_active :: bool
  q_length :: size_t
  q_policy :: jp_queue_policy
  q_blocks :: "jp_block list"
  q_area :: buffer

text \<open>What \<open>jp_queue_create\<close> acquires and \<open>jp_queue_destroy\<close> releases.\<close>

datatype queue_resource = Queue_Object | Queue_Lock | Queue_Not_Empty | Queue_Not_Full

definition jp_queue_is_graceful_err :: "jp_errno \<Rightarrow> bool" where
  "jp_queue_is_graceful_err err \<longleftrightarrow> err = JP_ESHUTTING_DOWN \<or> err = JP_EMSG_SHOULD_DROP"

section \<open>Creating and destroying\<close>

definition queue_blocks_offset :: "size_t \<Rightarrow> size_t" where
  "queue_blocks_offset sizeof_queue = sizeof_queue"

definition queue_area_offset :: "size_t \<Rightarrow> size_t \<Rightarrow> size_t \<Rightarrow> size_t" where
  "queue_area_offset sizeof_queue sizeof_block capacity =
     queue_blocks_offset sizeof_queue + capacity * sizeof_block"

definition queue_total_size :: "size_t \<Rightarrow> size_t \<Rightarrow> size_t \<Rightarrow> size_t \<Rightarrow> size_t" where
  "queue_total_size sizeof_queue sizeof_block capacity chunk_size =
     queue_area_offset sizeof_queue sizeof_block capacity + capacity * chunk_size"

text \<open>
  The stores of the initialisation loop: block \<open>i\<close> has to lie inside the object of \<open>size\<close> bytes.
\<close>

fun init_blocks :: "nat \<Rightarrow> size_t \<Rightarrow> size_t \<Rightarrow> size_t \<Rightarrow> nat \<Rightarrow> jp_block list option" where
  "init_blocks obj_size blocks_offset sizeof_block chunk_size 0 = Some []"
| "init_blocks obj_size blocks_offset sizeof_block chunk_size (Suc i) =
     do {
       bs \<leftarrow> init_blocks obj_size blocks_offset sizeof_block chunk_size i;
       if unat blocks_offset + (i + 1) * unat sizeof_block \<le> obj_size
       then Some (bs @ [\<lparr>blk_data = unat (of_nat i * chunk_size), blk_length = 0\<rparr>])
       else None
     }"

text \<open>
  \<open>mutex_init\<close>, \<open>not_empty_init\<close> and \<open>not_full_init\<close> are the results of the three \<^verbatim>\<open>pthread\<close> calls. The
  result is the queue or null, the error stored through \<open>err\<close> with its system code, if any, and
  the resources still held on return; \<^const>\<open>None\<close> is a store outside the allocated object, which may be of size 0
  only when it is smaller than the queue.
\<close>

definition jp_queue_create ::
  "(nat \<Rightarrow> buffer) \<Rightarrow> size_t \<Rightarrow> size_t \<Rightarrow> int \<Rightarrow> int \<Rightarrow> int \<Rightarrow> size_t \<Rightarrow> size_t \<Rightarrow> jp_queue_policy
     \<Rightarrow> (jp_queue option \<times> (jp_errno \<times> int) option \<times> queue_resource list) option"
where
  "jp_queue_create junk sizeof_queue sizeof_block mutex_init not_empty_init not_full_init
      capacity chunk_size policy =
     (let blocks_offset = queue_blocks_offset sizeof_queue;
          area_offset = queue_area_offset sizeof_queue sizeof_block capacity;
          total_size = queue_total_size sizeof_queue sizeof_block capacity chunk_size;
          obj = malloc_bytes junk (unat total_size)
      in if length obj < unat sizeof_queue then None
         else do {
           blocks \<leftarrow> init_blocks (length obj) blocks_offset sizeof_block chunk_size (unat capacity);
           let queue = \<lparr>q_head = 0, q_tail = 0, q_capacity = capacity, q_chunk_size = chunk_size,
                        q_active = True, q_length = 0, q_policy = policy, q_blocks = blocks,
                        q_area = drop (unat area_offset) obj\<rparr>;
           if mutex_init \<noteq> 0 then
             (let held = [Queue_Object]
              in Some (None, Some (JP_ESYS_ERR, mutex_init), removeAll Queue_Object held))
           else if not_empty_init \<noteq> 0 then
             (let held = [Queue_Lock, Queue_Object]
              in Some (None, Some (JP_ESYS_ERR, not_empty_init),
                       removeAll Queue_Object (removeAll Queue_Lock held)))
           else if not_full_init \<noteq> 0 then
             (let held = [Queue_Not_Empty, Queue_Lock, Queue_Object]
              in Some (None, Some (JP_ESYS_ERR, not_full_init),
                       removeAll Queue_Object (removeAll Queue_Lock (removeAll Queue_Not_Empty held))))
           else Some (Some queue, None, [Queue_Not_Full, Queue_Not_Empty, Queue_Lock, Queue_Object])
         })"

definition jp_queue_destroy :: "jp_queue option \<Rightarrow> queue_resource list \<Rightarrow> queue_resource list" where
  "jp_queue_destroy queue held =
     (case queue of
        None \<Rightarrow> held
      | Some _ \<Rightarrow>
          removeAll Queue_Object
            (removeAll Queue_Not_Full (removeAll Queue_Not_Empty (removeAll Queue_Lock held))))"

section \<open>Pushing\<close>

text \<open>The condition of the \<^verbatim>\<open>while\<close> loop around \<^verbatim>\<open>pthread_cond_wait(&queue->not_full, ...)\<close>.\<close>

definition push_must_wait :: "jp_queue \<Rightarrow> bool" where
  "push_must_wait q \<longleftrightarrow> q_policy q = JP_QUEUE_POLICY_WAIT \<and> q_active q \<and> q_length q \<ge> q_capacity q"

fun push_wait_loop :: "jp_queue \<Rightarrow> jp_queue list \<Rightarrow> jp_queue option" where
  "push_wait_loop q wakeups =
     (if push_must_wait q
      then (case wakeups of [] \<Rightarrow> None | q' # wakeups' \<Rightarrow> push_wait_loop q' wakeups')
      else Some q)"

text \<open>What follows the loop, the lock still held: an error, or the block at the tail.\<close>

definition push_after_wait :: "jp_queue \<Rightarrow> jp_errno + size_t" where
  "push_after_wait q =
     (if \<not> q_active q then Inl JP_ESHUTTING_DOWN
      else if q_policy q = JP_QUEUE_POLICY_DROP \<and> q_length q \<ge> q_capacity q then Inl JP_EMSG_SHOULD_DROP
      else Inr (q_tail q))"

text \<open>A block is given as its index in \<open>blocks\<close>; \<open>Inl err\<close> leaves \<^verbatim>\<open>*block\<close> as it was.\<close>

definition jp_queue_push_uncommitted :: "jp_queue \<Rightarrow> jp_queue list \<Rightarrow> (jp_errno + size_t) option" where
  "jp_queue_push_uncommitted q wakeups =
     (if \<not> q_active q then Some (Inl JP_ESHUTTING_DOWN)
      else if q_length q < q_capacity q then Some (Inr (q_tail q))
      else do { q' \<leftarrow> push_wait_loop q wakeups; Some (push_after_wait q') })"

definition jp_queue_push_commit :: "jp_queue \<Rightarrow> jp_queue" where
  "jp_queue_push_commit q = q\<lparr>q_tail := (q_tail q + 1) mod q_capacity q, q_length := q_length q + 1\<rparr>"

section \<open>Popping\<close>

definition pop_must_wait :: "jp_queue \<Rightarrow> bool" where
  "pop_must_wait q \<longleftrightarrow> q_length q = 0 \<and> q_active q"

fun pop_wait_loop :: "jp_queue \<Rightarrow> jp_queue list \<Rightarrow> jp_queue option" where
  "pop_wait_loop q wakeups =
     (if pop_must_wait q
      then (case wakeups of [] \<Rightarrow> None | q' # wakeups' \<Rightarrow> pop_wait_loop q' wakeups')
      else Some q)"

definition pop_after_wait :: "jp_queue \<Rightarrow> jp_errno + size_t" where
  "pop_after_wait q =
     (if q_length q = 0 \<and> \<not> q_active q then Inl JP_ESHUTTING_DOWN else Inr (q_head q))"

definition jp_queue_pop_uncommitted :: "jp_queue \<Rightarrow> jp_queue list \<Rightarrow> (jp_errno + size_t) option" where
  "jp_queue_pop_uncommitted q wakeups =
     (if q_length q > 0 then Some (Inr (q_head q))
      else do { q' \<leftarrow> pop_wait_loop q wakeups; Some (pop_after_wait q') })"

definition jp_queue_pop_commit :: "jp_queue \<Rightarrow> jp_queue" where
  "jp_queue_pop_commit q = q\<lparr>q_head := (q_head q + 1) mod q_capacity q, q_length := q_length q - 1\<rparr>"

definition jp_queue_finalize :: "jp_queue \<Rightarrow> jp_queue" where
  "jp_queue_finalize q = (if \<not> q_active q then q else q\<lparr>q_active := False\<rparr>)"

section \<open>The clients' accesses to a block\<close>

text \<open>
  The reader sets the length of the block it got to 0, and stores bytes behind those the block
  holds; the writer reads the bytes of the block it got.
\<close>

definition block_reset :: "size_t \<Rightarrow> jp_queue \<Rightarrow> jp_queue" where
  "block_reset i q = q\<lparr>q_blocks := (q_blocks q)[unat i := (q_blocks q ! unat i)\<lparr>blk_length := 0\<rparr>]\<rparr>"

definition block_append :: "size_t \<Rightarrow> byte list \<Rightarrow> jp_queue \<Rightarrow> jp_queue option" where
  "block_append i bs q =
     (let b = q_blocks q ! unat i
      in do {
        area \<leftarrow> buf_copy (q_area q) (blk_data b + blk_length b) bs;
        Some (q\<lparr>q_area := area,
               q_blocks := (q_blocks q)[unat i := b\<lparr>blk_length := blk_length b + length bs\<rparr>]\<rparr>)
      })"

definition block_bytes :: "size_t \<Rightarrow> jp_queue \<Rightarrow> byte list" where
  "block_bytes i q =
     (let b = q_blocks q ! unat i in take (blk_length b) (drop (blk_data b) (q_area q)))"

section \<open>The invariant and the abstraction\<close>

abbreviation qcap :: "jp_queue \<Rightarrow> nat" where "qcap q \<equiv> unat (q_capacity q)"
abbreviation qchunk :: "jp_queue \<Rightarrow> nat" where "qchunk q \<equiv> unat (q_chunk_size q)"
abbreviation qlen :: "jp_queue \<Rightarrow> nat" where "qlen q \<equiv> unat (q_length q)"

definition blocks_ok :: "jp_queue \<Rightarrow> bool" where
  "blocks_ok q \<longleftrightarrow>
     length (q_blocks q) = qcap q \<and> length (q_area q) = qcap q * qchunk q \<and>
     (\<forall>i < qcap q. blk_data (q_blocks q ! i) = i * qchunk q \<and> blk_length (q_blocks q ! i) \<le> qchunk q)"

definition queue_ok :: "jp_queue \<Rightarrow> bool" where
  "queue_ok q \<longleftrightarrow>
     0 < qcap q \<and> unat (q_head q) < qcap q \<and> unat (q_tail q) = (unat (q_head q) + qlen q) mod qcap q \<and>
     qlen q \<le> qcap q \<and> blocks_ok q"

definition queue_slot :: "jp_queue \<Rightarrow> nat \<Rightarrow> size_t" where
  "queue_slot q i = of_nat ((unat (q_head q) + i) mod qcap q)"

definition queue_contents :: "jp_queue \<Rightarrow> byte list list" where
  "queue_contents q = map (\<lambda>i. block_bytes (queue_slot q i) q) [0..<qlen q]"

lemma length_queue_contents [simp]: "length (queue_contents q) = qlen q"
  by (simp add: queue_contents_def)

lemma unat_queue_slot [simp]:
  assumes "0 < qcap q"
  shows "unat (queue_slot q i) = (unat (q_head q) + i) mod qcap q"
proof -
  have "(unat (q_head q) + i) mod qcap q < qcap q" using assms by simp
  also have "qcap q < 2 ^ 64" using unsigned_less [of "q_capacity q"] by simp
  finally show ?thesis by (simp add: queue_slot_def unat_of_nat)
qed

lemma queue_slot_head: "queue_ok q \<Longrightarrow> queue_slot q 0 = q_head q"
  by (simp add: queue_slot_def queue_ok_def)

lemma queue_slot_tail: "queue_ok q \<Longrightarrow> queue_slot q (qlen q) = q_tail q"
  by (rule word_unat_eq_iff [THEN iffD2]) (simp add: queue_ok_def)

lemma queue_slot_inj:
  assumes "0 < qcap q" "i < qcap q" "j < qcap q" "queue_slot q i = queue_slot q j"
  shows "i = j"
proof -
  have "(unat (q_head q) + i) mod qcap q = (unat (q_head q) + j) mod qcap q"
    using arg_cong [OF assms(4), of unat] assms(1) by simp
  then show ?thesis using assms mod_add_left_inj by blast
qed


lemma len_less: "q_length q < q_capacity q \<longleftrightarrow> qlen q < qcap q"
  by (simp add: word_less_nat_alt)

section \<open>Each operation keeps the invariant and acts on the contents\<close>

lemma block_bytes_reset [simp]:
  "i \<noteq> j \<Longrightarrow> block_bytes i (block_reset j q) = block_bytes i q"
  by (simp add: block_bytes_def block_reset_def word_unat_eq_iff)

lemma block_reset_simps [simp]:
  "q_head (block_reset i q) = q_head q" "q_tail (block_reset i q) = q_tail q"
  "q_length (block_reset i q) = q_length q" "q_capacity (block_reset i q) = q_capacity q"
  "q_chunk_size (block_reset i q) = q_chunk_size q" "q_active (block_reset i q) = q_active q"
  "q_policy (block_reset i q) = q_policy q" "q_area (block_reset i q) = q_area q"
  by (simp_all add: block_reset_def)

lemma slot_not_tail:
  assumes "queue_ok q" "qlen q < qcap q" "i < qlen q"
  shows "queue_slot q i \<noteq> q_tail q"
  using queue_slot_inj [of q i "qlen q"] queue_slot_tail [OF assms(1)] assms
  by (auto simp: queue_ok_def)

lemma block_reset_ok:
  assumes "queue_ok q" "qlen q < qcap q"
  shows "queue_ok (block_reset (q_tail q) q)"
    and "queue_contents (block_reset (q_tail q) q) = queue_contents q"
    and "block_bytes (q_tail q) (block_reset (q_tail q) q) = []"
proof -
  have slot: "queue_slot (block_reset j q) i = queue_slot q i" for i j
    by (simp add: queue_slot_def)
  show "queue_ok (block_reset (q_tail q) q)"
    using assms by (auto simp: queue_ok_def blocks_ok_def block_reset_def nth_list_update)
  show "queue_contents (block_reset (q_tail q) q) = queue_contents q"
    using slot_not_tail [OF assms] by (simp add: queue_contents_def slot)
  show "block_bytes (q_tail q) (block_reset (q_tail q) q) = []"
    using assms by (simp add: block_bytes_def block_reset_def queue_ok_def blocks_ok_def)
qed

text \<open>Blocks do not overlap: a store behind the bytes of one block is outside every other.\<close>

lemma block_append_ok:
  assumes ok: "queue_ok q" and room: "qlen q < qcap q"
    and fits: "blk_length (q_blocks q ! unat (q_tail q)) + length bs \<le> qchunk q"
  obtains q' where "block_append (q_tail q) bs q = Some q'"
    and "queue_ok q'" "queue_contents q' = queue_contents q"
    and "block_bytes (q_tail q) q' = block_bytes (q_tail q) q @ bs"
    and "q' = q\<lparr>q_area := q_area q', q_blocks := q_blocks q'\<rparr>"
    and "blk_length (q_blocks q' ! unat (q_tail q)) = blk_length (q_blocks q ! unat (q_tail q)) + length bs"
proof -
  let ?t = "unat (q_tail q)" and ?b = "q_blocks q ! unat (q_tail q)"
  have t: "?t < qcap q" using ok by (simp add: queue_ok_def)
  have blk: "blk_data (q_blocks q ! i) = i * qchunk q" "blk_length (q_blocks q ! i) \<le> qchunk q"
    if "i < qcap q" for i
    using ok that by (auto simp: queue_ok_def blocks_ok_def)
  have area: "length (q_area q) = qcap q * qchunk q" "length (q_blocks q) = qcap q"
    using ok by (simp_all add: queue_ok_def blocks_ok_def)
  have "(?t + 1) * qchunk q \<le> qcap q * qchunk q" using t by (intro mult_le_mono1) simp
  then have inside: "blk_data ?b + blk_length ?b + length bs \<le> length (q_area q)"
    using fits t by (simp add: blk area)
  define q' where "q' = q\<lparr>q_area := take (blk_data ?b + blk_length ?b) (q_area q) @ bs @
      drop (blk_data ?b + blk_length ?b + length bs) (q_area q),
    q_blocks := (q_blocks q)[?t := ?b\<lparr>blk_length := blk_length ?b + length bs\<rparr>]\<rparr>"
  have run: "block_append (q_tail q) bs q = Some q'"
    using inside by (simp add: block_append_def buf_copy_def q'_def Let_def)
  have ok': "queue_ok q'"
    using ok fits inside by (auto simp: queue_ok_def blocks_ok_def q'_def nth_list_update area)
  have other: "block_bytes i q' = block_bytes i q" if "i \<noteq> q_tail q" "unat i < qcap q" for i
  proof -
    have ne: "unat i \<noteq> ?t" using that(1) by (simp add: word_unat_eq_iff)
    have "unat i * qchunk q + blk_length (q_blocks q ! unat i) \<le> ?t * qchunk q \<or>
        ?t * qchunk q + (blk_length ?b + length bs) \<le> unat i * qchunk q"
      using area_index [OF ne blk(2) [OF that(2)] fits] .
    then show ?thesis
      using take_drop_disjoint [of "unat i * qchunk q" "blk_length (q_blocks q ! unat i)"
          "blk_data ?b + blk_length ?b" bs "q_area q"] inside that ne t
      by (simp add: block_bytes_def q'_def Let_def blk) linarith
  qed
  have slot: "queue_slot q' i = queue_slot q i" and qlen: "qlen q' = qlen q" for i
    by (simp_all add: q'_def queue_slot_def)
  have slots: "unat (queue_slot q i) < qcap q" for i using ok by (simp add: queue_ok_def)
  have contents: "queue_contents q' = queue_contents q"
    unfolding queue_contents_def slot qlen
    using slot_not_tail [OF ok room] slots other by simp
  have "block_bytes (q_tail q) q' = block_bytes (q_tail q) q @ bs"
    using inside t fits by (simp add: block_bytes_def q'_def Let_def area blk drop_take)
  with that run ok' contents t show thesis by (simp add: q'_def area)
qed

lemma push_commit_ok:
  assumes "queue_ok q" "qlen q < qcap q"
  shows "queue_ok (jp_queue_push_commit q)"
    and "queue_contents (jp_queue_push_commit q) = queue_contents q @ [block_bytes (q_tail q) q]"
    and "qlen (jp_queue_push_commit q) = qlen q + 1"
proof -
  have t: "q_tail q < q_capacity q" using assms by (simp add: queue_ok_def word_less_nat_alt)
  have l: "unat (q_length q + 1) = qlen q + 1" using assms(2) by (intro unat_plus_one) (simp add: word_less_nat_alt)
  show "qlen (jp_queue_push_commit q) = qlen q + 1" by (simp add: jp_queue_push_commit_def l)
  show "queue_ok (jp_queue_push_commit q)"
    using assms by (simp add: queue_ok_def blocks_ok_def jp_queue_push_commit_def l unat_Suc_mod [OF t] mod_Suc_eq)
  have slot: "queue_slot (jp_queue_push_commit q) i = queue_slot q i" for i
    by (simp add: jp_queue_push_commit_def queue_slot_def)
  have bytes: "block_bytes i (jp_queue_push_commit q) = block_bytes i q" for i
    by (simp add: jp_queue_push_commit_def block_bytes_def)
  have "qlen (jp_queue_push_commit q) = qlen q + 1" by (simp add: jp_queue_push_commit_def l)
  then show "queue_contents (jp_queue_push_commit q) = queue_contents q @ [block_bytes (q_tail q) q]"
    by (simp add: queue_contents_def slot bytes queue_slot_tail [OF assms(1)])
qed

lemma pop_commit_ok:
  assumes "queue_ok q" "0 < qlen q"
  shows "queue_ok (jp_queue_pop_commit q)"
    and "queue_contents q = block_bytes (q_head q) q # queue_contents (jp_queue_pop_commit q)"
    and "qlen (jp_queue_pop_commit q) = qlen q - 1"
proof -
  have h: "q_head q < q_capacity q" using assms by (simp add: queue_ok_def word_less_nat_alt)
  have l: "unat (q_length q - 1) = qlen q - 1" using assms(2) by (simp add: unat_sub word_le_nat_alt)
  show qlen: "qlen (jp_queue_pop_commit q) = qlen q - 1" by (simp add: jp_queue_pop_commit_def l)
  have tail: "(unat (q_head q) + qlen q) mod qcap q = (Suc (unat (q_head q)) mod qcap q + (qlen q - 1)) mod qcap q"
    using assms(2) by (cases "qlen q") (simp_all add: mod_simps)
  show "queue_ok (jp_queue_pop_commit q)"
    using assms tail by (auto simp: queue_ok_def blocks_ok_def jp_queue_pop_commit_def l unat_Suc_mod [OF h] mod_simps)
  have slot: "queue_slot (jp_queue_pop_commit q) i = queue_slot q (Suc i)" for i
    by (simp add: jp_queue_pop_commit_def queue_slot_def unat_Suc_mod [OF h] mod_simps)
  have bytes: "block_bytes i (jp_queue_pop_commit q) = block_bytes i q" for i
    by (simp add: jp_queue_pop_commit_def block_bytes_def)
  have "[0..<qlen q] = 0 # map Suc [0..<qlen q - 1]"
    using assms(2) by (cases "qlen q") (simp_all add: map_Suc_upt upt_conv_Cons)
  then show "queue_contents q = block_bytes (q_head q) q # queue_contents (jp_queue_pop_commit q)"
    by (simp add: queue_contents_def qlen slot bytes queue_slot_head [OF assms(1)])
qed

section \<open>Creation\<close>

lemma init_blocks_eq:
  assumes "unat blocks_offset + n * unat sizeof_block \<le> obj_size" "n * unat chunk_size < 2 ^ 64"
  shows "init_blocks obj_size blocks_offset sizeof_block chunk_size n =
           Some (map (\<lambda>i. \<lparr>blk_data = i * unat chunk_size, blk_length = 0\<rparr>) [0..<n])"
  using assms
proof (induction n)
  case 0
  then show ?case by simp
next
  case (Suc n)
  have "n * unat chunk_size < 2 ^ 64" using Suc.prems(2) by simp
  moreover have "unat (of_nat n * chunk_size) = n * unat chunk_size"
    using calculation unat_of_nat [of "n * unat chunk_size", where 'a = 64] by simp
  ultimately show ?case using Suc by (simp add: algebra_simps)
qed

lemma queue_sizes:
  assumes "unat sizeof_queue + unat capacity * unat sizeof_block + unat capacity * unat chunk_size < 2 ^ 64"
  shows "unat (queue_area_offset sizeof_queue sizeof_block capacity) =
           unat sizeof_queue + unat capacity * unat sizeof_block"
    and "unat (queue_total_size sizeof_queue sizeof_block capacity chunk_size) =
           unat sizeof_queue + unat capacity * unat sizeof_block + unat capacity * unat chunk_size"
  using assms
  by (simp_all add: queue_area_offset_def queue_total_size_def queue_blocks_offset_def unat_word_ariths)

lemma jp_queue_create_eq:
  assumes fits: "unat sizeof_queue + unat capacity * unat sizeof_block + unat capacity * unat chunk_size < 2 ^ 64"
    and qcap: "0 < unat capacity"
  shows "\<exists>q. jp_queue_create junk sizeof_queue sizeof_block mi ei fi capacity chunk_size policy =
      Some (if mi = 0 \<and> ei = 0 \<and> fi = 0
            then (Some q, None, [Queue_Not_Full, Queue_Not_Empty, Queue_Lock, Queue_Object])
            else (None, Some (JP_ESYS_ERR, if mi \<noteq> 0 then mi else if ei \<noteq> 0 then ei else fi), [])) \<and>
      queue_ok q \<and> queue_contents q = [] \<and> q_active q \<and> q_capacity q = capacity \<and>
      q_chunk_size q = chunk_size \<and> q_policy q = policy"
proof -
  let ?total = "unat (queue_total_size sizeof_queue sizeof_block capacity chunk_size)"
  define q where "q = \<lparr>q_head = 0, q_tail = 0, q_capacity = capacity, q_chunk_size = chunk_size,
      q_active = True, q_length = 0, q_policy = policy,
      q_blocks = map (\<lambda>i. \<lparr>blk_data = i * unat chunk_size, blk_length = 0\<rparr>) [0..<unat capacity],
      q_area = drop (unat (queue_area_offset sizeof_queue sizeof_block capacity)) (malloc_bytes junk ?total)\<rparr>"
  have init: "init_blocks ?total (queue_blocks_offset sizeof_queue) sizeof_block chunk_size (unat capacity) =
      Some (q_blocks q)"
    using fits by (simp add: init_blocks_eq queue_sizes queue_blocks_offset_def q_def)
  have "queue_ok q"
    using qcap fits by (simp add: q_def queue_ok_def blocks_ok_def queue_sizes)
  moreover have "queue_contents q = []" by (simp add: queue_contents_def q_def)
  ultimately show ?thesis
    using fits init by (intro exI [of _ q]) (simp add: jp_queue_create_def Let_def queue_sizes q_def)
qed

text \<open>The sizes that the configuration allows cannot overflow the total.\<close>

lemma jp_queue_create_conf:
  assumes "JP_CONF_BUFFER_SIZE_MIN \<le> unat capacity" "unat capacity \<le> JP_CONF_BUFFER_SIZE_MAX"
    and "unat chunk_size \<le> JP_CONF_CHUNK_SIZE_MAX"
    and "unat sizeof_queue < 2 ^ 32" "unat sizeof_block < 2 ^ 32"
  shows "\<exists>q. jp_queue_create junk sizeof_queue sizeof_block mi ei fi capacity chunk_size policy =
      Some (if mi = 0 \<and> ei = 0 \<and> fi = 0
            then (Some q, None, [Queue_Not_Full, Queue_Not_Empty, Queue_Lock, Queue_Object])
            else (None, Some (JP_ESYS_ERR, if mi \<noteq> 0 then mi else if ei \<noteq> 0 then ei else fi), [])) \<and>
      queue_ok q \<and> queue_contents q = [] \<and> q_active q \<and> q_capacity q = capacity \<and>
      q_chunk_size q = chunk_size \<and> q_policy q = policy"
proof -
  have "unat capacity * unat sizeof_block \<le> 1024 * 2 ^ 32"
    using assms(2,5) by (intro mult_le_mono) (simp_all add: jp_conf_defs)
  moreover have "unat capacity * unat chunk_size \<le> 1024 * 131072"
    using assms(2,3) by (intro mult_le_mono) (simp_all add: jp_conf_defs)
  ultimately have "unat sizeof_queue + unat capacity * unat sizeof_block + unat capacity * unat chunk_size < 2 ^ 64"
    using assms(4) by simp
  from jp_queue_create_eq [OF this, of junk mi ei fi policy] assms(1) show ?thesis by (simp add: jp_conf_defs)
qed

section \<open>Waiting\<close>

declare push_wait_loop.simps [simp del] pop_wait_loop.simps [simp del]

text \<open>A waiting call goes on from the first state it finds in which it need not wait.\<close>

lemma push_wait_loop_find: "push_wait_loop q ws = find (\<lambda>q. \<not> push_must_wait q) (q # ws)"
  by (induction q ws rule: push_wait_loop.induct)
    (subst push_wait_loop.simps, simp split: list.split)

lemma push_wait_loop_None: "push_wait_loop q ws = None \<longleftrightarrow> list_all push_must_wait (q # ws)"
  unfolding push_wait_loop_find find_None_iff list_all_iff by auto

lemma push_wait_loop_SomeD:
  "push_wait_loop q ws = Some w \<Longrightarrow> w \<in> set (q # ws) \<and> \<not> push_must_wait w"
  unfolding push_wait_loop_find find_Some_iff by (metis nth_mem)

lemma pop_wait_loop_find: "pop_wait_loop q ws = find (\<lambda>q. \<not> pop_must_wait q) (q # ws)"
  by (induction q ws rule: pop_wait_loop.induct)
    (subst pop_wait_loop.simps, simp split: list.split)

lemma pop_wait_loop_None: "pop_wait_loop q ws = None \<longleftrightarrow> list_all pop_must_wait (q # ws)"
  unfolding pop_wait_loop_find find_None_iff list_all_iff by auto

lemma pop_wait_loop_SomeD:
  "pop_wait_loop q ws = Some w \<Longrightarrow> w \<in> set (q # ws) \<and> \<not> pop_must_wait w"
  unfolding pop_wait_loop_find find_Some_iff by (metis nth_mem)

section \<open>The contract\<close>

text \<open>
  A whole push, as the reader does it with the bytes of one block, and a whole pop, as the writer
  does it; neither wakes up from a wait.
\<close>

definition queue_put :: "byte list \<Rightarrow> jp_queue \<Rightarrow> (jp_errno + jp_queue) option" where
  "queue_put bs q =
     do {
       r \<leftarrow> jp_queue_push_uncommitted q [];
       (case r of
          Inl e \<Rightarrow> Some (Inl e)
        | Inr i \<Rightarrow> do { q' \<leftarrow> block_append i bs (block_reset i q); Some (Inr (jp_queue_push_commit q')) })
     }"

definition queue_take :: "jp_queue \<Rightarrow> (jp_errno + byte list \<times> jp_queue) option" where
  "queue_take q =
     do {
       r \<leftarrow> jp_queue_pop_uncommitted q [];
       Some (case r of Inl e \<Rightarrow> Inl e | Inr i \<Rightarrow> Inr (block_bytes i q, jp_queue_pop_commit q))
     }"

text \<open>
  The abstract queue that the reader and the writer see: a bounded first-in first-out list of
  blocks that can be closed. An operation that would wait has no result.
\<close>

datatype fifo_op = Put "byte list" | Take | Close

text \<open>
  A run of operations; one that waits or is refused changes nothing. The result is the list of
  blocks put, the list of blocks got, and the last state.
\<close>

fun fifo_run ::
  "(byte list \<Rightarrow> 'q \<Rightarrow> (jp_errno + 'q) option) \<Rightarrow> ('q \<Rightarrow> (jp_errno + byte list \<times> 'q) option) \<Rightarrow> ('q \<Rightarrow> 'q)
     \<Rightarrow> fifo_op list \<Rightarrow> 'q \<Rightarrow> byte list list \<times> byte list list \<times> 'q"
where
  "fifo_run put get close [] q = ([], [], q)"
| "fifo_run put get close (Put bs # ops) q =
     (case put bs q of
        Some (Inr q') \<Rightarrow> (case fifo_run put get close ops q' of (ins, outs, r) \<Rightarrow> (bs # ins, outs, r))
      | _ \<Rightarrow> fifo_run put get close ops q)"
| "fifo_run put get close (Take # ops) q =
     (case get q of
        Some (Inr (x, q')) \<Rightarrow> (case fifo_run put get close ops q' of (ins, outs, r) \<Rightarrow> (ins, x # outs, r))
      | _ \<Rightarrow> fifo_run put get close ops q)"
| "fifo_run put get close (Close # ops) q = fifo_run put get close ops (close q)"

locale bounded_fifo =
  fixes contents :: "'q \<Rightarrow> byte list list"
    and bound limit :: "'q \<Rightarrow> nat"
    and is_open drops invar :: "'q \<Rightarrow> bool"
    and put :: "byte list \<Rightarrow> 'q \<Rightarrow> (jp_errno + 'q) option"
    and get :: "'q \<Rightarrow> (jp_errno + byte list \<times> 'q) option"
    and close :: "'q \<Rightarrow> 'q"
  assumes put_closed: "invar q \<Longrightarrow> \<not> is_open q \<Longrightarrow> put bs q = Some (Inl JP_ESHUTTING_DOWN)"
    and put_full: "invar q \<Longrightarrow> is_open q \<Longrightarrow> length (contents q) = bound q \<Longrightarrow>
      put bs q = (if drops q then Some (Inl JP_EMSG_SHOULD_DROP) else None)"
    and put_room: "invar q \<Longrightarrow> is_open q \<Longrightarrow> length (contents q) < bound q \<Longrightarrow> length bs \<le> limit q \<Longrightarrow>
      \<exists>q'. put bs q = Some (Inr q') \<and> invar q' \<and> contents q' = contents q @ [bs] \<and>
           bound q' = bound q \<and> limit q' = limit q \<and> is_open q' = is_open q \<and> drops q' = drops q"
    and get_empty: "invar q \<Longrightarrow> contents q = [] \<Longrightarrow>
      get q = (if is_open q then None else Some (Inl JP_ESHUTTING_DOWN))"
    and get_first: "invar q \<Longrightarrow> contents q = x # xs \<Longrightarrow>
      \<exists>q'. get q = Some (Inr (x, q')) \<and> invar q' \<and> contents q' = xs \<and>
           bound q' = bound q \<and> limit q' = limit q \<and> is_open q' = is_open q \<and> drops q' = drops q"
    and close_closes: "invar q \<Longrightarrow> invar (close q) \<and> contents (close q) = contents q \<and>
      \<not> is_open (close q) \<and> bound (close q) = bound q \<and> limit (close q) = limit q"
    and bounded: "invar q \<Longrightarrow> length (contents q) \<le> bound q"
begin

lemma put_cases:
  assumes "invar q" "length bs \<le> limit q"
  obtains (no) "\<And>q'. put bs q \<noteq> Some (Inr q')"
  | (yes) q' where "put bs q = Some (Inr q')" "invar q'" "contents q' = contents q @ [bs]" "limit q' = limit q"
proof (cases "is_open q \<and> length (contents q) < bound q")
  case True
  then show thesis using put_room [OF assms(1) _ _ assms(2)] yes by blast
next
  case False
  then consider "\<not> is_open q" | "is_open q" "length (contents q) = bound q"
    using bounded [OF assms(1)] by linarith
  then show thesis using put_closed [OF assms(1)] put_full [OF assms(1)] no by cases auto
qed

lemma get_cases:
  assumes "invar q"
  obtains (no) "\<And>r. get q \<noteq> Some (Inr r)"
  | (yes) x q' where "get q = Some (Inr (x, q'))" "invar q'" "contents q = x # contents q'" "limit q' = limit q"
proof (cases "contents q")
  case Nil
  then show thesis using get_empty [OF assms] no by simp
next
  case (Cons x xs)
  then show thesis using get_first [OF assms Cons] yes by blast
qed

lemma run_fifo:
  assumes "invar q" "\<forall>bs. Put bs \<in> set ops \<longrightarrow> length bs \<le> limit q"
  shows "case fifo_run put get close ops q of (ins, outs, r) \<Rightarrow>
           contents q @ ins = outs @ contents r \<and> invar r \<and> length (contents r) \<le> bound r"
  using assms
proof (induction ops arbitrary: q)
  case Nil
  then show ?case using bounded by simp
next
  case (Cons op ops)
  show ?case
  proof (cases op)
    case (Put bs)
    have fits: "length bs \<le> limit q" using Cons.prems(2) by (simp add: Put)
    from Cons.prems(1) fits show ?thesis
    proof (cases rule: put_cases)
      case no
      then have "fifo_run put get close (op # ops) q = fifo_run put get close ops q" by (simp add: Put split: option.split sum.split)
      with Cons show ?thesis by simp
    next
      case (yes q')
      with Cons.IH [of q'] Cons.prems(2) show ?thesis by (auto simp: Put)
    qed
  next
    case Take
    from Cons.prems(1) show ?thesis
    proof (cases rule: get_cases)
      case no
      then have "fifo_run put get close (op # ops) q = fifo_run put get close ops q" by (auto simp: Take split: option.split sum.split)
      with Cons show ?thesis by simp
    next
      case (yes x q')
      with Cons.IH [of q'] Cons.prems(2) show ?thesis by (auto simp: Take)
    qed
  next
    case Close
    with Cons.IH [of "close q"] Cons.prems close_closes [of q] show ?thesis by simp
  qed
qed

end

lemma jp_queue_finalize_ok:
  "queue_ok (jp_queue_finalize q) = queue_ok q" "queue_contents (jp_queue_finalize q) = queue_contents q"
  by (simp_all add: jp_queue_finalize_def queue_ok_def blocks_ok_def queue_contents_def queue_slot_def
      block_bytes_def cong: map_cong)

lemma queue_put_room:
  assumes "queue_ok q" "q_active q" "qlen q < qcap q" "length bs \<le> qchunk q"
  shows "\<exists>q'. queue_put bs q = Some (Inr q') \<and> queue_ok q' \<and> queue_contents q' = queue_contents q @ [bs] \<and>
           qcap q' = qcap q \<and> qchunk q' = qchunk q \<and> q_active q' = q_active q \<and> q_policy q' = q_policy q"
proof -
  let ?q = "block_reset (q_tail q) q"
  note r = block_reset_ok [OF assms(1,3)]
  have "blk_length (q_blocks ?q ! unat (q_tail ?q)) = 0"
    using assms(1) by (simp add: block_reset_def queue_ok_def blocks_ok_def)
  then obtain q1 where q1: "block_append (q_tail ?q) bs ?q = Some q1" "queue_ok q1"
    "queue_contents q1 = queue_contents ?q" "block_bytes (q_tail ?q) q1 = block_bytes (q_tail ?q) ?q @ bs"
    "q1 = ?q\<lparr>q_area := q_area q1, q_blocks := q_blocks q1\<rparr>"
    using assms r(1) by (auto elim!: block_append_ok [of ?q bs])
  have same: "q_tail q1 = q_tail q" "q_length q1 = q_length q" "q_capacity q1 = q_capacity q"
    "q_chunk_size q1 = q_chunk_size q" "q_active q1 = q_active q" "q_policy q1 = q_policy q"
    by (subst q1(5), simp)+
  have run: "queue_put bs q = Some (Inr (jp_queue_push_commit q1))"
    using assms q1(1) by (simp add: queue_put_def jp_queue_push_uncommitted_def len_less)
  have "queue_contents (jp_queue_push_commit q1) = queue_contents q @ [bs]"
    using push_commit_ok(2) [OF q1(2)] assms(3) q1(3,4) r(2,3) by (simp add: same)
  with run push_commit_ok(1) [OF q1(2)] assms(3) show ?thesis
    by (simp add: same) (simp add: jp_queue_push_commit_def same)
qed

interpretation fifo: bounded_fifo queue_contents qcap qchunk q_active
  "\<lambda>q. q_policy q = JP_QUEUE_POLICY_DROP" queue_ok queue_put queue_take jp_queue_finalize
proof
  fix q bs assume ok: "queue_ok q"
  show "queue_put bs q = Some (Inl JP_ESHUTTING_DOWN)" if "\<not> q_active q"
    using that by (simp add: queue_put_def jp_queue_push_uncommitted_def)
  show "queue_put bs q = (if q_policy q = JP_QUEUE_POLICY_DROP then Some (Inl JP_EMSG_SHOULD_DROP) else None)"
    if "q_active q" "length (queue_contents q) = qcap q"
    using that by (cases "q_policy q")
      (auto simp: queue_put_def jp_queue_push_uncommitted_def len_less push_wait_loop_find
        push_must_wait_def push_after_wait_def word_le_nat_alt)
  show "\<exists>q'. queue_put bs q = Some (Inr q') \<and> queue_ok q' \<and> queue_contents q' = queue_contents q @ [bs] \<and>
      qcap q' = qcap q \<and> qchunk q' = qchunk q \<and> q_active q' = q_active q \<and>
      (q_policy q' = JP_QUEUE_POLICY_DROP) = (q_policy q = JP_QUEUE_POLICY_DROP)"
    if "q_active q" "length (queue_contents q) < qcap q" "length bs \<le> qchunk q"
    using queue_put_room [OF ok that(1) _ that(3)] that(2) by auto
  show "queue_take q = (if q_active q then None else Some (Inl JP_ESHUTTING_DOWN))"
    if "queue_contents q = []"
  proof -
    have "q_length q = 0" using arg_cong [OF that, of length] by (simp add: unat_eq_0)
    then show ?thesis
      by (simp add: queue_take_def jp_queue_pop_uncommitted_def pop_wait_loop_find pop_must_wait_def
          pop_after_wait_def)
  qed
  show "\<exists>q'. queue_take q = Some (Inr (x, q')) \<and> queue_ok q' \<and> queue_contents q' = xs \<and> qcap q' = qcap q \<and>
      qchunk q' = qchunk q \<and> q_active q' = q_active q \<and>
      (q_policy q' = JP_QUEUE_POLICY_DROP) = (q_policy q = JP_QUEUE_POLICY_DROP)"
    if "queue_contents q = x # xs" for x xs
  proof -
    have l: "0 < qlen q" using arg_cong [OF that, of length] by simp
    then have "queue_take q = Some (Inr (block_bytes (q_head q) q, jp_queue_pop_commit q))"
      by (simp add: queue_take_def jp_queue_pop_uncommitted_def word_less_nat_alt)
    with pop_commit_ok [OF ok l] that show ?thesis by (simp add: jp_queue_pop_commit_def)
  qed
  show "queue_ok (jp_queue_finalize q) \<and> queue_contents (jp_queue_finalize q) = queue_contents q \<and>
      \<not> q_active (jp_queue_finalize q) \<and> qcap (jp_queue_finalize q) = qcap q \<and>
      qchunk (jp_queue_finalize q) = qchunk q"
    using ok by (simp add: jp_queue_finalize_ok) (simp add: jp_queue_finalize_def)
  show "length (queue_contents q) \<le> qcap q" using ok by (simp add: queue_ok_def)
qed

section \<open>Properties\<close>

text \<open>
  C25: For every capacity and chunk size the command line admits, the allocation size does not wrap,
  every store of \<open>jp_queue_create\<close> is inside the allocated object, and on success the queue is
  well formed, active and empty, its blocks dividing the area. When an initialisation of the mutex
  or of a condition variable fails, the call returns null with \<open>JP_ESYS_ERR\<close> and the system code of
  the first failure and holds nothing any more; \<open>jp_queue_destroy\<close> releases all that a successful
  call holds.
\<close>

theorem queue_create_correct:
  assumes "JP_CONF_BUFFER_SIZE_MIN \<le> unat capacity" "unat capacity \<le> JP_CONF_BUFFER_SIZE_MAX"
    and "unat chunk_size \<le> JP_CONF_CHUNK_SIZE_MAX"
    and "unat sizeof_queue < 2 ^ 32" "unat sizeof_block < 2 ^ 32"
  shows "\<exists>q. jp_queue_create junk sizeof_queue sizeof_block mutex_init not_empty_init not_full_init
               capacity chunk_size policy =
      Some (if mutex_init = 0 \<and> not_empty_init = 0 \<and> not_full_init = 0
            then (Some q, None, [Queue_Not_Full, Queue_Not_Empty, Queue_Lock, Queue_Object])
            else (None, Some (JP_ESYS_ERR, if mutex_init \<noteq> 0 then mutex_init
                                           else if not_empty_init \<noteq> 0 then not_empty_init
                                           else not_full_init), [])) \<and>
      queue_ok q \<and> queue_contents q = [] \<and> q_active q \<and> q_capacity q = capacity \<and>
      q_chunk_size q = chunk_size \<and> q_policy q = policy \<and>
      jp_queue_destroy (Some q) [Queue_Not_Full, Queue_Not_Empty, Queue_Lock, Queue_Object] = []"
  using jp_queue_create_conf [OF assms, of junk mutex_init not_empty_init not_full_init policy]
  by (simp add: jp_queue_destroy_def)

theorem queue_create_correct_witness:
  "\<exists>q. jp_queue_create (\<lambda>_. []) 640 16 0 0 0 64 16384 JP_QUEUE_POLICY_WAIT =
         Some (Some q, None, [Queue_Not_Full, Queue_Not_Empty, Queue_Lock, Queue_Object]) \<and> queue_ok q"
  using queue_create_correct [of 64 16384 640 16 "\<lambda>_. []" 0 0 0 JP_QUEUE_POLICY_WAIT]
  by (auto simp: jp_conf_defs)

text \<open>
  C8: The ring buffer implements a bounded first-in first-out queue. In every run of pushes, pops
  and finalisations on a well-formed queue, with blocks no larger than the chunk size, what was in
  the queue and then what was accepted is exactly what was popped and then what is left, in order
  and with its bytes intact, however often the 64-bit indices wrap around the capacity; the queue
  stays well formed and never holds more blocks than its capacity. A push or pop that would wait or
  is refused changes nothing.
\<close>

theorem queue_is_bounded_fifo:
  assumes "queue_ok q" "\<forall>bs. Put bs \<in> set ops \<longrightarrow> length bs \<le> unat (q_chunk_size q)"
  shows "case fifo_run queue_put queue_take jp_queue_finalize ops q of (ins, outs, r) \<Rightarrow>
           queue_contents q @ ins = outs @ queue_contents r \<and> queue_ok r \<and>
           length (queue_contents r) \<le> unat (q_capacity r)"
  by (rule fifo.run_fifo [OF assms])

theorem queue_is_bounded_fifo_witness:
  "\<exists>q. queue_ok q \<and> q_capacity q = 2 \<and>
     (case fifo_run queue_put queue_take jp_queue_finalize
             [Put [1], Put [2], Put [3], Take, Put [4], Take, Close, Put [5], Take] q of
        (ins, outs, r) \<Rightarrow> ins = outs @ queue_contents r \<and> queue_ok r)"
proof -
  obtain q where q: "queue_ok q" "queue_contents q = []" "q_capacity q = 2" "q_chunk_size q = 1024"
    using jp_queue_create_eq [of 640 2 16 1024 "\<lambda>_. []" 0 0 0 JP_QUEUE_POLICY_DROP] by auto
  then show ?thesis
    using queue_is_bounded_fifo [OF q(1),
        of "[Put [1], Put [2], Put [3], Take, Put [4], Take, Close, Put [5], Take]"]
    by (intro exI [of _ q]) (auto simp del: fifo_run.simps)
qed

lemma push_answers:
  "(case jp_queue_push_uncommitted q wakeups of
      None \<Rightarrow> list_all (\<lambda>w. q_policy w = JP_QUEUE_POLICY_WAIT \<and> q_active w \<and> \<not> q_length w < q_capacity w)
                (q # wakeups)
    | Some r \<Rightarrow> \<exists>w \<in> set (q # wakeups).
        (case r of
           Inr i \<Rightarrow> i = q_tail w \<and> q_active w \<and> q_length w < q_capacity w
         | Inl e \<Rightarrow> e = JP_ESHUTTING_DOWN \<and> \<not> q_active w \<or>
                    e = JP_EMSG_SHOULD_DROP \<and> q_active w \<and> q_policy w = JP_QUEUE_POLICY_DROP \<and>
                    \<not> q_length w < q_capacity w))"
proof (cases "\<not> q_active q \<or> q_length q < q_capacity q")
  case True
  then show ?thesis by (auto simp: jp_queue_push_uncommitted_def)
next
  case False
  show ?thesis
  proof (cases "push_wait_loop q wakeups")
    case None
    then have "list_all push_must_wait (q # wakeups)" by (simp only: push_wait_loop_None)
    with False None show ?thesis
      by (auto simp: jp_queue_push_uncommitted_def list_all_iff push_must_wait_def)
  next
    case (Some w)
    then have w: "w \<in> set (q # wakeups)" "\<not> push_must_wait w"
      using push_wait_loop_SomeD by blast+
    then show ?thesis
      using False Some by (cases "q_policy w")
        (auto simp: jp_queue_push_uncommitted_def push_after_wait_def push_must_wait_def not_less
          intro!: bexI [OF _ w(1)])
  qed
qed

lemma pop_answers:
  "(case jp_queue_pop_uncommitted q wakeups of
      None \<Rightarrow> list_all (\<lambda>w. q_length w = 0 \<and> q_active w) (q # wakeups)
    | Some r \<Rightarrow> \<exists>w \<in> set (q # wakeups).
        (case r of
           Inr i \<Rightarrow> i = q_head w \<and> q_length w > 0
         | Inl e \<Rightarrow> e = JP_ESHUTTING_DOWN \<and> q_length w = 0 \<and> \<not> q_active w))"
proof (cases "q_length q > 0")
  case True
  then show ?thesis by (auto simp: jp_queue_pop_uncommitted_def)
next
  case False
  show ?thesis
  proof (cases "pop_wait_loop q wakeups")
    case None
    then have "list_all pop_must_wait (q # wakeups)" by (simp only: pop_wait_loop_None)
    with False None show ?thesis
      by (auto simp: jp_queue_pop_uncommitted_def list_all_iff pop_must_wait_def)
  next
    case (Some w)
    then have w: "w \<in> set (q # wakeups)" "\<not> pop_must_wait w"
      using pop_wait_loop_SomeD by blast+
    then show ?thesis
      using False Some by (auto simp: jp_queue_pop_uncommitted_def pop_after_wait_def pop_must_wait_def
          word_neq_0_conv intro!: bexI [OF _ w(1)])
  qed
qed

text \<open>
  C34: What the two calls answer, for every queue and every sequence of states they find when they wake up.
  \<open>jp_queue_push_uncommitted\<close> never gives out a block of a full or inactive queue, answers \<open>JP_ESHUTTING_DOWN\<close>
  only for an inactive one and \<open>JP_EMSG_SHOULD_DROP\<close> only for a full one under the drop policy, and it
  returns as soon as it finds a state in which one of these applies. \<open>jp_queue_pop_uncommitted\<close> gives out
  a block only of a non-empty queue, even after the queue was finalised, so committed blocks are drained;
  it answers \<open>JP_ESHUTTING_DOWN\<close> only for a queue that is both empty and inactive; and it waits only while
  every state it finds is empty and active.
\<close>

theorem queue_call_answers:
  "(case jp_queue_push_uncommitted q wakeups of
      None \<Rightarrow> list_all (\<lambda>w. q_policy w = JP_QUEUE_POLICY_WAIT \<and> q_active w \<and> \<not> q_length w < q_capacity w)
                (q # wakeups)
    | Some r \<Rightarrow> \<exists>w \<in> set (q # wakeups).
        (case r of
           Inr i \<Rightarrow> i = q_tail w \<and> q_active w \<and> q_length w < q_capacity w
         | Inl e \<Rightarrow> e = JP_ESHUTTING_DOWN \<and> \<not> q_active w \<or>
                    e = JP_EMSG_SHOULD_DROP \<and> q_active w \<and> q_policy w = JP_QUEUE_POLICY_DROP \<and>
                    \<not> q_length w < q_capacity w)) \<and>
   (case jp_queue_pop_uncommitted q wakeups of
      None \<Rightarrow> list_all (\<lambda>w. q_length w = 0 \<and> q_active w) (q # wakeups)
    | Some r \<Rightarrow> \<exists>w \<in> set (q # wakeups).
        (case r of
           Inr i \<Rightarrow> i = q_head w \<and> q_length w > 0
         | Inl e \<Rightarrow> e = JP_ESHUTTING_DOWN \<and> q_length w = 0 \<and> \<not> q_active w))"
  by (rule conjI [OF push_answers pop_answers])

end
