(* ===== verification/JP_Queue_Conc.thy ===== *)
theory JP_Queue_Conc
  imports JP_Queue
begin

text \<open>
  The calls of \<^verbatim>\<open>src/queue.c\<close> interleaved: the reader thread that pushes, the writer thread that pops,
  and the watcher thread that finalises on a signal, over one queue with its mutex and its two
  condition variables. A step is one access to what the threads share: a load of \<open>active\<close> or
  \<open>length\<close> outside the lock, an acquisition or a release of the mutex, a test or an update under the
  lock, a signal, an access to the bytes of a block. Inside one critical section the plain fields
  are only seen by the thread that holds the lock. Interleaving is sequentially consistent.

  A waiting thread leaves \<^verbatim>\<open>pthread_cond_wait\<close> when it is signalled or spuriously, and then has to
  take the lock again. \<open>sent\<close> and \<open>got\<close> are not part of the program: they record the contents of
  the blocks committed by the reader and read by the writer.
\<close>

section \<open>Threads and states\<close>

datatype thread = Reader | Writer | Watcher

text \<open>
  Where a thread is: in its own code (\<open>Ready\<close>), inside one of the queue's functions, in its own code
  with a block it was given (\<open>Push_Own\<close>, \<open>Pop_Own\<close>), or ended.
\<close>

datatype pc =
    Ready
  | Push_Length | Push_Lock | Push_Test | Push_Waiting | Push_Awake | Push_Unlock "jp_errno + size_t"
  | Push_Reset size_t | Push_Own size_t
  | Push_Commit_Lock | Push_Commit_Store | Push_Commit_Signal | Push_Commit_Unlock
  | Pop_Lock | Pop_Test | Pop_Waiting | Pop_Awake | Pop_Unlock "jp_errno + size_t"
  | Pop_Own size_t
  | Pop_Commit_Lock | Pop_Commit_Store | Pop_Commit_Signal | Pop_Commit_Unlock
  | Fin_Start | Fin_Lock | Fin_Store | Fin_Broadcast | Fin_Unlock
  | Done

record conc =
  cq :: jp_queue
  owner :: "thread option" \<comment> \<open>of the mutex\<close>
  pcs :: "thread \<Rightarrow> pc"
  sent :: "byte list list"
  got :: "byte list list"
  failed :: bool \<comment> \<open>the writer met a write error\<close>
  signalled :: bool \<comment> \<open>the watcher got its signal\<close>

definition conc_start :: "jp_queue \<Rightarrow> conc" where
  "conc_start q =
     \<lparr>cq = q, owner = None, pcs = (\<lambda>_. Ready), sent = [], got = [], failed = False, signalled = False\<rparr>"

abbreviation goto :: "thread \<Rightarrow> pc \<Rightarrow> conc \<Rightarrow> conc" where
  "goto t p c \<equiv> c\<lparr>pcs := (pcs c)(t := p)\<rparr>"

text \<open>\<^verbatim>\<open>pthread_cond_signal\<close> and \<^verbatim>\<open>pthread_cond_broadcast\<close>: at most one thread waits on each condition.\<close>

definition wake_not_empty :: "(thread \<Rightarrow> pc) \<Rightarrow> thread \<Rightarrow> pc" where
  "wake_not_empty ps = (if ps Writer = Pop_Waiting then ps(Writer := Pop_Awake) else ps)"

definition wake_not_full :: "(thread \<Rightarrow> pc) \<Rightarrow> thread \<Rightarrow> pc" where
  "wake_not_full ps = (if ps Reader = Push_Waiting then ps(Reader := Push_Awake) else ps)"

section \<open>Steps\<close>

text \<open>
  What a thread does in its own code is not seen here, only how it goes on. The reader at \<open>Ready\<close> may be in the loop of
  \<^verbatim>\<open>src/reader.c\<close> that polls the input again after every timeout (lines 26 to 33), and at \<open>Push_Own\<close> in a \<^verbatim>\<open>read\<close>
  that blocks (lines 45 to 50): its steps from there are possible, but nothing forces it to take them. The same holds of
  the writer at \<open>Pop_Own\<close>, which may be in a \<^verbatim>\<open>writev\<close> that blocks. \<open>forced_step\<close> below leaves these steps out.
\<close>

inductive reader_step :: "conc \<Rightarrow> conc \<Rightarrow> bool" where
  r_call: "pcs c Reader = Ready \<Longrightarrow>
    reader_step c (goto Reader (if q_active (cq c) then Push_Length else Fin_Start) c)"
| r_end: "pcs c Reader = Ready \<Longrightarrow> reader_step c (goto Reader Fin_Start c)"
| r_length: "pcs c Reader = Push_Length \<Longrightarrow>
    reader_step c (goto Reader (if q_length (cq c) < q_capacity (cq c) then Push_Reset (q_tail (cq c)) else Push_Lock) c)"
| r_lock: "pcs c Reader = Push_Lock \<or> pcs c Reader = Push_Awake \<Longrightarrow> owner c = None \<Longrightarrow>
    reader_step c (goto Reader Push_Test (c\<lparr>owner := Some Reader\<rparr>))"
| r_wait: "pcs c Reader = Push_Test \<Longrightarrow> push_must_wait (cq c) \<Longrightarrow>
    reader_step c (goto Reader Push_Waiting (c\<lparr>owner := None\<rparr>))"
| r_go: "pcs c Reader = Push_Test \<Longrightarrow> \<not> push_must_wait (cq c) \<Longrightarrow>
    reader_step c (goto Reader (Push_Unlock (push_after_wait (cq c))) c)"
| r_return: "pcs c Reader = Push_Unlock r \<Longrightarrow>
    reader_step c (goto Reader
      (case r of Inr i \<Rightarrow> Push_Reset i | Inl e \<Rightarrow> if e = JP_ESHUTTING_DOWN then Fin_Start else Ready)
      (c\<lparr>owner := None\<rparr>))"
| r_reset: "pcs c Reader = Push_Reset i \<Longrightarrow>
    reader_step c (goto Reader (Push_Own i) (c\<lparr>cq := block_reset i (cq c)\<rparr>))"
| r_fill: "pcs c Reader = Push_Own i \<Longrightarrow> bs \<noteq> [] \<Longrightarrow>
    blk_length (q_blocks (cq c) ! unat i) + length bs \<le> qchunk (cq c) \<Longrightarrow>
    block_append i bs (cq c) = Some q' \<Longrightarrow> reader_step c (c\<lparr>cq := q'\<rparr>)"
| r_commit: "pcs c Reader = Push_Own i \<Longrightarrow> reader_step c (goto Reader Push_Commit_Lock c)"
| r_give_up: "pcs c Reader = Push_Own i \<Longrightarrow> reader_step c (goto Reader Fin_Start c)"
| r_commit_lock: "pcs c Reader = Push_Commit_Lock \<Longrightarrow> owner c = None \<Longrightarrow>
    reader_step c (goto Reader Push_Commit_Store (c\<lparr>owner := Some Reader\<rparr>))"
| r_commit_store: "pcs c Reader = Push_Commit_Store \<Longrightarrow>
    reader_step c (goto Reader Push_Commit_Signal
      (c\<lparr>cq := jp_queue_push_commit (cq c), sent := sent c @ [block_bytes (q_tail (cq c)) (cq c)]\<rparr>))"
| r_commit_signal: "pcs c Reader = Push_Commit_Signal \<Longrightarrow>
    reader_step c (goto Reader Push_Commit_Unlock (c\<lparr>pcs := wake_not_empty (pcs c)\<rparr>))"
| r_commit_unlock: "pcs c Reader = Push_Commit_Unlock \<Longrightarrow>
    reader_step c (goto Reader Ready (c\<lparr>owner := None\<rparr>))"

inductive writer_step :: "conc \<Rightarrow> conc \<Rightarrow> bool" where
  w_call: "pcs c Writer = Ready \<Longrightarrow>
    writer_step c (goto Writer (if q_length (cq c) > 0 then Pop_Own (q_head (cq c)) else Pop_Lock) c)"
| w_lock: "pcs c Writer = Pop_Lock \<or> pcs c Writer = Pop_Awake \<Longrightarrow> owner c = None \<Longrightarrow>
    writer_step c (goto Writer Pop_Test (c\<lparr>owner := Some Writer\<rparr>))"
| w_wait: "pcs c Writer = Pop_Test \<Longrightarrow> pop_must_wait (cq c) \<Longrightarrow>
    writer_step c (goto Writer Pop_Waiting (c\<lparr>owner := None\<rparr>))"
| w_go: "pcs c Writer = Pop_Test \<Longrightarrow> \<not> pop_must_wait (cq c) \<Longrightarrow>
    writer_step c (goto Writer (Pop_Unlock (pop_after_wait (cq c))) c)"
| w_return: "pcs c Writer = Pop_Unlock r \<Longrightarrow>
    writer_step c (goto Writer (case r of Inr i \<Rightarrow> Pop_Own i | Inl e \<Rightarrow> Fin_Start) (c\<lparr>owner := None\<rparr>))"
| w_read: "pcs c Writer = Pop_Own i \<Longrightarrow>
    writer_step c (goto Writer Pop_Commit_Lock (c\<lparr>got := got c @ [block_bytes i (cq c)]\<rparr>))"
| w_fail: "pcs c Writer = Pop_Own i \<Longrightarrow> writer_step c (goto Writer Fin_Start (c\<lparr>failed := True\<rparr>))"
| w_commit_lock: "pcs c Writer = Pop_Commit_Lock \<Longrightarrow> owner c = None \<Longrightarrow>
    writer_step c (goto Writer Pop_Commit_Store (c\<lparr>owner := Some Writer\<rparr>))"
| w_commit_store: "pcs c Writer = Pop_Commit_Store \<Longrightarrow>
    writer_step c (goto Writer Pop_Commit_Signal (c\<lparr>cq := jp_queue_pop_commit (cq c)\<rparr>))"
| w_commit_signal: "pcs c Writer = Pop_Commit_Signal \<Longrightarrow>
    writer_step c (goto Writer Pop_Commit_Unlock (c\<lparr>pcs := wake_not_full (pcs c)\<rparr>))"
| w_commit_unlock: "pcs c Writer = Pop_Commit_Unlock \<Longrightarrow>
    writer_step c (goto Writer Ready (c\<lparr>owner := None\<rparr>))"

text \<open>\<open>jp_queue_finalize\<close>, which every thread calls.\<close>

inductive final_step :: "thread \<Rightarrow> conc \<Rightarrow> conc \<Rightarrow> bool" for t where
  f_start: "pcs c t = Fin_Start \<Longrightarrow>
    final_step t c (goto t (if q_active (cq c) then Fin_Lock else Done) c)"
| f_lock: "pcs c t = Fin_Lock \<Longrightarrow> owner c = None \<Longrightarrow>
    final_step t c (goto t Fin_Store (c\<lparr>owner := Some t\<rparr>))"
| f_store: "pcs c t = Fin_Store \<Longrightarrow>
    final_step t c (goto t Fin_Broadcast (c\<lparr>cq := (cq c)\<lparr>q_active := False\<rparr>\<rparr>))"
| f_broadcast: "pcs c t = Fin_Broadcast \<Longrightarrow>
    final_step t c (goto t Fin_Unlock (c\<lparr>pcs := wake_not_full (wake_not_empty (pcs c))\<rparr>))"
| f_unlock: "pcs c t = Fin_Unlock \<Longrightarrow> final_step t c (goto t Done (c\<lparr>owner := None\<rparr>))"

text \<open>What no thread does: the arrival of the watcher's signal, and spurious wakeups.\<close>

inductive env_step :: "conc \<Rightarrow> conc \<Rightarrow> bool" where
  e_signal: "pcs c Watcher = Ready \<Longrightarrow> env_step c (goto Watcher Fin_Start (c\<lparr>signalled := True\<rparr>))"
| e_spurious_push: "pcs c Reader = Push_Waiting \<Longrightarrow> env_step c (goto Reader Push_Awake c)"
| e_spurious_pop: "pcs c Writer = Pop_Waiting \<Longrightarrow> env_step c (goto Writer Pop_Awake c)"

definition thread_step :: "conc \<Rightarrow> conc \<Rightarrow> bool" where
  "thread_step c c' \<longleftrightarrow> reader_step c c' \<or> writer_step c c' \<or> (\<exists>t. final_step t c c')"

definition conc_step :: "conc \<Rightarrow> conc \<Rightarrow> bool" where
  "conc_step c c' \<longleftrightarrow> thread_step c c' \<or> env_step c c'"

inductive conc_reach :: "jp_queue \<Rightarrow> conc \<Rightarrow> bool" for q where
  reach_start: "conc_reach q (conc_start q)"
| reach_step: "conc_reach q c \<Longrightarrow> conc_step c c' \<Longrightarrow> conc_reach q c'"

section \<open>Invariants\<close>

lemmas conc_step_defs = conc_step_def thread_step_def
lemmas wake_defs = wake_not_empty_def wake_not_full_def

fun holds_lock :: "pc \<Rightarrow> bool" where
  "holds_lock Push_Test = True"
| "holds_lock (Push_Unlock r) = True"
| "holds_lock Push_Commit_Store = True"
| "holds_lock Push_Commit_Signal = True"
| "holds_lock Push_Commit_Unlock = True"
| "holds_lock Pop_Test = True"
| "holds_lock (Pop_Unlock r) = True"
| "holds_lock Pop_Commit_Store = True"
| "holds_lock Pop_Commit_Signal = True"
| "holds_lock Pop_Commit_Unlock = True"
| "holds_lock Fin_Store = True"
| "holds_lock Fin_Broadcast = True"
| "holds_lock Fin_Unlock = True"
| "holds_lock _ = False"

text \<open>The lock is held by exactly the thread that is inside a critical section.\<close>

definition lock_inv :: "conc \<Rightarrow> bool" where
  "lock_inv c \<longleftrightarrow> (\<forall>t. owner c = Some t \<longleftrightarrow> holds_lock (pcs c t))"

fun common_pc :: "pc \<Rightarrow> bool" where
  "common_pc Ready = True" | "common_pc Fin_Start = True" | "common_pc Fin_Lock = True"
| "common_pc Fin_Store = True" | "common_pc Fin_Broadcast = True" | "common_pc Fin_Unlock = True"
| "common_pc Done = True" | "common_pc _ = False"

fun push_pc :: "pc \<Rightarrow> bool" where
  "push_pc Push_Length = True" | "push_pc Push_Lock = True" | "push_pc Push_Test = True"
| "push_pc Push_Waiting = True" | "push_pc Push_Awake = True" | "push_pc (Push_Unlock r) = True"
| "push_pc (Push_Reset i) = True" | "push_pc (Push_Own i) = True" | "push_pc Push_Commit_Lock = True"
| "push_pc Push_Commit_Store = True" | "push_pc Push_Commit_Signal = True"
| "push_pc Push_Commit_Unlock = True" | "push_pc p = common_pc p"

fun pop_pc :: "pc \<Rightarrow> bool" where
  "pop_pc Pop_Lock = True" | "pop_pc Pop_Test = True" | "pop_pc Pop_Waiting = True"
| "pop_pc Pop_Awake = True" | "pop_pc (Pop_Unlock r) = True" | "pop_pc (Pop_Own i) = True"
| "pop_pc Pop_Commit_Lock = True" | "pop_pc Pop_Commit_Store = True"
| "pop_pc Pop_Commit_Signal = True" | "pop_pc Pop_Commit_Unlock = True" | "pop_pc p = common_pc p"

definition role_inv :: "conc \<Rightarrow> bool" where
  "role_inv c \<longleftrightarrow> push_pc (pcs c Reader) \<and> pop_pc (pcs c Writer) \<and> common_pc (pcs c Watcher)"

lemma wake_simps [simp]:
  "wake_not_empty ps Reader = ps Reader" "wake_not_empty ps Watcher = ps Watcher"
  "wake_not_full ps Writer = ps Writer" "wake_not_full ps Watcher = ps Watcher"
  "wake_not_empty ps Writer = (if ps Writer = Pop_Waiting then Pop_Awake else ps Writer)"
  "wake_not_full ps Reader = (if ps Reader = Push_Waiting then Push_Awake else ps Reader)"
  by (simp_all add: wake_defs)

lemma holds_lock_wake [simp]:
  "holds_lock (wake_not_empty ps t) = holds_lock (ps t)"
  "holds_lock (wake_not_full ps t) = holds_lock (ps t)"
  by (cases t; simp)+

text \<open>
  An invariant is kept by every step when it is kept by the steps of each thread, by
  \<open>jp_queue_finalize\<close> and by the environment.
\<close>

lemma conc_step_induct:
  assumes "conc_step c c'"
    and "reader_step c c' \<Longrightarrow> P" "writer_step c c' \<Longrightarrow> P" "\<And>t. final_step t c c' \<Longrightarrow> P" "env_step c c' \<Longrightarrow> P"
  shows P
  using assms unfolding conc_step_defs by blast

lemma lock_inv_owner: "lock_inv c \<Longrightarrow> holds_lock (pcs c t) \<Longrightarrow> owner c = Some t"
  by (simp add: lock_inv_def)

lemma lock_inv_only: "lock_inv c \<Longrightarrow> holds_lock (pcs c t) \<Longrightarrow> holds_lock (pcs c u) \<Longrightarrow> u = t"
  by (metis lock_inv_owner option.inject)

lemma lock_reader: "reader_step c c' \<Longrightarrow> lock_inv c \<Longrightarrow> lock_inv c'"
  by (induction rule: reader_step.induct)
    (auto simp: lock_inv_def split: sum.splits if_splits, (metis holds_lock.simps option.inject)+)

lemma lock_writer: "writer_step c c' \<Longrightarrow> lock_inv c \<Longrightarrow> lock_inv c'"
  by (induction rule: writer_step.induct)
    (auto simp: lock_inv_def split: sum.splits if_splits, (metis holds_lock.simps option.inject)+)

lemma lock_final: "final_step t c c' \<Longrightarrow> lock_inv c \<Longrightarrow> lock_inv c'"
  by (induction rule: final_step.induct)
    (auto simp: lock_inv_def split: if_splits, (metis holds_lock.simps option.inject)+)

lemma lock_env: "env_step c c' \<Longrightarrow> lock_inv c \<Longrightarrow> lock_inv c'"
  by (induction rule: env_step.induct) (auto simp: lock_inv_def split: if_splits)

lemma role_reader: "reader_step c c' \<Longrightarrow> role_inv c \<Longrightarrow> role_inv c'"
  by (induction rule: reader_step.induct) (auto simp: role_inv_def split: sum.splits)

lemma role_writer: "writer_step c c' \<Longrightarrow> role_inv c \<Longrightarrow> role_inv c'"
  by (induction rule: writer_step.induct) (auto simp: role_inv_def split: sum.splits)

lemma role_final: "final_step t c c' \<Longrightarrow> role_inv c \<Longrightarrow> role_inv c'"
  by (cases t; induction rule: final_step.induct) (auto simp: role_inv_def)

lemma role_env: "env_step c c' \<Longrightarrow> role_inv c \<Longrightarrow> role_inv c'"
  by (induction rule: env_step.induct) (auto simp: role_inv_def)

text \<open>
  The queue is well formed; a thread between being given a block and committing it has the block
  at its end of the ring, and there is one; and every block committed has been read, is being
  read, or is in the queue.
\<close>

fun push_holds :: "pc \<Rightarrow> jp_queue \<Rightarrow> bool" where
  "push_holds (Push_Unlock (Inr i)) q = (i = q_tail q \<and> qlen q < qcap q)"
| "push_holds (Push_Reset i) q = (i = q_tail q \<and> qlen q < qcap q)"
| "push_holds (Push_Own i) q = (i = q_tail q \<and> qlen q < qcap q)"
| "push_holds Push_Commit_Lock q = (qlen q < qcap q)"
| "push_holds Push_Commit_Store q = (qlen q < qcap q)"
| "push_holds _ q = True"

fun pop_holds :: "pc \<Rightarrow> jp_queue \<Rightarrow> bool" where
  "pop_holds (Pop_Unlock (Inr i)) q = (i = q_head q \<and> 0 < qlen q)"
| "pop_holds (Pop_Own i) q = (i = q_head q \<and> 0 < qlen q)"
| "pop_holds Pop_Commit_Lock q = (0 < qlen q)"
| "pop_holds Pop_Commit_Store q = (0 < qlen q)"
| "pop_holds _ q = True"

definition reading :: "pc \<Rightarrow> bool" where
  "reading p \<longleftrightarrow> p = Pop_Commit_Lock \<or> p = Pop_Commit_Store"

definition data_inv :: "conc \<Rightarrow> bool" where
  "data_inv c \<longleftrightarrow>
     queue_ok (cq c) \<and> push_holds (pcs c Reader) (cq c) \<and> pop_holds (pcs c Writer) (cq c) \<and>
     (if reading (pcs c Writer)
      then \<exists>done. got c = done @ [hd (queue_contents (cq c))] \<and> sent c = done @ queue_contents (cq c)
      else sent c = got c @ queue_contents (cq c))"

lemma push_after_wait_Inr:
  "\<not> push_must_wait q \<Longrightarrow> push_after_wait q = Inr i \<Longrightarrow> i = q_tail q \<and> qlen q < qcap q"
  by (cases "q_policy q")
    (auto simp: push_must_wait_def push_after_wait_def word_le_nat_alt split: if_splits)

lemma pop_after_wait_Inr:
  "\<not> pop_must_wait q \<Longrightarrow> pop_after_wait q = Inr i \<Longrightarrow> i = q_head q \<and> 0 < qlen q"
  by (auto simp: pop_must_wait_def pop_after_wait_def unat_gt_0 split: if_splits)

lemma push_holds_mono:
  "push_holds p q \<Longrightarrow> q_tail q' = q_tail q \<Longrightarrow> qcap q' = qcap q \<Longrightarrow> qlen q' \<le> qlen q \<Longrightarrow> push_holds p q'"
  by (induction p q rule: push_holds.induct) auto

lemma pop_holds_mono:
  "pop_holds p q \<Longrightarrow> q_head q' = q_head q \<Longrightarrow> qlen q \<le> qlen q' \<Longrightarrow> pop_holds p q'"
  by (induction p q rule: pop_holds.induct) auto

lemma head_is_first:
  "queue_ok q \<Longrightarrow> 0 < qlen q \<Longrightarrow> block_bytes (q_head q) q = hd (queue_contents q) \<and> queue_contents q \<noteq> []"
  using pop_commit_ok(2) [of q] by simp

lemma data_reader: "reader_step c c' \<Longrightarrow> data_inv c \<Longrightarrow> data_inv c'"
proof (induction rule: reader_step.induct)
  case (r_length c)
  then show ?case by (auto simp: data_inv_def len_less)
next
  case (r_go c)
  then show ?case
    by (cases "push_after_wait (cq c)") (auto simp: data_inv_def dest: push_after_wait_Inr)
next
  case (r_return c r)
  then show ?case by (cases r) (auto simp: data_inv_def)
next
  case (r_reset c i)
  then have i: "i = q_tail (cq c)" "qlen (cq c) < qcap (cq c)" "queue_ok (cq c)"
    by (simp_all add: data_inv_def)
  with r_reset block_reset_ok [OF i(3,2)] show ?case
    by (auto simp: data_inv_def elim: pop_holds_mono)
next
  case (r_fill c i bs q')
  then have i: "i = q_tail (cq c)" "qlen (cq c) < qcap (cq c)" "queue_ok (cq c)"
    by (simp_all add: data_inv_def)
  obtain q1 where q1: "block_append i bs (cq c) = Some q1" "queue_ok q1"
    "queue_contents q1 = queue_contents (cq c)" "q1 = (cq c)\<lparr>q_area := q_area q1, q_blocks := q_blocks q1\<rparr>"
    using block_append_ok [OF i(3,2), of bs] r_fill.hyps(3) i(1) by metis
  have "q' = q1" using q1(1) r_fill.hyps(4) by simp
  moreover have "q_tail q1 = q_tail (cq c)" "q_head q1 = q_head (cq c)" "q_length q1 = q_length (cq c)"
    "q_capacity q1 = q_capacity (cq c)"
    by (subst q1(4), simp)+
  ultimately show ?case
    using r_fill q1(2,3) by (auto simp: data_inv_def elim: pop_holds_mono)
next
  case (r_commit_store c)
  then have i: "qlen (cq c) < qcap (cq c)" "queue_ok (cq c)" by (simp_all add: data_inv_def)
  note p = push_commit_ok [OF i(2,1)]
  have "pop_holds (pcs c Writer) (jp_queue_push_commit (cq c))"
    using r_commit_store.prems p(3) by (auto simp: data_inv_def jp_queue_push_commit_def elim: pop_holds_mono)
  moreover have "queue_contents (cq c) \<noteq> []" if "reading (pcs c Writer)"
    using r_commit_store.prems that head_is_first [OF i(2)] by (auto simp: data_inv_def reading_def)
  ultimately show ?case
    using r_commit_store p(1,2) by (auto simp: data_inv_def hd_append)
next
  case (r_commit_signal c)
  then show ?case by (auto simp: data_inv_def reading_def)
qed (auto simp: data_inv_def split: if_splits)

lemma data_writer: "writer_step c c' \<Longrightarrow> data_inv c \<Longrightarrow> data_inv c'"
proof (induction rule: writer_step.induct)
  case (w_call c)
  then show ?case by (auto simp: data_inv_def reading_def word_less_nat_alt)
next
  case (w_go c)
  then show ?case
    by (cases "pop_after_wait (cq c)") (auto simp: data_inv_def reading_def dest: pop_after_wait_Inr)
next
  case (w_return c r)
  then show ?case by (cases r) (auto simp: data_inv_def reading_def)
next
  case (w_read c i)
  then have "i = q_head (cq c)" "0 < qlen (cq c)" "queue_ok (cq c)"
    by (simp_all add: data_inv_def)
  with w_read head_is_first [of "cq c"] show ?case by (auto simp: data_inv_def reading_def)
next
  case (w_commit_store c)
  then have i: "0 < qlen (cq c)" "queue_ok (cq c)" by (simp_all add: data_inv_def)
  note p = pop_commit_ok [OF i(2,1)]
  have "push_holds (pcs c Reader) (jp_queue_pop_commit (cq c))"
    using w_commit_store.prems p(3) by (auto simp: data_inv_def jp_queue_pop_commit_def elim: push_holds_mono)
  with w_commit_store p(1,2) show ?case by (auto simp: data_inv_def reading_def)
next
  case (w_commit_signal c)
  then show ?case by (auto simp: data_inv_def reading_def)
qed (auto simp: data_inv_def reading_def split: if_splits)

lemma queue_ok_inactive [simp]:
  "queue_ok (q\<lparr>q_active := False\<rparr>) = queue_ok q"
  "queue_contents (q\<lparr>q_active := False\<rparr>) = queue_contents q"
  by (simp_all add: queue_ok_def blocks_ok_def queue_contents_def queue_slot_def block_bytes_def cong: map_cong)

lemma holds_inactive [simp]:
  "push_holds p (q\<lparr>q_active := False\<rparr>) = push_holds p q"
  "pop_holds p (q\<lparr>q_active := False\<rparr>) = pop_holds p q"
  by (auto elim: push_holds_mono pop_holds_mono)

lemma data_inv_fifo:
  assumes inv: "data_inv c"
  shows "\<exists>rest. sent c = got c @ rest \<and> length rest \<le> qcap (cq c)"
proof -
  have ok: "queue_ok (cq c)" using inv by (simp add: data_inv_def)
  then have len: "qlen (cq c) \<le> qcap (cq c)" by (simp add: queue_ok_def)
  show ?thesis
  proof (cases "reading (pcs c Writer)")
    case False
    with inv len show ?thesis by (simp add: data_inv_def)
  next
    case True
    with inv obtain d where d: "got c = d @ [hd (queue_contents (cq c))]" "sent c = d @ queue_contents (cq c)"
      by (auto simp: data_inv_def)
    have "queue_contents (cq c) \<noteq> []"
      using inv True head_is_first [OF ok] by (auto simp: data_inv_def reading_def)
    with d have "sent c = got c @ tl (queue_contents (cq c))" by simp
    with len show ?thesis by (intro exI [of _ "tl (queue_contents (cq c))"]) simp
  qed
qed

lemma data_final: "final_step t c c' \<Longrightarrow> data_inv c \<Longrightarrow> data_inv c'"
  by (cases t; induction rule: final_step.induct) (auto simp: data_inv_def reading_def)

lemma data_env: "env_step c c' \<Longrightarrow> data_inv c \<Longrightarrow> data_inv c'"
  by (induction rule: env_step.induct) (auto simp: data_inv_def reading_def)

text \<open>
  A thread waits only while it has to, or while another thread is about to signal it; and no
  thread has ended, or is ending, before the queue is inactive.
\<close>

definition broadcasting :: "conc \<Rightarrow> bool" where
  "broadcasting c \<longleftrightarrow>
     pcs c Reader = Fin_Broadcast \<or> pcs c Writer = Fin_Broadcast \<or> pcs c Watcher = Fin_Broadcast"

definition wait_inv :: "conc \<Rightarrow> bool" where
  "wait_inv c \<longleftrightarrow>
     (pcs c Reader = Push_Waiting \<longrightarrow>
        push_must_wait (cq c) \<or> pcs c Writer = Pop_Commit_Signal \<or> broadcasting c) \<and>
     (pcs c Writer = Pop_Waiting \<longrightarrow>
        pop_must_wait (cq c) \<or> pcs c Reader = Push_Commit_Signal \<or> broadcasting c)"

definition ended_pc :: "pc \<Rightarrow> bool" where
  "ended_pc p \<longleftrightarrow> p = Fin_Broadcast \<or> p = Fin_Unlock \<or> p = Done"

definition end_inv :: "conc \<Rightarrow> bool" where
  "end_inv c \<longleftrightarrow>
     (q_active (cq c) \<longrightarrow> \<not> ended_pc (pcs c Reader) \<and> \<not> ended_pc (pcs c Writer) \<and> \<not> ended_pc (pcs c Watcher))"

lemma must_wait_simps [simp]:
  "push_must_wait (block_reset i q) = push_must_wait q" "pop_must_wait (block_reset i q) = pop_must_wait q"
  "push_must_wait (q\<lparr>q_area := a, q_blocks := b\<rparr>) = push_must_wait q"
  "pop_must_wait (q\<lparr>q_area := a, q_blocks := b\<rparr>) = pop_must_wait q"
  by (simp_all add: push_must_wait_def pop_must_wait_def)

lemma block_append_shape: "block_append i bs q = Some q' \<Longrightarrow> q' = q\<lparr>q_area := q_area q', q_blocks := q_blocks q'\<rparr>"
  by (auto simp: block_append_def Let_def bind_eq_Some_conv)

lemma commit_simps [simp]:
  "q_active (jp_queue_push_commit q) = q_active q" "q_active (jp_queue_pop_commit q) = q_active q"
  "q_policy (jp_queue_push_commit q) = q_policy q" "q_policy (jp_queue_pop_commit q) = q_policy q"
  "q_capacity (jp_queue_push_commit q) = q_capacity q" "q_capacity (jp_queue_pop_commit q) = q_capacity q"
  "q_chunk_size (jp_queue_push_commit q) = q_chunk_size q" "q_chunk_size (jp_queue_pop_commit q) = q_chunk_size q"
  by (simp_all add: jp_queue_push_commit_def jp_queue_pop_commit_def)

lemma wait_reader: "reader_step c c' \<Longrightarrow> data_inv c \<Longrightarrow> wait_inv c \<Longrightarrow> wait_inv c'"
proof (induction rule: reader_step.induct)
  case (r_fill c i bs q')
  have "push_must_wait q' = push_must_wait (cq c)" "pop_must_wait q' = pop_must_wait (cq c)"
    by (subst block_append_shape [OF r_fill.hyps(4)], simp)+
  with r_fill show ?case by (auto simp: wait_inv_def broadcasting_def)
next
  case (r_return c r)
  then show ?case by (cases r) (auto simp: wait_inv_def broadcasting_def)
qed (auto simp: wait_inv_def broadcasting_def split: if_splits)

lemma wait_writer: "writer_step c c' \<Longrightarrow> data_inv c \<Longrightarrow> wait_inv c \<Longrightarrow> wait_inv c'"
proof (induction rule: writer_step.induct)
  case (w_return c r)
  then show ?case by (cases r) (auto simp: wait_inv_def broadcasting_def)
qed (auto simp: wait_inv_def broadcasting_def split: if_splits)

lemma wait_final: "final_step t c c' \<Longrightarrow> wait_inv c \<Longrightarrow> wait_inv c'"
  by (cases t; induction rule: final_step.induct) (auto simp: wait_inv_def broadcasting_def split: if_splits)

lemma wait_env: "env_step c c' \<Longrightarrow> wait_inv c \<Longrightarrow> wait_inv c'"
  by (induction rule: env_step.induct) (auto simp: wait_inv_def broadcasting_def)

lemma end_reader: "reader_step c c' \<Longrightarrow> end_inv c \<Longrightarrow> end_inv c'"
proof (induction rule: reader_step.induct)
  case (r_fill c i bs q')
  have "q_active q' = q_active (cq c)" by (subst block_append_shape [OF r_fill.hyps(4)]) simp
  with r_fill show ?case by (auto simp: end_inv_def)
qed (auto simp: end_inv_def ended_pc_def split: sum.splits if_splits)

lemma end_writer: "writer_step c c' \<Longrightarrow> end_inv c \<Longrightarrow> end_inv c'"
  by (induction rule: writer_step.induct) (auto simp: end_inv_def ended_pc_def split: sum.splits if_splits)

lemma end_final: "final_step t c c' \<Longrightarrow> end_inv c \<Longrightarrow> end_inv c'"
  by (cases t; induction rule: final_step.induct) (auto simp: end_inv_def ended_pc_def split: if_splits)

lemma end_env: "env_step c c' \<Longrightarrow> end_inv c \<Longrightarrow> end_inv c'"
  by (induction rule: env_step.induct) (auto simp: end_inv_def ended_pc_def)

definition conc_inv :: "conc \<Rightarrow> bool" where
  "conc_inv c \<longleftrightarrow> lock_inv c \<and> role_inv c \<and> data_inv c \<and> wait_inv c \<and> end_inv c"

lemma conc_inv_step: "conc_step c c' \<Longrightarrow> conc_inv c \<Longrightarrow> conc_inv c'"
  unfolding conc_inv_def
  by (elim conc_step_induct)
    (blast intro: lock_reader lock_writer lock_final lock_env role_reader role_writer role_final role_env
      data_reader data_writer data_final data_env wait_reader wait_writer wait_final wait_env
      end_reader end_writer end_final end_env)+

lemma conc_inv_start: "queue_ok q \<Longrightarrow> queue_contents q = [] \<Longrightarrow> conc_inv (conc_start q)"
  by (simp add: conc_inv_def conc_start_def lock_inv_def role_inv_def data_inv_def wait_inv_def
      end_inv_def ended_pc_def reading_def)

lemma conc_inv_waits:
  assumes "conc_inv c" "owner c = None"
  shows "(pcs c Reader = Push_Waiting \<longrightarrow> push_must_wait (cq c)) \<and>
         (pcs c Writer = Pop_Waiting \<longrightarrow> pop_must_wait (cq c))"
proof -
  have inv: "lock_inv c" "wait_inv c" using assms(1) by (simp_all add: conc_inv_def)
  then have "\<not> holds_lock (pcs c t)" for t using assms(2) by (simp add: lock_inv_def)
  then have "pcs c Writer \<noteq> Pop_Commit_Signal" "pcs c Reader \<noteq> Push_Commit_Signal" "\<not> broadcasting c"
    by (auto simp: broadcasting_def) (metis holds_lock.simps)+
  with inv(2) show ?thesis by (simp add: wait_inv_def)
qed

lemma conc_inv_reach:
  assumes "conc_reach q c" "queue_ok q" "queue_contents q = []"
  shows "conc_inv c"
  using assms by (induction rule: conc_reach.induct) (auto intro: conc_inv_start conc_inv_step)

section \<open>Progress\<close>

text \<open>Where a thread may stay as long as it likes: it waits for the input, or for the output.\<close>

definition own_code :: "thread \<Rightarrow> pc \<Rightarrow> bool" where
  "own_code t p \<longleftrightarrow>
     (case t of
        Reader \<Rightarrow> p = Ready \<or> (\<exists>i. p = Push_Own i)
      | Writer \<Rightarrow> (\<exists>i. p = Pop_Own i)
      | Watcher \<Rightarrow> False)"

text \<open>The steps that are sure to be taken once they are possible.\<close>

definition forced_step :: "conc \<Rightarrow> conc \<Rightarrow> bool" where
  "forced_step c c' \<longleftrightarrow>
     reader_step c c' \<and> \<not> own_code Reader (pcs c Reader) \<or>
     writer_step c c' \<and> \<not> own_code Writer (pcs c Writer) \<or> (\<exists>t. final_step t c c')"

lemma forced_step_thread: "forced_step c c' \<Longrightarrow> thread_step c c'"
  by (auto simp: forced_step_def thread_step_def)

lemma reader_enabled:
  assumes "push_pc (pcs c Reader)" "pcs c Reader \<noteq> Done" "pcs c Reader \<noteq> Push_Waiting"
    and "owner c = None \<or> holds_lock (pcs c Reader)"
  shows "\<exists>c'. reader_step c c' \<or> final_step Reader c c'"
  using assms by (cases "push_must_wait (cq c)"; cases "pcs c Reader") (auto intro: reader_step.intros final_step.intros)

lemma writer_enabled:
  assumes "pop_pc (pcs c Writer)" "pcs c Writer \<noteq> Done" "pcs c Writer \<noteq> Pop_Waiting"
    and "owner c = None \<or> holds_lock (pcs c Writer)"
  shows "\<exists>c'. writer_step c c' \<or> final_step Writer c c'"
  using assms by (cases "pop_must_wait (cq c)"; cases "pcs c Writer") (auto intro: writer_step.intros final_step.intros)

lemma watcher_enabled:
  assumes "common_pc (pcs c Watcher)" "holds_lock (pcs c Watcher)"
  shows "\<exists>c'. final_step Watcher c c'"
  using assms by (cases "pcs c Watcher") (auto intro: final_step.intros)

text \<open>When no step is forced, the mutex is free and each of the two threads has ended, waits, or is in its own code.\<close>

lemma conc_halted:
  assumes inv: "conc_inv c" and stuck: "\<nexists>c'. forced_step c c'"
  shows "owner c = None"
    and "pcs c Reader = Done \<or> pcs c Reader = Push_Waiting \<or> own_code Reader (pcs c Reader)"
    and "pcs c Writer = Done \<or> pcs c Writer = Pop_Waiting \<or> own_code Writer (pcs c Writer)"
proof -
  have role: "push_pc (pcs c Reader)" "pop_pc (pcs c Writer)" "common_pc (pcs c Watcher)"
    using inv by (simp_all add: conc_inv_def role_inv_def)
  show free: "owner c = None"
  proof (rule ccontr)
    assume "owner c \<noteq> None"
    then obtain t where held: "holds_lock (pcs c t)" using inv by (auto simp: conc_inv_def lock_inv_def)
    then have "pcs c t \<noteq> Done" "pcs c t \<noteq> Push_Waiting" "pcs c t \<noteq> Pop_Waiting" "\<not> own_code t (pcs c t)"
      by (auto simp: own_code_def split: thread.split)
    with held show False
      using stuck role reader_enabled [of c] writer_enabled [of c] watcher_enabled [of c]
      by (cases t) (auto simp: forced_step_def)
  qed
  show "pcs c Reader = Done \<or> pcs c Reader = Push_Waiting \<or> own_code Reader (pcs c Reader)"
    using reader_enabled [OF role(1)] free stuck by (auto simp: forced_step_def)
  show "pcs c Writer = Done \<or> pcs c Writer = Pop_Waiting \<or> own_code Writer (pcs c Writer)"
    using writer_enabled [OF role(2)] free stuck by (auto simp: forced_step_def)
qed

lemma conc_progress:
  assumes inv: "conc_inv c" and running: "pcs c Reader \<noteq> Done \<or> pcs c Writer \<noteq> Done"
  shows "\<exists>c'. thread_step c c'"
proof (rule ccontr)
  assume stuck: "\<not> ?thesis"
  then have "\<nexists>c'. forced_step c c'" using forced_step_thread by blast
  note halted = conc_halted [OF inv this]
  have role: "push_pc (pcs c Reader)" "pop_pc (pcs c Writer)"
    using inv by (simp_all add: conc_inv_def role_inv_def)
  have r: "pcs c Reader = Done \<or> pcs c Reader = Push_Waiting" and w: "pcs c Writer = Done \<or> pcs c Writer = Pop_Waiting"
    using reader_enabled [OF role(1)] writer_enabled [OF role(2)] halted(1) stuck by (auto simp: thread_step_def)
  moreover have "0 < qcap (cq c)" using inv by (simp add: conc_inv_def data_inv_def queue_ok_def)
  ultimately show False
    using running inv conc_inv_waits [OF inv halted(1)]
    by (auto simp: conc_inv_def end_inv_def ended_pc_def push_must_wait_def pop_must_wait_def word_le_nat_alt)
qed

section \<open>Shutting down\<close>

fun reader_rank :: "jp_queue \<Rightarrow> pc \<Rightarrow> nat" where
  "reader_rank q Push_Length = 26 + qchunk q"
| "reader_rank q Push_Waiting = 26 + qchunk q"
| "reader_rank q Push_Lock = 25 + qchunk q"
| "reader_rank q Push_Awake = 25 + qchunk q"
| "reader_rank q Push_Test = 24 + qchunk q"
| "reader_rank q (Push_Unlock r) = 23 + qchunk q"
| "reader_rank q (Push_Reset i) = 22 + qchunk q"
| "reader_rank q (Push_Own i) = 21 + (qchunk q - blk_length (q_blocks q ! unat i))"
| "reader_rank q Push_Commit_Lock = 20"
| "reader_rank q Push_Commit_Store = 19"
| "reader_rank q Push_Commit_Signal = 8"
| "reader_rank q Push_Commit_Unlock = 7"
| "reader_rank q Ready = 6"
| "reader_rank q Fin_Start = 5"
| "reader_rank q Fin_Lock = 4"
| "reader_rank q Fin_Store = 3"
| "reader_rank q Fin_Broadcast = 2"
| "reader_rank q Fin_Unlock = 1"
| "reader_rank q _ = 0"

fun writer_rank :: "pc \<Rightarrow> nat" where
  "writer_rank Pop_Commit_Signal = 15"
| "writer_rank Pop_Commit_Unlock = 14"
| "writer_rank Ready = 13"
| "writer_rank Pop_Waiting = 12"
| "writer_rank Pop_Awake = 11"
| "writer_rank Pop_Lock = 11"
| "writer_rank Pop_Test = 10"
| "writer_rank (Pop_Unlock r) = 9"
| "writer_rank (Pop_Own i) = 8"
| "writer_rank Pop_Commit_Lock = 7"
| "writer_rank Pop_Commit_Store = 6"
| "writer_rank Fin_Start = 5"
| "writer_rank Fin_Lock = 4"
| "writer_rank Fin_Store = 3"
| "writer_rank Fin_Broadcast = 2"
| "writer_rank Fin_Unlock = 1"
| "writer_rank _ = 0"

definition shutdown_bound :: "conc \<Rightarrow> nat" where
  "shutdown_bound c =
     reader_rank (cq c) (pcs c Reader) + writer_rank (pcs c Writer) + writer_rank (pcs c Watcher) +
     10 * qlen (cq c)"

lemma down_reader:
  "reader_step c c' \<Longrightarrow> conc_inv c \<Longrightarrow> \<not> q_active (cq c) \<Longrightarrow>
   shutdown_bound c' < shutdown_bound c \<and> \<not> q_active (cq c')"
proof (induction rule: reader_step.induct)
  case (r_return c r)
  then show ?case by (cases r) (auto simp: shutdown_bound_def)
next
  case (r_reset c i)
  then have "unat i < length (q_blocks (cq c))"
    by (auto simp: conc_inv_def data_inv_def queue_ok_def blocks_ok_def)
  with r_reset show ?case by (auto simp: shutdown_bound_def block_reset_def)
next
  case (r_fill c i bs q')
  then have "unat i < length (q_blocks (cq c))"
    by (auto simp: conc_inv_def data_inv_def queue_ok_def blocks_ok_def)
  with r_fill show ?case
    by (cases bs) (auto simp: shutdown_bound_def block_append_def Let_def bind_eq_Some_conv)
next
  case (r_commit_store c)
  then have "qlen (jp_queue_push_commit (cq c)) = qlen (cq c) + 1"
    by (intro push_commit_ok) (simp_all add: conc_inv_def data_inv_def)
  with r_commit_store show ?case by (auto simp: shutdown_bound_def)
qed (auto simp: shutdown_bound_def push_must_wait_def)

lemma down_writer:
  "writer_step c c' \<Longrightarrow> conc_inv c \<Longrightarrow> \<not> q_active (cq c) \<Longrightarrow>
   shutdown_bound c' < shutdown_bound c \<and> \<not> q_active (cq c')"
proof (induction rule: writer_step.induct)
  case (w_return c r)
  then show ?case by (cases r) (auto simp: shutdown_bound_def)
next
  case (w_commit_store c)
  then have "0 < qlen (cq c)" "qlen (jp_queue_pop_commit (cq c)) = qlen (cq c) - 1"
    using pop_commit_ok(3) [of "cq c"] by (simp_all add: conc_inv_def data_inv_def)
  moreover have "reader_rank (jp_queue_pop_commit (cq c)) p = reader_rank (cq c) p" for p
    by (cases p) (simp_all add: jp_queue_pop_commit_def)
  ultimately show ?case using w_commit_store by (auto simp: shutdown_bound_def)
next
  case (w_commit_signal c)
  then show ?case by (auto simp: shutdown_bound_def)
qed (auto simp: shutdown_bound_def pop_must_wait_def)

lemma down_final:
  "final_step t c c' \<Longrightarrow> \<not> q_active (cq c) \<Longrightarrow>
   shutdown_bound c' < shutdown_bound c \<and> \<not> q_active (cq c')"
proof (induction rule: final_step.induct)
  case (f_store c)
  have "reader_rank ((cq c)\<lparr>q_active := False\<rparr>) p = reader_rank (cq c) p" for p
    by (cases p) simp_all
  with f_store show ?case by (cases t) (auto simp: shutdown_bound_def)
qed (cases t; auto simp: shutdown_bound_def)+

lemma down_env:
  "env_step c c' \<Longrightarrow> \<not> q_active (cq c) \<Longrightarrow> shutdown_bound c' < shutdown_bound c \<and> \<not> q_active (cq c')"
  by (induction rule: env_step.induct) (auto simp: shutdown_bound_def)

lemma down_step:
  assumes "conc_step c c'" "conc_inv c" "\<not> q_active (cq c)"
  shows "shutdown_bound c' < shutdown_bound c" "\<not> q_active (cq c')" "conc_inv c'"
  using assms conc_inv_step
  by (auto elim!: conc_step_induct dest: down_reader down_writer down_final down_env)

lemma down_steps:
  "(conc_step ^^ n) c c' \<Longrightarrow> conc_inv c \<Longrightarrow> \<not> q_active (cq c) \<Longrightarrow>
   conc_inv c' \<and> \<not> q_active (cq c') \<and> n + shutdown_bound c' \<le> shutdown_bound c"
proof (induction n arbitrary: c)
  case 0
  then show ?case by simp
next
  case (Suc n)
  obtain d where d: "conc_step c d" "(conc_step ^^ n) d c'"
    using Suc.prems(1) by (metis relpowp_Suc_E2)
  from Suc.IH [OF d(2)] down_step [OF d(1) Suc.prems(2,3)] show ?case by auto
qed

text \<open>With the queue inactive nobody waits for it, and a call of the reader sends it to its end.\<close>

lemma down_halted:
  assumes "conc_inv c" "\<not> q_active (cq c)" "\<nexists>c'. forced_step c c'"
  shows "pcs c Reader = Done \<or> own_code Reader (pcs c Reader)" "pcs c Writer = Done \<or> own_code Writer (pcs c Writer)"
  using conc_halted [OF assms(1,3)] conc_inv_waits [OF assms(1)] assms(2)
  by (auto simp: push_must_wait_def pop_must_wait_def)

lemma down_reader_call:
  "reader_step c c' \<Longrightarrow> pcs c Reader = Ready \<Longrightarrow> \<not> q_active (cq c) \<Longrightarrow> pcs c' Reader = Fin_Start"
  by (induction rule: reader_step.induct) auto

text \<open>
  When the writer meets no error and no signal arrives, the queue is made inactive by the reader
  alone, after its last commit, and the writer ends only when it has drained the queue.
\<close>

fun drained :: "pc \<Rightarrow> bool \<Rightarrow> nat \<Rightarrow> bool" where
  "drained (Pop_Unlock (Inl e)) act n = (\<not> act \<and> n = 0)"
| "drained Fin_Start act n = (\<not> act \<and> n = 0)"
| "drained Done act n = (\<not> act \<and> n = 0)"
| "drained Fin_Lock act n = (\<not> act \<and> n = 0)"
| "drained Fin_Store act n = (\<not> act \<and> n = 0)"
| "drained Fin_Broadcast act n = (\<not> act \<and> n = 0)"
| "drained Fin_Unlock act n = (\<not> act \<and> n = 0)"
| "drained _ act n = True"

lemma drained_active: "drained p True n \<Longrightarrow> drained p a m"
  by (induction p True n rule: drained.induct) auto

definition quiet_inv :: "conc \<Rightarrow> bool" where
  "quiet_inv c \<longleftrightarrow>
     \<not> failed c \<and> \<not> signalled c \<longrightarrow>
       pcs c Watcher = Ready \<and> (q_active (cq c) \<or> ended_pc (pcs c Reader)) \<and>
       drained (pcs c Writer) (q_active (cq c)) (qlen (cq c))"

lemma quiet_reader: "reader_step c c' \<Longrightarrow> conc_inv c \<Longrightarrow> quiet_inv c \<Longrightarrow> quiet_inv c'"
proof (induction rule: reader_step.induct)
  case (r_fill c i bs q')
  have "q_active q' = q_active (cq c)" "q_length q' = q_length (cq c)"
    by (subst block_append_shape [OF r_fill.hyps(4)], simp)+
  with r_fill show ?case by (simp add: quiet_inv_def)
next
  case (r_return c r)
  then show ?case by (cases r) (auto simp: quiet_inv_def ended_pc_def)
next
  case (r_commit_store c)
  then show ?case by (auto simp: quiet_inv_def ended_pc_def elim: drained_active)
next
  case (r_commit_signal c)
  then show ?case
    by (auto simp: quiet_inv_def ended_pc_def)
qed (auto simp: quiet_inv_def ended_pc_def)

lemma quiet_writer: "writer_step c c' \<Longrightarrow> conc_inv c \<Longrightarrow> quiet_inv c \<Longrightarrow> quiet_inv c'"
proof (induction rule: writer_step.induct)
  case (w_go c)
  then show ?case
    by (auto simp: quiet_inv_def pop_after_wait_def pop_must_wait_def)
next
  case (w_return c r)
  then show ?case by (cases r) (auto simp: quiet_inv_def)
qed (auto simp: quiet_inv_def ended_pc_def)

lemma quiet_final: "final_step t c c' \<Longrightarrow> conc_inv c \<Longrightarrow> quiet_inv c \<Longrightarrow> quiet_inv c'"
  by (cases t; induction rule: final_step.induct)
    (auto simp: quiet_inv_def ended_pc_def elim: drained_active)

lemma quiet_env: "env_step c c' \<Longrightarrow> conc_inv c \<Longrightarrow> quiet_inv c \<Longrightarrow> quiet_inv c'"
  by (induction rule: env_step.induct) (auto simp: quiet_inv_def ended_pc_def)

lemma quiet_inv_reach:
  assumes "conc_reach q c" "queue_ok q" "queue_contents q = []" "q_active q"
  shows "quiet_inv c"
  using assms
proof (induction rule: conc_reach.induct)
  case reach_start
  then show ?case by (simp add: quiet_inv_def conc_start_def)
next
  case (reach_step c c')
  then have "conc_inv c" by (intro conc_inv_reach)
  with reach_step show ?case
    by (blast elim: conc_step_induct intro: quiet_reader quiet_writer quiet_final quiet_env)
qed

section \<open>Runs\<close>

text \<open>Whole calls as runs of steps, for executions that are given explicitly.\<close>

lemma reach_thread:
  "conc_reach q c \<Longrightarrow> reader_step c c' \<Longrightarrow> conc_reach q c'"
  "conc_reach q c \<Longrightarrow> writer_step c c' \<Longrightarrow> conc_reach q c'"
  "conc_reach q c \<Longrightarrow> final_step t c c' \<Longrightarrow> conc_reach q c'"
  "conc_reach q c \<Longrightarrow> env_step c c' \<Longrightarrow> conc_reach q c'"
  by (erule reach_step, auto simp: conc_step_defs)+

lemma run_finalize:
  assumes "conc_reach q c" "pcs c t = Fin_Start" "owner c = None" "q_active (cq c)"
  shows "conc_reach q (goto t Done
    (c\<lparr>cq := (cq c)\<lparr>q_active := False\<rparr>, pcs := wake_not_full (wake_not_empty (pcs c))\<rparr>))"
proof -
  let ?lock = "goto t Fin_Lock c"
  let ?store = "goto t Fin_Store (c\<lparr>owner := Some t\<rparr>)"
  let ?bcast = "goto t Fin_Broadcast (c\<lparr>owner := Some t, cq := (cq c)\<lparr>q_active := False\<rparr>\<rparr>)"
  have lock: "conc_reach q ?lock" using reach_thread(3) [OF assms(1) f_start] assms by (cases c) simp
  have store: "conc_reach q ?store"
    using reach_thread(3) [OF lock, of t ?store] f_lock [of ?lock t] assms by (cases c) simp
  have bcast: "conc_reach q ?bcast"
    using reach_thread(3) [OF store, of t ?bcast] f_store [of ?store t] by (cases c) simp
  let ?ps = "wake_not_full (wake_not_empty (pcs ?bcast))"
  have "conc_reach q (goto t Fin_Unlock (?bcast\<lparr>pcs := ?ps\<rparr>))"
    by (rule reach_thread(3) [OF bcast f_broadcast]) simp
  from reach_thread(3) [OF this f_unlock [of _ t]] have "conc_reach q (goto t Done (?bcast\<lparr>pcs := ?ps, owner := None\<rparr>))"
    by (cases c) simp
  moreover have "?ps(t := Done) = (wake_not_full (wake_not_empty (pcs c)))(t := Done)"
    using assms(2) by (cases t) (auto simp: fun_eq_iff wake_defs)
  ultimately show ?thesis using assms(3) by (cases c) simp
qed

lemma run_push:
  assumes "conc_reach q c" "pcs c Reader = Ready" "q_active (cq c)" "qlen (cq c) < qcap (cq c)"
    and "block_append (q_tail (cq c)) bs (block_reset (q_tail (cq c)) (cq c)) = Some q'"
    and "unat (q_tail (cq c)) < length (q_blocks (cq c))" "bs \<noteq> []" "length bs \<le> qchunk (cq c)"
  shows "conc_reach q (goto Reader (Push_Own (q_tail (cq c))) (c\<lparr>cq := q'\<rparr>))"
proof -
  let ?i = "q_tail (cq c)"
  let ?own = "goto Reader (Push_Own ?i) (c\<lparr>cq := block_reset ?i (cq c)\<rparr>)"
  have "conc_reach q (goto Reader Push_Length c)" using reach_thread(1) [OF assms(1) r_call] assms by (cases c) simp
  from reach_thread(1) [OF this r_length] have "conc_reach q (goto Reader (Push_Reset ?i) c)"
    using assms(4) by (cases c) (simp add: len_less)
  from reach_thread(1) [OF this r_reset] have own: "conc_reach q ?own" by (cases c) simp
  have "reader_step ?own (?own\<lparr>cq := q'\<rparr>)"
    using assms(5-8) by (intro r_fill [of _ ?i bs]) (simp_all add: block_reset_def)
  from reach_thread(1) [OF own this] show ?thesis by (cases c) simp
qed

lemma run_push_commit:
  assumes "conc_reach q c" "pcs c Reader = Push_Own i" "owner c = None"
  shows "conc_reach q (goto Reader Ready
    (c\<lparr>cq := jp_queue_push_commit (cq c), sent := sent c @ [block_bytes (q_tail (cq c)) (cq c)],
       pcs := wake_not_empty (pcs c)\<rparr>))"
proof -
  let ?sig = "goto Reader Push_Commit_Signal (c\<lparr>cq := jp_queue_push_commit (cq c),
     sent := sent c @ [block_bytes (q_tail (cq c)) (cq c)], owner := Some Reader\<rparr>)"
  have "conc_reach q (goto Reader Push_Commit_Lock c)" using reach_thread(1) [OF assms(1) r_commit] assms by (cases c) simp
  from reach_thread(1) [OF this r_commit_lock] have "conc_reach q (goto Reader Push_Commit_Store (c\<lparr>owner := Some Reader\<rparr>))"
    using assms(3) by (cases c) simp
  from reach_thread(1) [OF this r_commit_store] have sig: "conc_reach q ?sig" by (cases c) simp
  let ?ps = "wake_not_empty (pcs ?sig)"
  have "conc_reach q (goto Reader Push_Commit_Unlock (?sig\<lparr>pcs := ?ps\<rparr>))"
    by (rule reach_thread(1) [OF sig r_commit_signal]) simp
  from reach_thread(1) [OF this r_commit_unlock]
  have "conc_reach q (goto Reader Ready (?sig\<lparr>pcs := ?ps, owner := None\<rparr>))" by (cases c) simp
  moreover have "?ps(Reader := Ready) = (wake_not_empty (pcs c))(Reader := Ready)"
    by (auto simp: fun_eq_iff wake_defs)
  ultimately show ?thesis using assms(3) by (cases c) simp
qed

lemma run_writer_ends:
  assumes "conc_reach q c" "pcs c Writer = Ready" "owner c = None" "\<not> q_active (cq c)" "q_length (cq c) = 0"
  shows "conc_reach q (goto Writer Done c)"
proof -
  have "conc_reach q (goto Writer Pop_Lock c)" using reach_thread(2) [OF assms(1) w_call] assms by (cases c) simp
  from reach_thread(2) [OF this w_lock] have "conc_reach q (goto Writer Pop_Test (c\<lparr>owner := Some Writer\<rparr>))"
    using assms(3) by (cases c) simp
  from reach_thread(2) [OF this w_go]
  have "conc_reach q (goto Writer (Pop_Unlock (Inl JP_ESHUTTING_DOWN)) (c\<lparr>owner := Some Writer\<rparr>))"
    using assms(4,5) by (cases c) (simp add: pop_must_wait_def pop_after_wait_def)
  from reach_thread(2) [OF this w_return] have "conc_reach q (goto Writer Fin_Start c)"
    using assms(3) by (cases c) simp
  from reach_thread(3) [OF this f_start [of _ Writer]] show ?thesis using assms(4) by (cases c) simp
qed

lemma run_reader_ends:
  assumes "conc_reach q c" "pcs c Reader = Ready" "\<not> q_active (cq c)"
  shows "conc_reach q (goto Reader Done c)"
proof -
  have "conc_reach q (goto Reader Fin_Start c)" using reach_thread(1) [OF assms(1) r_call] assms by (cases c) simp
  from reach_thread(3) [OF this f_start [of _ Reader]] show ?thesis using assms(3) by (cases c) simp
qed

lemma run_signal:
  assumes "conc_reach q c" "pcs c Watcher = Ready" "owner c = None" "q_active (cq c)"
  shows "conc_reach q (goto Watcher Done (c\<lparr>cq := (cq c)\<lparr>q_active := False\<rparr>, signalled := True,
     pcs := wake_not_full (wake_not_empty (pcs c))\<rparr>))"
proof -
  let ?c = "goto Watcher Fin_Start (c\<lparr>signalled := True\<rparr>)"
  have "conc_reach q ?c" using reach_thread(4) [OF assms(1) e_signal] assms(2) by (cases c) simp
  moreover have "(wake_not_full (wake_not_empty ((pcs c)(Watcher := Fin_Start))))(Watcher := Done) =
      (wake_not_full (wake_not_empty (pcs c)))(Watcher := Done)"
    by (auto simp: fun_eq_iff wake_defs)
  ultimately show ?thesis using run_finalize [of q ?c Watcher] assms(3,4) by (cases c) simp
qed

lemma run_one_block:
  assumes "queue_ok q" "queue_contents q = []" "q_active q" "0 < qchunk q"
  shows "\<exists>c. conc_reach q c \<and> pcs c = (\<lambda>_. Ready)(Reader := Push_Own (q_tail q)) \<and> owner c = None \<and>
           q_active (cq c) \<and> q_length (cq c) = 0 \<and> block_bytes (q_tail (cq c)) (cq c) = [b] \<and>
           sent c = [] \<and> got c = [] \<and> \<not> failed c"
proof -
  let ?q = "block_reset (q_tail q) q"
  have len: "q_length q = 0" using arg_cong [OF assms(2), of length] by (simp add: unat_eq_0)
  have cap: "0 < qcap q" "unat (q_tail q) < length (q_blocks q)"
    using assms(1) by (simp_all add: queue_ok_def blocks_ok_def)
  have r: "queue_ok ?q" "block_bytes (q_tail q) ?q = []"
    using block_reset_ok [of q] assms(1) len cap(1) by simp_all
  have "blk_length (q_blocks ?q ! unat (q_tail ?q)) = 0" using cap(2) by (simp add: block_reset_def)
  then obtain q1 where q1: "block_append (q_tail q) [b] ?q = Some q1" "block_bytes (q_tail q) q1 = [b]"
    "q1 = ?q\<lparr>q_area := q_area q1, q_blocks := q_blocks q1\<rparr>"
    using block_append_ok [OF r(1), of "[b]"] r(2) len cap assms(4) by auto
  have same: "q_tail q1 = q_tail q" "q_length q1 = q_length q" "q_active q1 = q_active q"
    by (subst q1(3), simp)+
  have "conc_reach q (goto Reader (Push_Own (q_tail (cq (conc_start q)))) ((conc_start q)\<lparr>cq := q1\<rparr>))"
    by (rule run_push [OF reach_start, where bs = "[b]"]) (use assms len cap q1 in \<open>simp_all add: conc_start_def\<close>)
  with q1(2) len assms(3) same show ?thesis
    by (intro exI [of _ "goto Reader (Push_Own (q_tail q)) ((conc_start q)\<lparr>cq := q1\<rparr>)"])
      (simp add: conc_start_def)
qed

lemma small_queue:
  "\<exists>q. queue_ok q \<and> queue_contents q = [] \<and> q_active q \<and> q_capacity q = 2 \<and> q_chunk_size q = 1024 \<and>
       q_policy q = policy"
  using jp_queue_create_eq [of 640 2 16 1024 "\<lambda>_. []" 0 0 0 policy] by auto

section \<open>Properties\<close>

text \<open>
  C16: Mutual exclusion and freedom from races on blocks, in every interleaving: at most one thread is
  inside a critical section, and it is the owner of the mutex; and when the reader has a block to
  fill while the writer has a block to read, these are different blocks, whose parts of the area
  do not overlap.
\<close>

theorem queue_mutual_exclusion:
  assumes "conc_reach q c" "queue_ok q" "queue_contents q = []"
  shows "(holds_lock (pcs c t) \<and> holds_lock (pcs c u) \<longrightarrow> t = u) \<and>
         (holds_lock (pcs c t) \<longrightarrow> owner c = Some t) \<and>
         ((pcs c Reader = Push_Reset i \<or> pcs c Reader = Push_Own i) \<and> pcs c Writer = Pop_Own j \<longrightarrow>
            i \<noteq> j \<and>
            (blk_data (q_blocks (cq c) ! unat i) + qchunk (cq c) \<le> blk_data (q_blocks (cq c) ! unat j) \<or>
             blk_data (q_blocks (cq c) ! unat j) + qchunk (cq c) \<le> blk_data (q_blocks (cq c) ! unat i)))"
proof -
  have inv: "lock_inv c" "data_inv c" using conc_inv_reach [OF assms] by (simp_all add: conc_inv_def)
  have "i \<noteq> j \<and> (blk_data (q_blocks (cq c) ! unat i) + qchunk (cq c) \<le> blk_data (q_blocks (cq c) ! unat j) \<or>
      blk_data (q_blocks (cq c) ! unat j) + qchunk (cq c) \<le> blk_data (q_blocks (cq c) ! unat i))"
    if "pcs c Reader = Push_Reset i \<or> pcs c Reader = Push_Own i" "pcs c Writer = Pop_Own j"
  proof -
    have ok: "queue_ok (cq c)" and i: "i = q_tail (cq c)" "qlen (cq c) < qcap (cq c)"
      and j: "j = q_head (cq c)" "0 < qlen (cq c)"
      using inv(2) that by (auto simp: data_inv_def)
    have ne: "i \<noteq> j" using slot_not_tail [OF ok i(2) j(2)] queue_slot_head [OF ok] i(1) j(1) by simp
    then have "unat i \<noteq> unat j" by (simp add: word_unat_eq_iff)
    with ne area_index [of "unat i" "unat j" "qchunk (cq c)" "qchunk (cq c)" "qchunk (cq c)"] ok i j show ?thesis
      by (auto simp: queue_ok_def blocks_ok_def)
  qed
  with inv(1) lock_inv_only lock_inv_owner show ?thesis by blast
qed

theorem queue_mutual_exclusion_witness:
  "\<exists>q c. conc_reach q c \<and> queue_ok q \<and> pcs c Watcher = Done \<and> owner c = None \<and>
     (\<forall>t. \<not> holds_lock (pcs c t))"
proof -
  obtain q where q: "queue_ok q" "queue_contents q = []" "q_active q" using small_queue by blast
  from run_signal [OF reach_start] q(3) obtain c where c: "conc_reach q c" "pcs c Watcher = Done" "owner c = None"
    by (fastforce simp: conc_start_def)
  with queue_mutual_exclusion [OF c(1) q(1,2)] q(1) show ?thesis by fastforce
qed

text \<open>
  C3: First in, first out, under every interleaving of the reader, the writer and the watcher: what
  the writer has read is at each moment an initial part of what the reader has committed, block for
  block and byte for byte, nothing lost, repeated or reordered in between, and the writer is never
  more than the capacity behind.
\<close>

theorem queue_fifo_concurrent:
  assumes "conc_reach q c" "queue_ok q" "queue_contents q = []"
  shows "\<exists>rest. sent c = got c @ rest \<and> length rest \<le> qcap (cq c)"
  using data_inv_fifo conc_inv_reach [OF assms] by (simp add: conc_inv_def)

theorem queue_fifo_concurrent_witness:
  "\<exists>q c rest. conc_reach q c \<and> sent c = [[7]] \<and> sent c = got c @ rest \<and> length rest \<le> qcap (cq c)"
proof -
  obtain q where q: "queue_ok q" "queue_contents q = []" "q_active q" "q_capacity q = 2" "q_chunk_size q = 1024"
    using small_queue by blast
  obtain d where d: "conc_reach q d" "pcs d Reader = Push_Own (q_tail q)" "owner d = None"
    "block_bytes (q_tail (cq d)) (cq d) = [7]" "sent d = []"
    using run_one_block [OF q(1-3), of 7] q(5) by auto
  obtain c where c: "conc_reach q c" "sent c = [[7]]"
    using run_push_commit [OF d(1-3)] d(4,5) by fastforce
  with queue_fifo_concurrent [OF c(1) q(1,2)] show ?thesis by blast
qed

text \<open>
  C6: No wakeup is lost. In every reachable state in which the mutex is free, a reader that waits on
  \<open>not_full\<close> waits because the queue is full, active and under the wait policy, and a writer that
  waits on \<open>not_empty\<close> because the queue is empty and active: a commit or a finalisation that ends
  the reason to wait has woken the waiting thread before it released the mutex.
\<close>

theorem queue_no_lost_wakeup:
  assumes "conc_reach q c" "queue_ok q" "queue_contents q = []" "owner c = None"
  shows "(pcs c Reader = Push_Waiting \<longrightarrow> push_must_wait (cq c)) \<and>
         (pcs c Writer = Pop_Waiting \<longrightarrow> pop_must_wait (cq c))"
  by (rule conc_inv_waits [OF conc_inv_reach [OF assms(1-3)] assms(4)])

theorem queue_no_lost_wakeup_witness:
  "\<exists>q c. conc_reach q c \<and> owner c = None \<and> pcs c Writer = Pop_Waiting \<and> pop_must_wait (cq c)"
proof -
  obtain q where q: "queue_ok q" "queue_contents q = []" "q_active q" using small_queue by blast
  have len: "q_length q = 0" using arg_cong [OF q(2), of length] by (simp add: unat_eq_0)
  have "conc_reach q (goto Writer Pop_Lock (conc_start q))"
    using reach_thread(2) [OF reach_start [of q] w_call] len by (simp add: conc_start_def)
  from reach_thread(2) [OF this w_lock]
  have "conc_reach q (goto Writer Pop_Test ((conc_start q)\<lparr>owner := Some Writer\<rparr>))"
    by (simp add: conc_start_def)
  from reach_thread(2) [OF this w_wait]
  have c: "conc_reach q (goto Writer Pop_Waiting (conc_start q))"
    using len q(3) by (simp add: conc_start_def pop_must_wait_def)
  from queue_no_lost_wakeup [OF c q(1,2)] c show ?thesis
    by (intro exI [of _ q] exI [of _ "goto Writer Pop_Waiting (conc_start q)"]) (simp add: conc_start_def)
qed

text \<open>
  No deadlock. In every reachable state in which the reader or the writer has not ended, some
  thread can take a step of its own, without a spurious wakeup and without a signal to the watcher; a thread in
  its own code can always go on, when the input or the output answers.
\<close>

theorem queue_deadlock_free:
  assumes "conc_reach q c" "queue_ok q" "queue_contents q = []"
    and "pcs c Reader \<noteq> Done \<or> pcs c Writer \<noteq> Done"
  shows "\<exists>c'. thread_step c c'"
  using conc_progress [OF conc_inv_reach [OF assms(1-3)] assms(4)] .

theorem queue_deadlock_free_witness:
  "\<exists>q c'. conc_reach q (conc_start q) \<and> thread_step (conc_start q) c'"
proof -
  obtain q where q: "queue_ok q" "queue_contents q = []" using small_queue by blast
  have "pcs (conc_start q) Reader \<noteq> Done" by (simp add: conc_start_def)
  with queue_deadlock_free [OF reach_start q] reach_start show ?thesis by blast
qed

text \<open>
  C12: Shutting down terminates, as far as the queue is concerned. Once the queue is inactive, no execution of the threads
  and of the environment has more steps than \<open>shutdown_bound\<close>, whatever the schedule. When none of the steps that are
  sure to be taken is left, the writer has ended or is writing a block to the output, and the reader has ended or is in
  its own code: it waits for the input, with or without a block. So no thread is left in a call of the queue, and it is
  the input, not the queue, that may keep the reader for ever (\<open>reader_ignores_shutdown_while_idle\<close>). The next time the
  reader asks for a block, it goes to its end; and when the input and the output always answer, an execution can only
  halt with both threads ended.
\<close>

theorem queue_shutdown_terminates:
  assumes "conc_reach q c" "queue_ok q" "queue_contents q = []" "\<not> q_active (cq c)"
    and "(conc_step ^^ n) c c'"
  shows "n \<le> shutdown_bound c \<and>
         ((\<nexists>c''. forced_step c' c'') \<longrightarrow>
            (pcs c' Reader = Done \<or> pcs c' Reader = Ready \<or> (\<exists>i. pcs c' Reader = Push_Own i)) \<and>
            (pcs c' Writer = Done \<or> (\<exists>i. pcs c' Writer = Pop_Own i))) \<and>
         (\<forall>c''. pcs c' Reader = Ready \<and> reader_step c' c'' \<longrightarrow> pcs c'' Reader = Fin_Start) \<and>
         ((\<nexists>c''. thread_step c' c'') \<longrightarrow> pcs c' Reader = Done \<and> pcs c' Writer = Done)"
proof -
  have inv: "conc_inv c" using conc_inv_reach [OF assms(1-3)] .
  have down: "conc_inv c'" "\<not> q_active (cq c')" "n + shutdown_bound c' \<le> shutdown_bound c"
    using down_steps [OF assms(5) inv assms(4)] by auto
  note halted = down_halted [OF down(1,2)]
  from down(3) halted down_reader_call [OF _ _ down(2)] conc_progress [OF down(1)] show ?thesis
    by (auto simp: own_code_def)
qed

text \<open>The idle pipe: after the signal the writer ends in five steps, and the reader stays in its own code.\<close>

lemma idle_shutdown:
  assumes "pcs c = (\<lambda>_. Ready)(Watcher := Done)" "owner c = None" "\<not> q_active (cq c)" "q_length (cq c) = 0"
  shows "(conc_step ^^ 5) c (goto Writer Done c)" "\<nexists>d. forced_step (goto Writer Done c) d"
proof -
  let ?test = "goto Writer Pop_Test (c\<lparr>owner := Some Writer\<rparr>)"
  let ?unlock = "goto Writer (Pop_Unlock (Inl JP_ESHUTTING_DOWN)) (c\<lparr>owner := Some Writer\<rparr>)"
  have "writer_step c (goto Writer Pop_Lock c)" using w_call [of c] assms by simp
  moreover have "writer_step (goto Writer Pop_Lock c) ?test"
    using w_lock [of "goto Writer Pop_Lock c"] assms by (cases c) simp
  moreover have "writer_step ?test ?unlock"
    using w_go [of ?test] assms by (cases c) (simp add: pop_must_wait_def pop_after_wait_def)
  moreover have "writer_step ?unlock (goto Writer Fin_Start c)"
    using w_return [of ?unlock] assms by (cases c) simp
  moreover have "final_step Writer (goto Writer Fin_Start c) (goto Writer Done c)"
    using f_start [of "goto Writer Fin_Start c" Writer] assms by (cases c) simp
  ultimately show "(conc_step ^^ 5) c (goto Writer Done c)"
    by (simp add: eval_nat_numeral conc_step_defs relcompp_apply) blast
  have "\<not> final_step t (goto Writer Done c) d" for t d
    using assms(1) by (cases t) (auto elim: final_step.cases)
  then show "\<nexists>d. forced_step (goto Writer Done c) d"
    using assms(1) by (auto simp: forced_step_def own_code_def elim: writer_step.cases)
qed

theorem queue_shutdown_terminates_witness:
  "\<exists>q c c'. conc_reach q c \<and> \<not> q_active (cq c) \<and> (conc_step ^^ 5) c c' \<and> 5 \<le> shutdown_bound c \<and>
     (\<nexists>c''. forced_step c' c'') \<and> pcs c' Reader = Ready \<and> pcs c' Writer = Done \<and>
     (\<forall>c''. reader_step c' c'' \<longrightarrow> pcs c'' Reader = Fin_Start)"
proof -
  obtain q where q: "queue_ok q" "queue_contents q = []" "q_active q" using small_queue by blast
  have len: "q_length q = 0" using arg_cong [OF q(2), of length] by (simp add: unat_eq_0)
  have "wake_not_full (wake_not_empty (\<lambda>_. Ready)) = (\<lambda>_. Ready)" by (simp add: wake_defs)
  with run_signal [OF reach_start] q(3) len obtain c where c: "conc_reach q c" "\<not> q_active (cq c)"
    "pcs c = (\<lambda>_. Ready)(Watcher := Done)" "owner c = None" "q_length (cq c) = 0"
    by (fastforce simp: conc_start_def)
  note idle = idle_shutdown [OF c(3,4,2,5)]
  from queue_shutdown_terminates [OF c(1) q(1,2) c(2) idle(1)] c idle show ?thesis
    by (intro exI [of _ q] exI [of _ c] exI [of _ "goto Writer Done c"]) simp
qed

lemma quiet_end:
  assumes "conc_inv c" "quiet_inv c" "pcs c Writer = Done" "\<not> failed c" "\<not> signalled c"
  shows "got c = sent c"
proof -
  have "qlen (cq c) = 0" using assms(2-5) by (simp add: quiet_inv_def)
  then have "queue_contents (cq c) = []" by (simp flip: length_queue_contents)
  then show ?thesis using assms(1,3) by (simp add: conc_inv_def data_inv_def reading_def)
qed

lemma quiet_end_delivers:
  assumes "conc_reach q c" "queue_ok q" "queue_contents q = []" "q_active q"
    and "pcs c Reader = Done" "pcs c Writer = Done" "\<not> failed c" "\<not> signalled c"
  shows "got c = sent c"
  by (rule quiet_end [OF conc_inv_reach [OF assms(1-3)] quiet_inv_reach [OF assms(1-4)] assms(6-8)])

text \<open>
  When the input ends, everything arrives. In an execution with no signal to the watcher and no
  write error, once the reader and the writer have ended, the writer has read exactly the blocks that
  the reader committed.
\<close>

theorem queue_delivers_all_at_end_of_input:
  assumes "conc_reach q c" "queue_ok q" "queue_contents q = []" "q_active q"
    and "pcs c Reader = Done" "pcs c Writer = Done" "\<not> failed c" "\<not> signalled c"
  shows "got c = sent c"
  by (rule quiet_end_delivers [OF assms])

theorem queue_delivers_all_at_end_of_input_witness:
  "\<exists>q c. conc_reach q c \<and> pcs c Reader = Done \<and> pcs c Writer = Done \<and> \<not> failed c \<and> \<not> signalled c \<and>
     got c = sent c"
proof -
  obtain q where q: "queue_ok q" "queue_contents q = []" "q_active q" using small_queue by blast
  have len: "q_length q = 0" using arg_cong [OF q(2), of length] by (simp add: unat_eq_0)
  let ?c = "goto Reader Fin_Start (conc_start q)"
  have "conc_reach q ?c" using reach_thread(1) [OF reach_start r_end] by (simp add: conc_start_def)
  from run_finalize [OF this, of Reader]
  have "conc_reach q ((conc_start q)\<lparr>cq := q\<lparr>q_active := False\<rparr>, pcs := (\<lambda>_. Ready)(Reader := Done)\<rparr>)"
    using q(3) by (simp add: conc_start_def wake_defs)
  from run_writer_ends [OF this] len
  obtain c where c: "conc_reach q c" "pcs c Reader = Done" "pcs c Writer = Done" "\<not> failed c" "\<not> signalled c"
    by (fastforce simp: conc_start_def)
  with queue_delivers_all_at_end_of_input [OF c(1) q] show ?thesis by blast
qed

text \<open>
  C39: When a signal finalises the queue, a block can be lost. From every new queue there is an
  execution without a write error in which the reader is filling a block when the signal arrives,
  the writer finds the queue empty and inactive and ends, and the reader then commits the block,
  successfully: both have ended, the block is committed, and nobody has read it.
\<close>

theorem queue_loses_block_at_signal:
  assumes "queue_ok q" "queue_contents q = []" "q_active q" "0 < qchunk q"
  shows "\<exists>c. conc_reach q c \<and> pcs c Reader = Done \<and> pcs c Writer = Done \<and> \<not> failed c \<and>
             sent c = [[b]] \<and> got c = []"
proof -
  obtain c where c: "conc_reach q c" "pcs c = (\<lambda>_. Ready)(Reader := Push_Own (q_tail q))" "owner c = None"
    "q_active (cq c)" "q_length (cq c) = 0" "block_bytes (q_tail (cq c)) (cq c) = [b]" "sent c = []" "got c = []"
    "\<not> failed c"
    using run_one_block [OF assms] by blast
  let ?ps = "(pcs c)(Watcher := Done)"
  have "wake_not_full (wake_not_empty (pcs c)) = pcs c" by (simp add: c(2) wake_defs)
  with run_signal [OF c(1)] c(2-4)
  have "conc_reach q (c\<lparr>cq := (cq c)\<lparr>q_active := False\<rparr>, signalled := True, pcs := ?ps\<rparr>)" by simp
  from run_writer_ends [OF this] c(2,3,5)
  have "conc_reach q (c\<lparr>cq := (cq c)\<lparr>q_active := False\<rparr>, signalled := True, pcs := ?ps(Writer := Done)\<rparr>)"
    by simp
  from run_push_commit [OF this] c(2,3,6,7)
  obtain d where d: "conc_reach q d" "pcs d Reader = Ready" "pcs d Writer = Done" "\<not> q_active (cq d)"
    "sent d = [[b]]" "got d = []" "\<not> failed d"
    using c(8,9) by (fastforce simp: block_bytes_def wake_defs)
  from run_reader_ends [OF d(1,2,4)] d(3,5-7) show ?thesis
    by (intro exI [of _ "goto Reader Done d"]) simp
qed

theorem queue_loses_block_at_signal_witness:
  "\<exists>q c. queue_ok q \<and> conc_reach q c \<and> pcs c Reader = Done \<and> pcs c Writer = Done \<and> \<not> failed c \<and>
     sent c = [[7]] \<and> got c = []"
proof -
  obtain q where q: "queue_ok q" "queue_contents q = []" "q_active q" "q_chunk_size q = 1024"
    using small_queue by blast
  with queue_loses_block_at_signal [OF q(1-3), of 7] show ?thesis by auto
qed

end
