(* ===== verification/JP_Queue_Runs.thy ===== *)
theory JP_Queue_Runs
  imports JP_Queue_Conc
begin

text \<open>
  Executions of the concurrent queue that carry a given sequence of blocks from the reader to the
  writer: the safety results of \<open>JP_Queue_Conc\<close> are not empty for any input.
\<close>

section \<open>Every sequence of blocks can pass\<close>

lemma run_pop:
  assumes "conc_reach q c" "pcs c Writer = Ready" "owner c = None" "0 < q_length (cq c)"
  shows "conc_reach q (goto Writer Ready
    (c\<lparr>got := got c @ [block_bytes (q_head (cq c)) (cq c)], cq := jp_queue_pop_commit (cq c), pcs := wake_not_full (pcs c)\<rparr>))"
proof -
  let ?got = "got c @ [block_bytes (q_head (cq c)) (cq c)]"
  let ?sig = "goto Writer Pop_Commit_Signal (c\<lparr>got := ?got, cq := jp_queue_pop_commit (cq c), owner := Some Writer\<rparr>)"
  have "conc_reach q (goto Writer (Pop_Own (q_head (cq c))) c)"
    using reach_thread(2) [OF assms(1) w_call] assms by (cases c) simp
  from reach_thread(2) [OF this w_read] have "conc_reach q (goto Writer Pop_Commit_Lock (c\<lparr>got := ?got\<rparr>))" by (cases c) simp
  from reach_thread(2) [OF this w_commit_lock]
  have "conc_reach q (goto Writer Pop_Commit_Store (c\<lparr>got := ?got, owner := Some Writer\<rparr>))"
    using assms(3) by (cases c) simp
  from reach_thread(2) [OF this w_commit_store] have sig: "conc_reach q ?sig" by (cases c) simp
  let ?ps = "wake_not_full (pcs ?sig)"
  have "conc_reach q (goto Writer Pop_Commit_Unlock (?sig\<lparr>pcs := ?ps\<rparr>))"
    by (rule reach_thread(2) [OF sig w_commit_signal]) simp
  from reach_thread(2) [OF this w_commit_unlock]
  have "conc_reach q (goto Writer Ready (?sig\<lparr>pcs := ?ps, owner := None\<rparr>))" by (cases c) simp
  moreover have "?ps(Writer := Ready) = (wake_not_full (pcs c))(Writer := Ready)"
    by (auto simp: fun_eq_iff wake_defs)
  ultimately show ?thesis using assms(3) by (cases c) simp
qed

text \<open>Between two blocks: nobody is inside the queue, and it is empty.\<close>

definition idle :: "nat \<Rightarrow> byte list list \<Rightarrow> conc \<Rightarrow> bool" where
  "idle n bs c \<longleftrightarrow> pcs c = (\<lambda>_. Ready) \<and> owner c = None \<and> queue_ok (cq c) \<and> queue_contents (cq c) = [] \<and>
     q_active (cq c) \<and> qchunk (cq c) = n \<and> sent c = bs \<and> got c = bs \<and> \<not> failed c \<and> \<not> signalled c"

lemma idle_length: "idle n bs c \<Longrightarrow> q_length (cq c) = 0"
  by (simp add: idle_def flip: unat_eq_0 length_queue_contents)

lemma wake_ready:
  "(wake_not_empty ((\<lambda>_. Ready)(Reader := p)))(Reader := Ready) = (\<lambda>_. Ready)"
  "(wake_not_full (\<lambda>_. Ready))(Writer := Ready) = (\<lambda>_. Ready)"
  by (auto simp: fun_eq_iff wake_defs)

lemma fill_block:
  assumes "queue_ok q" "qlen q < qcap q" "length b \<le> qchunk q"
  obtains q' where "block_append (q_tail q) b (block_reset (q_tail q) q) = Some q'" "queue_ok q'"
    "queue_contents q' = queue_contents q" "block_bytes (q_tail q) q' = b"
    "q' = q\<lparr>q_area := q_area q', q_blocks := q_blocks q'\<rparr>"
proof -
  let ?q = "block_reset (q_tail q) q"
  have t: "unat (q_tail q) < length (q_blocks q)" using assms(1) by (simp add: queue_ok_def blocks_ok_def)
  have r: "queue_ok ?q" "qlen ?q < qcap ?q" "blk_length (q_blocks ?q ! unat (q_tail ?q)) + length b \<le> qchunk ?q"
    using block_reset_ok(1) [OF assms(1,2)] assms(2,3) t by (simp_all add: block_reset_def)
  obtain q' where "block_append (q_tail ?q) b ?q = Some q'" "queue_ok q'" "queue_contents q' = queue_contents ?q"
    "block_bytes (q_tail ?q) q' = block_bytes (q_tail ?q) ?q @ b" "q' = ?q\<lparr>q_area := q_area q', q_blocks := q_blocks q'\<rparr>"
    by (rule block_append_ok [OF r]) blast
  moreover from this(5) have "q' = q\<lparr>q_area := q_area q', q_blocks := q_blocks q'\<rparr>"
    by (simp add: block_reset_def)
  ultimately show thesis using that [of q'] block_reset_ok(2,3) [OF assms(1,2)] by simp
qed

lemma run_block:
  assumes "conc_reach q c" "idle n bs c" "b \<noteq> []" "length b \<le> n"
  shows "\<exists>c'. conc_reach q c' \<and> idle n (bs @ [b]) c'"
proof -
  have ok: "queue_ok (cq c)" and len: "qlen (cq c) = 0" and ready: "pcs c = (\<lambda>_. Ready)"
    using assms(2) idle_length [OF assms(2)] by (simp_all add: idle_def)
  have room: "qlen (cq c) < qcap (cq c)" using ok len by (simp add: queue_ok_def)
  obtain q1 where q1: "block_append (q_tail (cq c)) b (block_reset (q_tail (cq c)) (cq c)) = Some q1" "queue_ok q1"
    "queue_contents q1 = []" "block_bytes (q_tail (cq c)) q1 = b" "q1 = (cq c)\<lparr>q_area := q_area q1, q_blocks := q_blocks q1\<rparr>"
    using fill_block [OF ok room, of b] assms(2,4) by (auto simp: idle_def)
  have same: "q_tail q1 = q_tail (cq c)" "qlen q1 = 0" "qcap q1 = qcap (cq c)" "qchunk q1 = n" "q_active q1"
    using assms(2) len by (subst q1(5), simp add: idle_def)+
  let ?i = "q_tail (cq c)"
  let ?c1 = "goto Reader (Push_Own ?i) (c\<lparr>cq := q1\<rparr>)"
  let ?c2 = "c\<lparr>cq := jp_queue_push_commit q1, sent := bs @ [b]\<rparr>"
  let ?c3 = "c\<lparr>cq := jp_queue_pop_commit (jp_queue_push_commit q1), sent := bs @ [b], got := bs @ [b]\<rparr>"
  have "unat ?i < length (q_blocks (cq c))" using ok by (simp add: queue_ok_def blocks_ok_def)
  then have "conc_reach q ?c1"
    using run_push [OF assms(1) _ _ room q1(1)] assms(2-4) by (simp add: idle_def)
  from run_push_commit [OF this, of ?i] have c2: "conc_reach q ?c2"
    using assms(2) same q1(4) by (cases c) (simp add: idle_def wake_ready)
  have "qlen q1 < qcap q1" using room same len by simp
  note push = push_commit_ok [OF q1(2) this]
  have some: "0 < q_length (cq ?c2)" using push(3) by (simp add: word_less_nat_alt)
  have "conc_reach q ?c3"
    using run_pop [OF c2] some assms(2) head_is_first [of "jp_queue_push_commit q1"] push q1(3,4) same(1)
    by (cases c) (simp add: idle_def wake_ready)
  moreover have "idle n (bs @ [b]) ?c3"
    using pop_commit_ok [OF push(1)] push q1(3,4) same assms(2)
    by (simp add: idle_def jp_queue_pop_commit_def jp_queue_push_commit_def)
  ultimately show ?thesis by blast
qed

lemma run_blocks:
  "conc_reach q c \<Longrightarrow> idle n done c \<Longrightarrow> list_all (\<lambda>b. b \<noteq> [] \<and> length b \<le> n) bs \<Longrightarrow>
   \<exists>c'. conc_reach q c' \<and> idle n (done @ bs) c'"
proof (induction bs arbitrary: c "done")
  case Nil
  then show ?case by auto
next
  case (Cons b bs)
  then obtain c1 where "conc_reach q c1" "idle n (done @ [b]) c1" using run_block [of q c n "done" b] by auto
  from Cons.IH [OF this] Cons.prems(3) show ?case by simp
qed

lemma run_end:
  assumes "conc_reach q c" "idle n bs c"
  shows "\<exists>c'. conc_reach q c' \<and> pcs c' Reader = Done \<and> pcs c' Writer = Done \<and> \<not> failed c' \<and> \<not> signalled c' \<and>
     sent c' = bs \<and> got c' = bs"
proof -
  have len: "q_length (cq c) = 0" using idle_length [OF assms(2)] .
  have "conc_reach q (goto Reader Fin_Start c)"
    using reach_thread(1) [OF assms(1) r_end] assms(2) by (cases c) (simp add: idle_def)
  from run_finalize [OF this, of Reader]
  have "conc_reach q (c\<lparr>cq := (cq c)\<lparr>q_active := False\<rparr>, pcs := (\<lambda>_. Ready)(Reader := Done)\<rparr>)"
    using assms(2) by (cases c) (simp add: idle_def wake_defs)
  from run_writer_ends [OF this] show ?thesis
    using assms(2) len
    by (intro exI [of _ "c\<lparr>cq := (cq c)\<lparr>q_active := False\<rparr>, pcs := ((\<lambda>_. Ready)(Reader := Done))(Writer := Done)\<rparr>"])
      (cases c, simp add: idle_def)
qed

lemma run_all_blocks:
  assumes "queue_ok q" "queue_contents q = []" "q_active q" "list_all (\<lambda>b. b \<noteq> [] \<and> length b \<le> qchunk q) bs"
  shows "\<exists>c. conc_reach q c \<and> pcs c Reader = Done \<and> pcs c Writer = Done \<and> \<not> failed c \<and> \<not> signalled c \<and>
     sent c = bs \<and> got c = bs"
proof -
  have "idle (qchunk q) [] (conc_start q)" using assms(1-3) by (simp add: idle_def conc_start_def)
  from run_blocks [OF reach_start this assms(4)] run_end show ?thesis by fastforce
qed

text \<open>
  Whatever fits passes. For every sequence of blocks that are not empty and no larger than the chunk
  size there is an execution, without a signal and without a write error, in which the reader commits
  exactly these blocks, the writer reads exactly these blocks, and both threads end.
\<close>

theorem queue_can_deliver:
  assumes "queue_ok q" "queue_contents q = []" "q_active q" "list_all (\<lambda>b. b \<noteq> [] \<and> length b \<le> qchunk q) bs"
  shows "\<exists>c. conc_reach q c \<and> pcs c Reader = Done \<and> pcs c Writer = Done \<and> \<not> failed c \<and> \<not> signalled c \<and>
     sent c = bs \<and> got c = bs"
  by (rule run_all_blocks [OF assms])

theorem queue_can_deliver_witness:
  "\<exists>q c. conc_reach q c \<and> pcs c Reader = Done \<and> pcs c Writer = Done \<and> got c = [[1, 2], [3], [4]]"
proof -
  obtain q where q: "queue_ok q" "queue_contents q = []" "q_active q" "q_chunk_size q = 1024"
    using small_queue by blast
  have "list_all (\<lambda>b. b \<noteq> [] \<and> length b \<le> qchunk q) [[1, 2], [3], [4]]" using q(4) by simp
  from queue_can_deliver [OF q(1-3) this] show ?thesis by blast
qed

end
