(* ===== verification/JP_Queue_Weak.thy ===== *)
theory JP_Queue_Weak
  imports JP_Queue_Runs
begin

text \<open>
  The queue under the memory orders that the code asks for. \<open>active\<close> and \<open>length\<close> are atomics that are loaded
  outside the lock with \<^verbatim>\<open>memory_order_acquire\<close> and changed with \<^verbatim>\<open>memory_order_release\<close>; such a load may find any
  value of the modification order that is not older than what the thread has already seen. Everything else is
  ordered by the mutex or not at all: the contents of the blocks are plain memory, and it has to be shown that they
  are never raced for.

  The model is operational. An atomic is the list of its messages, in modification order; a message carries the view
  that its release published. A view says how far a thread has seen each atomic, and how many commits of the reader
  and how many of the writer happened before what the thread does next. An acquire load of a message joins its
  view; a read-modify-write passes on the view of the message that it replaces, as a release sequence does; the mutex
  passes on the view of its last owner. The steps are those of \<open>JP_Queue_Conc\<close>, with the four loads outside the lock
  replaced.
\<close>

section \<open>Views and messages\<close>

record view =
  v_len :: nat \<comment> \<open>the newest message of \<open>length\<close> seen\<close>
  v_act :: nat \<comment> \<open>the newest message of \<open>active\<close> seen\<close>
  v_commits :: nat \<comment> \<open>commits of the reader that happened before\<close>
  v_takes :: nat \<comment> \<open>commits of the writer that happened before\<close>

definition join :: "view \<Rightarrow> view \<Rightarrow> view" where
  "join v u = \<lparr>v_len = max (v_len v) (v_len u), v_act = max (v_act v) (v_act u),
     v_commits = max (v_commits v) (v_commits u), v_takes = max (v_takes v) (v_takes u)\<rparr>"

text \<open>A message of \<open>length\<close>; how many commits and takes went into its value is not part of the program.\<close>

record len_msg =
  m_val :: size_t
  m_commits :: nat
  m_takes :: nat
  m_view :: view

record weak =
  wc :: conc
  len_mo :: "len_msg list"
  act_mo :: "(bool \<times> view) list"
  views :: "thread \<Rightarrow> view"
  lock_view :: view

definition view0 :: view where
  "view0 = \<lparr>v_len = 0, v_act = 0, v_commits = 0, v_takes = 0\<rparr>"

definition weak_start :: "jp_queue \<Rightarrow> weak" where
  "weak_start q =
     \<lparr>wc = conc_start q, len_mo = [\<lparr>m_val = 0, m_commits = 0, m_takes = 0, m_view = view0\<rparr>],
      act_mo = [(True, view0)], views = (\<lambda>_. view0), lock_view = view0\<rparr>"

section \<open>Atomic accesses\<close>

definition can_read_len :: "weak \<Rightarrow> thread \<Rightarrow> nat \<Rightarrow> bool" where
  "can_read_len w t k \<longleftrightarrow> v_len (views w t) \<le> k \<and> k < length (len_mo w)"

definition can_read_act :: "weak \<Rightarrow> thread \<Rightarrow> nat \<Rightarrow> bool" where
  "can_read_act w t k \<longleftrightarrow> v_act (views w t) \<le> k \<and> k < length (act_mo w)"

definition load_len :: "thread \<Rightarrow> nat \<Rightarrow> weak \<Rightarrow> weak" where
  "load_len t k w =
     w\<lparr>views := (views w)(t := join ((views w t)\<lparr>v_len := k\<rparr>) (m_view (len_mo w ! k)))\<rparr>"

definition load_act :: "thread \<Rightarrow> nat \<Rightarrow> weak \<Rightarrow> weak" where
  "load_act t k w =
     w\<lparr>views := (views w)(t := join ((views w t)\<lparr>v_act := k\<rparr>) (snd (act_mo w ! k)))\<rparr>"

text \<open>\<^verbatim>\<open>atomic_fetch_add_explicit\<close> and \<^verbatim>\<open>atomic_fetch_sub_explicit\<close> on \<open>length\<close>, by one commit or one take.\<close>

definition rmw_len :: "thread \<Rightarrow> size_t \<Rightarrow> nat \<Rightarrow> nat \<Rightarrow> weak \<Rightarrow> weak" where
  "rmw_len t val commits takes w =
     (let old = last (len_mo w);
          v = (views w t)\<lparr>v_len := length (len_mo w), v_commits := v_commits (views w t) + commits,
                          v_takes := v_takes (views w t) + takes\<rparr>
      in w\<lparr>len_mo := len_mo w @ [\<lparr>m_val = val, m_commits = m_commits old + commits, m_takes = m_takes old + takes,
                                   m_view = join (m_view old) v\<rparr>],
           views := (views w)(t := v)\<rparr>)"

definition store_act :: "thread \<Rightarrow> weak \<Rightarrow> weak" where
  "store_act t w =
     (let v = (views w t)\<lparr>v_act := length (act_mo w)\<rparr>
      in w\<lparr>act_mo := act_mo w @ [(False, v)], views := (views w)(t := v)\<rparr>)"

text \<open>A thread that goes from one place to the other has accessed an atomic outside or inside the lock.\<close>

definition atomic_access :: "pc \<Rightarrow> pc \<Rightarrow> bool" where
  "atomic_access p p' \<longleftrightarrow>
     p = Push_Length \<or> p = Fin_Start \<or> p = Push_Commit_Store \<or> p = Pop_Commit_Store \<or> p = Fin_Store \<or>
     p' = Push_Length \<or> p' = Pop_Lock \<or> p = Ready \<and> (\<exists>i. p' = Pop_Own i)"

definition plain_step :: "conc \<Rightarrow> conc \<Rightarrow> bool" where
  "plain_step c c' \<longleftrightarrow>
     conc_step c c' \<and> owner c' = owner c \<and> (\<forall>t. pcs c' t \<noteq> pcs c t \<longrightarrow> \<not> atomic_access (pcs c t) (pcs c' t))"

inductive weak_step :: "weak \<Rightarrow> weak \<Rightarrow> bool" where
  k_active: "pcs (wc w) Reader = Ready \<Longrightarrow> can_read_act w Reader k \<Longrightarrow>
    weak_step w ((load_act Reader k w)
      \<lparr>wc := goto Reader (if fst (act_mo w ! k) then Push_Length else Fin_Start) (wc w)\<rparr>)"
| k_length: "pcs (wc w) Reader = Push_Length \<Longrightarrow> can_read_len w Reader k \<Longrightarrow>
    weak_step w ((load_len Reader k w)
      \<lparr>wc := goto Reader (if m_val (len_mo w ! k) < q_capacity (cq (wc w))
                            then Push_Reset (q_tail (cq (wc w))) else Push_Lock) (wc w)\<rparr>)"
| k_pop: "pcs (wc w) Writer = Ready \<Longrightarrow> can_read_len w Writer k \<Longrightarrow>
    weak_step w ((load_len Writer k w)
      \<lparr>wc := goto Writer (if m_val (len_mo w ! k) > 0 then Pop_Own (q_head (cq (wc w))) else Pop_Lock) (wc w)\<rparr>)"
| k_final: "pcs (wc w) t = Fin_Start \<Longrightarrow> can_read_act w t k \<Longrightarrow>
    weak_step w ((load_act t k w)\<lparr>wc := goto t (if fst (act_mo w ! k) then Fin_Lock else Done) (wc w)\<rparr>)"
| k_lock: "conc_step (wc w) c \<Longrightarrow> owner (wc w) = None \<Longrightarrow> owner c = Some t \<Longrightarrow>
    weak_step w (w\<lparr>wc := c, views := (views w)(t := join (views w t) (lock_view w))\<rparr>)"
| k_unlock: "conc_step (wc w) c \<Longrightarrow> owner (wc w) = Some t \<Longrightarrow> owner c = None \<Longrightarrow>
    weak_step w (w\<lparr>wc := c, lock_view := join (lock_view w) (views w t)\<rparr>)"
| k_push_commit: "pcs (wc w) Reader = Push_Commit_Store \<Longrightarrow> reader_step (wc w) c \<Longrightarrow>
    weak_step w ((rmw_len Reader (q_length (cq c)) 1 0 w)\<lparr>wc := c\<rparr>)"
| k_pop_commit: "pcs (wc w) Writer = Pop_Commit_Store \<Longrightarrow> writer_step (wc w) c \<Longrightarrow>
    weak_step w ((rmw_len Writer (q_length (cq c)) 0 1 w)\<lparr>wc := c\<rparr>)"
| k_store: "pcs (wc w) t = Fin_Store \<Longrightarrow> final_step t (wc w) c \<Longrightarrow> weak_step w ((store_act t w)\<lparr>wc := c\<rparr>)"
| k_other: "plain_step (wc w) c \<Longrightarrow> weak_step w (w\<lparr>wc := c\<rparr>)"

inductive weak_reach :: "jp_queue \<Rightarrow> weak \<Rightarrow> bool" for q where
  weak_reach_start: "weak_reach q (weak_start q)"
| weak_reach_step: "weak_reach q w \<Longrightarrow> weak_step w w' \<Longrightarrow> weak_reach q w'"

section \<open>Stale loads\<close>

lemma quiet_step: "conc_step c c' \<Longrightarrow> conc_inv c \<Longrightarrow> quiet_inv c \<Longrightarrow> quiet_inv c'"
  by (elim conc_step_induct) (blast intro: quiet_reader quiet_writer quiet_final quiet_env)+

text \<open>
  What a load of an old value can do that the interleaving of \<open>JP_Queue_Conc\<close> does not: each sends the thread to the
  lock although it need not go there.
\<close>

inductive stale_step :: "conc \<Rightarrow> conc \<Rightarrow> bool" where
  s_push: "pcs c Reader = Ready \<Longrightarrow> stale_step c (goto Reader Push_Length c)"
| s_push_lock: "pcs c Reader = Push_Length \<Longrightarrow> stale_step c (goto Reader Push_Lock c)"
| s_pop_lock: "pcs c Writer = Ready \<Longrightarrow> stale_step c (goto Writer Pop_Lock c)"
| s_fin_lock: "pcs c t = Fin_Start \<Longrightarrow> stale_step c (goto t Fin_Lock c)"

lemma stale_lock: "stale_step c c' \<Longrightarrow> lock_inv c \<Longrightarrow> lock_inv c'"
  by (induction rule: stale_step.induct) (auto simp: lock_inv_def)

lemma stale_role: "stale_step c c' \<Longrightarrow> role_inv c \<Longrightarrow> role_inv c'"
proof (induction rule: stale_step.induct)
  case (s_fin_lock c t)
  then show ?case by (cases t) (auto simp: role_inv_def)
qed (auto simp: role_inv_def)

lemma stale_data: "stale_step c c' \<Longrightarrow> data_inv c \<Longrightarrow> data_inv c'"
proof (induction rule: stale_step.induct)
  case (s_fin_lock c t)
  then show ?case by (cases t) (auto simp: data_inv_def reading_def)
qed (auto simp: data_inv_def reading_def)

lemma stale_wait: "stale_step c c' \<Longrightarrow> wait_inv c \<Longrightarrow> wait_inv c'"
proof (induction rule: stale_step.induct)
  case (s_fin_lock c t)
  then show ?case by (cases t) (auto simp: wait_inv_def broadcasting_def)
qed (auto simp: wait_inv_def broadcasting_def)

lemma stale_end: "stale_step c c' \<Longrightarrow> end_inv c \<Longrightarrow> end_inv c'"
proof (induction rule: stale_step.induct)
  case (s_fin_lock c t)
  then show ?case by (cases t) (auto simp: end_inv_def ended_pc_def)
qed (auto simp: end_inv_def ended_pc_def)

lemma stale_inv: "stale_step c c' \<Longrightarrow> conc_inv c \<Longrightarrow> conc_inv c'"
  unfolding conc_inv_def by (blast intro: stale_lock stale_role stale_data stale_wait stale_end)

lemma stale_quiet: "stale_step c c' \<Longrightarrow> quiet_inv c \<Longrightarrow> quiet_inv c'"
proof (induction rule: stale_step.induct)
  case (s_fin_lock c t)
  then show ?case by (cases t) (auto simp: quiet_inv_def ended_pc_def)
qed (auto simp: quiet_inv_def ended_pc_def)

section \<open>Invariants of the messages and views\<close>

definition commits :: "weak \<Rightarrow> nat" where
  "commits w = m_commits (last (len_mo w))"

definition takes :: "weak \<Rightarrow> nat" where
  "takes w = m_takes (last (len_mo w))"

definition in_range :: "weak \<Rightarrow> view \<Rightarrow> bool" where
  "in_range w v \<longleftrightarrow> v_len v < length (len_mo w) \<and> v_act v < length (act_mo w)"

text \<open>A view that has seen every message and knows of every commit.\<close>

definition full :: "weak \<Rightarrow> view \<Rightarrow> bool" where
  "full w v \<longleftrightarrow>
     Suc (v_len v) = length (len_mo w) \<and> Suc (v_act v) = length (act_mo w) \<and> commits w \<le> v_commits v \<and> takes w \<le> v_takes v"

definition msg_ok :: "weak \<Rightarrow> len_msg \<Rightarrow> bool" where
  "msg_ok w m \<longleftrightarrow>
     m_takes m \<le> m_commits m \<and> m_commits m - m_takes m \<le> qcap (cq (wc w)) \<and> m_val m = of_nat (m_commits m - m_takes m) \<and>
     m_commits m \<le> commits w \<and> m_takes m \<le> takes w \<and> m_commits m \<le> v_commits (m_view m) \<and> m_takes m \<le> v_takes (m_view m) \<and>
     in_range w (m_view m)"

definition mo_inv :: "weak \<Rightarrow> bool" where
  "mo_inv w \<longleftrightarrow>
     len_mo w \<noteq> [] \<and> act_mo w \<noteq> [] \<and> m_val (last (len_mo w)) = q_length (cq (wc w)) \<and>
     fst (last (act_mo w)) = q_active (cq (wc w)) \<and> (\<forall>m \<in> set (len_mo w). msg_ok w m) \<and>
     (\<forall>m \<in> set (act_mo w). (fst m \<or> \<not> q_active (cq (wc w))) \<and> in_range w (snd m))"

text \<open>The reader has seen its own commits, the writer its own, and the owner of the mutex everything.\<close>

definition view_inv :: "weak \<Rightarrow> bool" where
  "view_inv w \<longleftrightarrow>
     (\<forall>t. in_range w (views w t)) \<and> in_range w (lock_view w) \<and>
     (\<forall>k. can_read_len w Reader k \<longrightarrow> m_commits (len_mo w ! k) = commits w) \<and>
     (\<forall>k. can_read_len w Writer k \<longrightarrow> m_takes (len_mo w ! k) = takes w) \<and>
     full w (case owner (wc w) of None \<Rightarrow> lock_view w | Some t \<Rightarrow> views w t)"

text \<open>A thread that was given a block knows of what was done with its memory before.\<close>

fun push_given :: "pc \<Rightarrow> bool" where
  "push_given (Push_Unlock (Inr i)) = True"
| "push_given (Push_Reset i) = True"
| "push_given (Push_Own i) = True"
| "push_given _ = False"

fun pop_given :: "pc \<Rightarrow> bool" where
  "pop_given (Pop_Unlock (Inr i)) = True"
| "pop_given (Pop_Own i) = True"
| "pop_given _ = False"

definition own_inv :: "weak \<Rightarrow> bool" where
  "own_inv w \<longleftrightarrow>
     (push_given (pcs (wc w) Reader) \<longrightarrow> commits w < v_takes (views w Reader) + qcap (cq (wc w))) \<and>
     (pop_given (pcs (wc w) Writer) \<longrightarrow> takes w < v_commits (views w Writer))"

definition weak_inv :: "weak \<Rightarrow> bool" where
  "weak_inv w \<longleftrightarrow> mo_inv w \<and> view_inv w \<and> own_inv w"

lemma join_simps [simp]:
  "v_len (join v u) = max (v_len v) (v_len u)" "v_act (join v u) = max (v_act v) (v_act u)"
  "v_commits (join v u) = max (v_commits v) (v_commits u)" "v_takes (join v u) = max (v_takes v) (v_takes u)"
  by (simp_all add: join_def)

lemma load_simps [simp]:
  "wc (load_len t k w) = wc w" "len_mo (load_len t k w) = len_mo w" "act_mo (load_len t k w) = act_mo w"
  "lock_view (load_len t k w) = lock_view w"
  "views (load_len t k w) = (views w)(t := join ((views w t)\<lparr>v_len := k\<rparr>) (m_view (len_mo w ! k)))"
  "wc (load_act t k w) = wc w" "len_mo (load_act t k w) = len_mo w" "act_mo (load_act t k w) = act_mo w"
  "lock_view (load_act t k w) = lock_view w"
  "views (load_act t k w) = (views w)(t := join ((views w t)\<lparr>v_act := k\<rparr>) (snd (act_mo w ! k)))"
  by (simp_all add: load_len_def load_act_def)

lemma weak_measures [simp]:
  "commits (w\<lparr>wc := c\<rparr>) = commits w" "takes (w\<lparr>wc := c\<rparr>) = takes w"
  "commits (w\<lparr>views := v\<rparr>) = commits w" "takes (w\<lparr>views := v\<rparr>) = takes w"
  "commits (w\<lparr>lock_view := u\<rparr>) = commits w" "takes (w\<lparr>lock_view := u\<rparr>) = takes w"
  "commits (load_len t k w) = commits w" "takes (load_len t k w) = takes w"
  "commits (load_act t k w) = commits w" "takes (load_act t k w) = takes w"
  "in_range (w\<lparr>wc := c\<rparr>) = in_range w" "in_range (w\<lparr>views := v\<rparr>) = in_range w"
  "in_range (w\<lparr>lock_view := u\<rparr>) = in_range w"
  "in_range (load_len t k w) = in_range w" "in_range (load_act t k w) = in_range w"
  "full (w\<lparr>wc := c\<rparr>) = full w" "full (w\<lparr>views := v\<rparr>) = full w" "full (w\<lparr>lock_view := u\<rparr>) = full w"
  "full (load_len t k w) = full w" "full (load_act t k w) = full w"
  by (auto simp: commits_def takes_def in_range_def full_def fun_eq_iff)

text \<open>Lengths as numbers of commits.\<close>

lemma msg_value:
  assumes "msg_ok w m"
  shows "unat (m_val m) = m_commits m - m_takes m"
proof -
  have small: "n < 2 ^ 64 \<Longrightarrow> unat (of_nat n :: size_t) = n" for n by (simp add: unat_of_nat)
  have m: "m_val m = of_nat (m_commits m - m_takes m)" "m_commits m - m_takes m \<le> qcap (cq (wc w))"
    using assms by (simp_all only: msg_ok_def)
  have "qcap (cq (wc w)) < 2 ^ 64" using unsigned_less [of "q_capacity (cq (wc w))"] by simp
  with m(2) have "m_commits m - m_takes m < 2 ^ 64" by simp
  then show ?thesis unfolding m(1) by (rule small)
qed

lemma length_of_commits:
  assumes "mo_inv w"
  shows "qlen (cq (wc w)) = commits w - takes w" "takes w \<le> commits w"
proof -
  have m: "msg_ok w (last (len_mo w))" using assms by (simp add: mo_inv_def)
  from msg_value [OF m] show "qlen (cq (wc w)) = commits w - takes w"
    using assms by (simp add: mo_inv_def commits_def takes_def)
  show "takes w \<le> commits w" using m by (simp add: msg_ok_def commits_def takes_def)
qed

section \<open>Every step keeps them\<close>

text \<open>What a step of the machine may change: the queue's own fields are those of the messages.\<close>

definition same_atomics :: "conc \<Rightarrow> conc \<Rightarrow> bool" where
  "same_atomics c c' \<longleftrightarrow>
     q_length (cq c') = q_length (cq c) \<and> q_active (cq c') = q_active (cq c) \<and> q_capacity (cq c') = q_capacity (cq c)"

lemma mo_inv_wc: "mo_inv w \<Longrightarrow> same_atomics (wc w) c \<Longrightarrow> mo_inv (w\<lparr>wc := c\<rparr>)"
  by (simp add: mo_inv_def msg_ok_def same_atomics_def)

lemma mo_inv_views: "mo_inv (w\<lparr>views := v\<rparr>) = mo_inv w" "mo_inv (w\<lparr>lock_view := u\<rparr>) = mo_inv w"
  "mo_inv (load_len t k w) = mo_inv w" "mo_inv (load_act t k w) = mo_inv w"
  by (simp_all add: mo_inv_def msg_ok_def)

text \<open>Views only grow.\<close>

lemma grow_views:
  assumes "view_inv w" "in_range w v" "v_len (views w t) \<le> v_len v" "v_act (views w t) \<le> v_act v"
    "v_commits (views w t) \<le> v_commits v" "v_takes (views w t) \<le> v_takes v"
  shows "view_inv (w\<lparr>views := (views w)(t := v)\<rparr>)"
proof -
  have "full w (case owner (wc w) of None \<Rightarrow> lock_view w | Some u \<Rightarrow> ((views w)(t := v)) u)"
    using assms by (auto simp: view_inv_def full_def in_range_def split: option.splits)
  moreover have "can_read_len (w\<lparr>views := (views w)(t := v)\<rparr>) u k \<Longrightarrow> can_read_len w u k" for u k
    using assms(3) by (auto simp: can_read_len_def split: if_splits)
  ultimately show ?thesis
    using assms(1,2) by (cases "owner (wc w)") (auto simp: view_inv_def split: if_splits)
qed

lemma grow_own:
  assumes "own_inv w" "v_commits (views w t) \<le> v_commits v" "v_takes (views w t) \<le> v_takes v"
  shows "own_inv (w\<lparr>views := (views w)(t := v)\<rparr>)"
  using assms by (auto simp: own_inv_def)

lemma view_inv_wc: "view_inv w \<Longrightarrow> owner c = owner (wc w) \<Longrightarrow> view_inv (w\<lparr>wc := c\<rparr>)"
  by (simp add: view_inv_def can_read_len_def split: option.splits)

lemma own_inv_wc:
  assumes "own_inv w" "q_capacity (cq c) = q_capacity (cq (wc w))"
    and "push_given (pcs c Reader) \<Longrightarrow> push_given (pcs (wc w) Reader) \<or> commits w < v_takes (views w Reader) + qcap (cq (wc w))"
    and "pop_given (pcs c Writer) \<Longrightarrow> pop_given (pcs (wc w) Writer) \<or> takes w < v_commits (views w Writer)"
  shows "own_inv (w\<lparr>wc := c\<rparr>)"
  using assms by (auto simp: own_inv_def)

lemma load_len_inv:
  assumes "weak_inv w" "can_read_len w t k"
  shows "weak_inv (load_len t k w)"
proof -
  have "in_range w (views w t)" "msg_ok w (len_mo w ! k)" "k < length (len_mo w)" "v_len (views w t) \<le> k"
    using assms by (auto simp: weak_inv_def view_inv_def mo_inv_def can_read_len_def)
  then show ?thesis
    using assms(1) unfolding load_len_def weak_inv_def mo_inv_views
    by (intro conjI grow_views grow_own) (auto simp: msg_ok_def in_range_def)
qed

lemma load_act_inv:
  assumes "weak_inv w" "can_read_act w t k"
  shows "weak_inv (load_act t k w)"
proof -
  have k: "k < length (act_mo w)" "v_act (views w t) \<le> k" using assms(2) by (simp_all add: can_read_act_def)
  then have "act_mo w ! k \<in> set (act_mo w)" by simp
  then have "in_range w (views w t)" "in_range w (snd (act_mo w ! k))"
    using assms(1) by (auto simp: weak_inv_def view_inv_def mo_inv_def)
  then show ?thesis
    using assms(1) k unfolding load_act_def weak_inv_def mo_inv_views
    by (intro conjI grow_views grow_own) (auto simp: in_range_def)
qed

lemma weak_inv_wc:
  assumes "weak_inv w" "same_atomics (wc w) c" "owner c = owner (wc w)"
    and "push_given (pcs c Reader) \<Longrightarrow> push_given (pcs (wc w) Reader) \<or> commits w < v_takes (views w Reader) + qcap (cq (wc w))"
    and "pop_given (pcs c Writer) \<Longrightarrow> pop_given (pcs (wc w) Writer) \<or> takes w < v_commits (views w Writer)"
  shows "weak_inv (w\<lparr>wc := c\<rparr>)"
  using assms mo_inv_wc view_inv_wc own_inv_wc by (simp add: weak_inv_def same_atomics_def)

lemma same_atomics_goto [simp]: "same_atomics c (goto t p c)"
  by (simp add: same_atomics_def)

text \<open>The lock changes hands without a change of the atomics.\<close>

definition same_given :: "conc \<Rightarrow> conc \<Rightarrow> bool" where
  "same_given c c' \<longleftrightarrow>
     same_atomics c c' \<and> (push_given (pcs c' Reader) \<longrightarrow> push_given (pcs c Reader)) \<and>
     (pop_given (pcs c' Writer) \<longrightarrow> pop_given (pcs c Writer))"

lemma owner_reader: "reader_step c c' \<Longrightarrow> owner c' \<noteq> owner c \<Longrightarrow> same_given c c'"
  by (induction rule: reader_step.induct) (auto simp: same_given_def same_atomics_def split: sum.splits if_splits)

lemma owner_writer: "writer_step c c' \<Longrightarrow> owner c' \<noteq> owner c \<Longrightarrow> same_given c c'"
  by (induction rule: writer_step.induct) (auto simp: same_given_def same_atomics_def split: sum.splits if_splits)

lemma owner_final: "final_step t c c' \<Longrightarrow> owner c' \<noteq> owner c \<Longrightarrow> same_given c c'"
  by (induction rule: final_step.induct) (auto simp: same_given_def same_atomics_def split: if_splits)

lemma owner_env: "env_step c c' \<Longrightarrow> owner c' = owner c"
  by (induction rule: env_step.induct) auto

lemma owner_step: "conc_step c c' \<Longrightarrow> owner c' \<noteq> owner c \<Longrightarrow> same_given c c'"
  by (elim conc_step_induct) (auto intro: owner_reader owner_writer owner_final dest: owner_env)

text \<open>A plain step changes no atomic, and gives out a block only from under the lock.\<close>

definition plain_effect :: "conc \<Rightarrow> conc \<Rightarrow> bool" where
  "plain_effect c c' \<longleftrightarrow>
     same_atomics c c' \<and>
     (push_given (pcs c' Reader) \<longrightarrow> push_given (pcs c Reader) \<or> pcs c Reader = Push_Test \<and> qlen (cq c) < qcap (cq c)) \<and>
     (pop_given (pcs c' Writer) \<longrightarrow> pop_given (pcs c Writer) \<or> pcs c Writer = Pop_Test \<and> 0 < qlen (cq c))"

abbreviation no_access :: "thread \<Rightarrow> conc \<Rightarrow> conc \<Rightarrow> bool" where
  "no_access t c c' \<equiv> pcs c' t \<noteq> pcs c t \<longrightarrow> \<not> atomic_access (pcs c t) (pcs c' t)"

lemma plain_reader: "reader_step c c' \<Longrightarrow> no_access Reader c c' \<Longrightarrow> plain_effect c c'"
proof (induction rule: reader_step.induct)
  case (r_fill c i bs q')
  have "q_length q' = q_length (cq c)" "q_active q' = q_active (cq c)" "q_capacity q' = q_capacity (cq c)"
    by (subst block_append_shape [OF r_fill.hyps(4)], simp)+
  then show ?case by (simp add: plain_effect_def same_atomics_def)
next
  case (r_go c)
  then show ?case
    by (cases "push_after_wait (cq c)") (auto simp: plain_effect_def same_atomics_def dest: push_after_wait_Inr)
next
  case (r_return c r)
  then show ?case by (cases r) (auto simp: plain_effect_def same_atomics_def)
next
  case (r_commit_store c)
  then show ?case by (auto simp: atomic_access_def)
next
  case (r_length c)
  then show ?case by (auto simp: atomic_access_def split: if_splits)
next
  case (r_reset c i)
  then show ?case by (auto simp: plain_effect_def same_atomics_def block_reset_def)
qed (auto simp: plain_effect_def same_atomics_def atomic_access_def split: if_splits)

lemma plain_writer: "writer_step c c' \<Longrightarrow> no_access Writer c c' \<Longrightarrow> plain_effect c c'"
proof (induction rule: writer_step.induct)
  case (w_go c)
  then show ?case
    by (cases "pop_after_wait (cq c)") (auto simp: plain_effect_def same_atomics_def dest: pop_after_wait_Inr)
next
  case (w_return c r)
  then show ?case by (cases r) (auto simp: plain_effect_def same_atomics_def)
next
  case (w_commit_store c)
  then show ?case by (auto simp: atomic_access_def)
qed (auto simp: plain_effect_def same_atomics_def atomic_access_def split: if_splits)

lemma plain_final: "final_step t c c' \<Longrightarrow> no_access t c c' \<Longrightarrow> plain_effect c c'"
  by (induction rule: final_step.induct)
    (auto simp: plain_effect_def same_atomics_def atomic_access_def split: if_splits)

lemma plain_env: "env_step c c' \<Longrightarrow> plain_effect c c'"
  by (induction rule: env_step.induct) (auto simp: plain_effect_def same_atomics_def)

lemma plain_step_effect: "plain_step c c' \<Longrightarrow> plain_effect c c'"
  unfolding plain_step_def
  by (elim conjE conc_step_induct) (blast intro: plain_reader plain_writer plain_final plain_env)+

lemma in_range_join: "in_range w v \<Longrightarrow> in_range w u \<Longrightarrow> in_range w (join v u)"
  by (simp add: in_range_def)

lemma full_join: "in_range w v \<Longrightarrow> full w u \<Longrightarrow> full w (join v u)" "in_range w v \<Longrightarrow> full w u \<Longrightarrow> full w (join u v)"
  by (auto simp: full_def in_range_def max_def)

lemma inv_lock:
  assumes "weak_inv w" "conc_step (wc w) c" "owner (wc w) = None" "owner c = Some t"
  shows "weak_inv (w\<lparr>wc := c, views := (views w)(t := join (views w t) (lock_view w))\<rparr>)"
proof -
  let ?v = "join (views w t) (lock_view w)"
  let ?w = "w\<lparr>views := (views w)(t := ?v)\<rparr>"
  have same: "same_given (wc w) c" using owner_step assms(2-4) by simp
  have inv: "mo_inv w" "view_inv w" "own_inv w" using assms(1) by (simp_all add: weak_inv_def)
  have v: "in_range w ?v" "full w ?v"
    using inv(2) assms(3) by (auto simp: view_inv_def in_range_join full_join)
  have mo: "mo_inv (?w\<lparr>wc := c\<rparr>)"
    using mo_inv_wc [of ?w c] inv(1) same by (simp add: mo_inv_views same_given_def)
  have "view_inv ?w" using grow_views [OF inv(2) v(1)] by simp
  then have view: "view_inv (?w\<lparr>wc := c\<rparr>)"
    using v(2) assms(4) by (simp add: view_inv_def can_read_len_def)
  have "own_inv ?w" by (rule grow_own [OF inv(3)]) simp_all
  then have "own_inv (?w\<lparr>wc := c\<rparr>)"
    using own_inv_wc [of ?w c] same by (simp add: same_given_def same_atomics_def)
  with mo view show ?thesis by (cases w) (simp add: weak_inv_def)
qed

lemma inv_unlock:
  assumes "weak_inv w" "conc_step (wc w) c" "owner (wc w) = Some t" "owner c = None"
  shows "weak_inv (w\<lparr>wc := c, lock_view := join (lock_view w) (views w t)\<rparr>)"
proof -
  let ?v = "join (lock_view w) (views w t)"
  let ?w = "w\<lparr>lock_view := ?v\<rparr>"
  have same: "same_given (wc w) c" using owner_step assms(2-4) by simp
  have inv: "mo_inv w" "view_inv w" "own_inv w" using assms(1) by (simp_all add: weak_inv_def)
  have v: "in_range w ?v" "full w ?v"
    using inv(2) assms(3) by (auto simp: view_inv_def in_range_join full_join)
  have mo: "mo_inv (?w\<lparr>wc := c\<rparr>)"
    using mo_inv_wc [of ?w c] inv(1) same by (simp add: mo_inv_views same_given_def)
  have view: "view_inv (?w\<lparr>wc := c\<rparr>)"
    using inv(2) v assms(4) by (simp add: view_inv_def can_read_len_def)
  have "own_inv (?w\<lparr>wc := c\<rparr>)"
    using inv(3) same by (simp add: own_inv_def same_given_def same_atomics_def)
  with mo view show ?thesis by (cases w) (simp add: weak_inv_def)
qed

lemma inv_plain:
  assumes "weak_inv w" "lock_inv (wc w)" "plain_step (wc w) c"
  shows "weak_inv (w\<lparr>wc := c\<rparr>)"
proof -
  have effect: "plain_effect (wc w) c" and own: "owner c = owner (wc w)"
    using plain_step_effect [OF assms(3)] assms(3) by (simp_all add: plain_step_def)
  have inv: "mo_inv w" "view_inv w" using assms(1) by (simp_all add: weak_inv_def)
  note len = length_of_commits [OF inv(1)]
  have held: "full w (views w t)" if "holds_lock (pcs (wc w) t)" for t
    using inv(2) lock_inv_owner [OF assms(2) that] by (simp add: view_inv_def)
  show ?thesis
  proof (rule weak_inv_wc [OF assms(1)])
    show "same_atomics (wc w) c" using effect by (simp add: plain_effect_def)
    show "owner c = owner (wc w)" by (rule own)
    show "push_given (pcs (wc w) Reader) \<or> commits w < v_takes (views w Reader) + qcap (cq (wc w))"
      if "push_given (pcs c Reader)"
      using that effect held [of Reader] len by (auto simp: plain_effect_def full_def)
    show "pop_given (pcs (wc w) Writer) \<or> takes w < v_commits (views w Writer)" if "pop_given (pcs c Writer)"
      using that effect held [of Writer] len by (auto simp: plain_effect_def full_def)
  qed
qed

lemma inv_length:
  assumes "weak_inv w" "can_read_len w Reader k" "m_val (len_mo w ! k) < q_capacity (cq (wc w))"
  shows "commits w < v_takes (views (load_len Reader k w) Reader) + qcap (cq (wc w))"
proof -
  have k: "k < length (len_mo w)" using assms(2) by (simp add: can_read_len_def)
  then have m: "msg_ok w (len_mo w ! k)" using assms(1) by (simp add: weak_inv_def mo_inv_def)
  have "m_commits (len_mo w ! k) = commits w" using assms(1,2) by (simp add: weak_inv_def view_inv_def)
  then have "commits w - m_takes (len_mo w ! k) < qcap (cq (wc w))"
    using assms(3) msg_value [OF m] by (simp add: word_less_nat_alt)
  moreover have "m_takes (len_mo w ! k) \<le> v_takes (m_view (len_mo w ! k))" using m by (simp add: msg_ok_def)
  ultimately show ?thesis by simp
qed

lemma inv_pop:
  assumes "weak_inv w" "can_read_len w Writer k" "0 < m_val (len_mo w ! k)"
  shows "takes w < v_commits (views (load_len Writer k w) Writer)"
proof -
  have k: "k < length (len_mo w)" using assms(2) by (simp add: can_read_len_def)
  then have m: "msg_ok w (len_mo w ! k)" using assms(1) by (simp add: weak_inv_def mo_inv_def)
  have "m_takes (len_mo w ! k) = takes w" using assms(1,2) by (simp add: weak_inv_def view_inv_def)
  then have "0 < m_commits (len_mo w ! k) - takes w"
    using assms(3) msg_value [OF m] by (simp add: word_less_nat_alt)
  then show ?thesis using m by (simp add: msg_ok_def less_max_iff_disj)
qed

text \<open>A new message of \<open>length\<close>, by the owner of the lock.\<close>

lemma inv_rmw:
  assumes "weak_inv w" "owner (wc w) = Some t" "owner c = Some t"
    and "q_capacity (cq c) = q_capacity (cq (wc w))" "q_active (cq c) = q_active (cq (wc w))"
    and "takes w + e \<le> commits w + d" "commits w + d - (takes w + e) \<le> qcap (cq (wc w))"
      "q_length (cq c) = of_nat (commits w + d - (takes w + e))"
    and "d = 0 \<or> t = Reader" "e = 0 \<or> t = Writer"
    and "\<not> push_given (pcs c Reader) \<or> d = 0 \<and> push_given (pcs (wc w) Reader)"
      "\<not> pop_given (pcs c Writer) \<or> e = 0 \<and> pop_given (pcs (wc w) Writer)"
  shows "weak_inv ((rmw_len t (q_length (cq c)) d e w)\<lparr>wc := c\<rparr>)"
proof -
  let ?w = "(rmw_len t (q_length (cq c)) d e w)\<lparr>wc := c\<rparr>"
  have inv: "mo_inv w" "view_inv w" "own_inv w" using assms(1) by (simp_all add: weak_inv_def)
  have f: "full w (views w t)" using inv(2) assms(2) by (simp add: view_inv_def)
  let ?v = "(views w t)\<lparr>v_len := length (len_mo w), v_commits := v_commits (views w t) + d, v_takes := v_takes (views w t) + e\<rparr>"
  have w: "len_mo ?w = len_mo w @ [\<lparr>m_val = q_length (cq c), m_commits = commits w + d, m_takes = takes w + e,
        m_view = join (m_view (last (len_mo w))) ?v\<rparr>]" "act_mo ?w = act_mo w" "views ?w = (views w)(t := ?v)"
      "lock_view ?w = lock_view w" "wc ?w = c"
    by (simp_all add: rmw_len_def Let_def commits_def takes_def)
  have ct: "commits ?w = commits w + d" "takes ?w = takes w + e"
    unfolding commits_def takes_def w by (simp_all add: commits_def takes_def)
  have range: "in_range ?w v" if "in_range w v" for v using that unfolding in_range_def w by simp
  have last: "msg_ok w (last (len_mo w))" using inv(1) by (simp add: mo_inv_def)
  have mo: "mo_inv ?w"
    using inv(1) last f assms(4-8) range
    unfolding mo_inv_def msg_ok_def ct w in_range_def
    by (auto simp: full_def)
  have "m_commits (len_mo ?w ! k) = commits ?w" if "can_read_len ?w Reader k" for k
    using that inv(2) assms(9) unfolding ct view_inv_def can_read_len_def w
    by (cases "k < length (len_mo w)") (auto simp: nth_append split: if_splits)
  moreover have "m_takes (len_mo ?w ! k) = takes ?w" if "can_read_len ?w Writer k" for k
    using that inv(2) assms(10) unfolding ct view_inv_def can_read_len_def w
    by (cases "k < length (len_mo w)") (auto simp: nth_append split: if_splits)
  moreover have "full ?w ?v" using f unfolding full_def ct w by simp
  moreover have "in_range ?w (views ?w u)" "in_range ?w (lock_view ?w)" for u
    using inv(2) range unfolding view_inv_def in_range_def w by (auto intro: less_SucI)
  ultimately have view: "view_inv ?w" using assms(3) unfolding view_inv_def w by simp
  have "own_inv ?w" using inv(3) assms(4,9-12) unfolding own_inv_def ct w by auto
  with mo view show ?thesis by (simp add: weak_inv_def)
qed

lemma inv_store:
  assumes "weak_inv w" "owner (wc w) = Some t"
  shows "weak_inv ((store_act t w)\<lparr>wc := goto t Fin_Broadcast ((wc w)\<lparr>cq := (cq (wc w))\<lparr>q_active := False\<rparr>\<rparr>)\<rparr>)"
    (is "weak_inv ?w")
proof -
  have inv: "mo_inv w" "view_inv w" "own_inv w" using assms(1) by (simp_all add: weak_inv_def)
  have f: "full w (views w t)" using inv(2) assms(2) by (simp add: view_inv_def)
  let ?v = "(views w t)\<lparr>v_act := length (act_mo w)\<rparr>"
  have w: "act_mo ?w = act_mo w @ [(False, ?v)]" "len_mo ?w = len_mo w" "views ?w = (views w)(t := ?v)"
      "lock_view ?w = lock_view w"
    by (simp_all add: store_act_def Let_def)
  have ct: "commits ?w = commits w" "takes ?w = takes w" unfolding commits_def takes_def w by simp_all
  have range: "in_range ?w v" if "in_range w v" for v using that unfolding in_range_def w by simp
  have mo: "mo_inv ?w"
    using inv(1,2) range unfolding mo_inv_def msg_ok_def ct w view_inv_def in_range_def by auto
  have "full ?w ?v" using f unfolding full_def ct w by simp
  moreover have "in_range ?w (views ?w u)" "in_range ?w (lock_view ?w)" for u
    using inv(2) range unfolding view_inv_def in_range_def w by (auto intro: less_SucI)
  ultimately have view: "view_inv ?w"
    using inv(2) assms(2) unfolding view_inv_def can_read_len_def ct w by auto
  have "own_inv ?w" using inv(3) unfolding own_inv_def ct w by auto
  with mo view show ?thesis by (simp add: weak_inv_def)
qed

text \<open>A step of the weak machine is a step of the interleaving, or goes to the lock for nothing.\<close>

lemma weak_step_conc:
  assumes "weak_step w w'" "weak_inv w" "conc_inv (wc w)"
  shows "conc_step (wc w) (wc w') \<or> stale_step (wc w) (wc w')"
  using assms
proof (induction rule: weak_step.induct)
  case (k_active w k)
  have "reader_step (wc w) (goto Reader Fin_Start (wc w))" using k_active.hyps(1) by (rule r_end)
  moreover have "stale_step (wc w) (goto Reader Push_Length (wc w))" using k_active.hyps(1) by (rule s_push)
  ultimately show ?case by (simp add: conc_step_defs)
next
  case (k_length w k)
  let ?q = "cq (wc w)" and ?m = "len_mo w ! k"
  show ?case
  proof (cases "m_val ?m < q_capacity ?q")
    case True
    have m: "msg_ok w ?m" "m_commits ?m = commits w" and mo: "mo_inv w"
      using k_length by (simp_all add: weak_inv_def mo_inv_def view_inv_def can_read_len_def)
    moreover have "m_takes ?m \<le> takes w" using m(1) by (simp add: msg_ok_def)
    ultimately have "qlen ?q < qcap ?q"
      using True length_of_commits [OF mo] msg_value [OF m(1)] by (simp add: word_less_nat_alt)
    then have "reader_step (wc w) (goto Reader (Push_Reset (q_tail ?q)) (wc w))"
      using r_length [OF k_length.hyps(1)] by (simp add: word_less_nat_alt)
    with True show ?thesis by (simp add: conc_step_defs)
  next
    case False
    with s_push_lock [OF k_length.hyps(1)] show ?thesis by simp
  qed
next
  case (k_pop w k)
  let ?q = "cq (wc w)" and ?m = "len_mo w ! k"
  show ?case
  proof (cases "m_val ?m > 0")
    case True
    have m: "msg_ok w ?m" "m_takes ?m = takes w" and mo: "mo_inv w"
      using k_pop by (simp_all add: weak_inv_def mo_inv_def view_inv_def can_read_len_def)
    moreover have "m_commits ?m \<le> commits w" using m(1) by (simp add: msg_ok_def)
    ultimately have "0 < qlen ?q"
      using True length_of_commits [OF mo] msg_value [OF m(1)] by (simp add: word_less_nat_alt)
    then have "writer_step (wc w) (goto Writer (Pop_Own (q_head ?q)) (wc w))"
      using w_call [OF k_pop.hyps(1)] by (simp add: word_less_nat_alt)
    with True show ?thesis by (simp add: conc_step_defs)
  next
    case False
    with s_pop_lock [OF k_pop.hyps(1)] show ?thesis by simp
  qed
next
  case (k_final w t k)
  show ?case
  proof (cases "fst (act_mo w ! k)")
    case True
    with s_fin_lock [OF k_final.hyps(1)] show ?thesis by simp
  next
    case False
    have "act_mo w ! k \<in> set (act_mo w)" using k_final.hyps(2) by (simp add: can_read_act_def)
    then have "\<not> q_active (cq (wc w))" using k_final.prems(1) False by (auto simp: weak_inv_def mo_inv_def)
    then have "final_step t (wc w) (goto t Done (wc w))" using f_start [OF k_final.hyps(1)] by simp
    with False show ?thesis by (auto simp: conc_step_defs)
  qed
qed (auto simp: conc_step_defs plain_step_def)

lemma weak_inv_step:
  assumes "weak_step w w'" "weak_inv w" "conc_inv (wc w)"
  shows "weak_inv w'"
  using assms
proof (induction rule: weak_step.induct)
  case (k_active w k)
  then show ?case by (intro weak_inv_wc load_act_inv) (auto split: if_splits)
next
  case (k_length w k)
  then show ?case by (intro weak_inv_wc load_len_inv) (auto simp: inv_length simp del: load_simps(5) split: if_splits)
next
  case (k_pop w k)
  then show ?case by (intro weak_inv_wc load_len_inv) (auto simp: inv_pop simp del: load_simps(5) split: if_splits)
next
  case (k_final w t k)
  then show ?case by (intro weak_inv_wc load_act_inv) (cases t; auto split: if_splits)+
next
  case (k_lock w c t)
  then show ?case by (intro inv_lock)
next
  case (k_unlock w c t)
  then show ?case by (intro inv_unlock)
next
  case (k_push_commit w c)
  have own: "owner (wc w) = Some Reader" and data: "qlen (cq (wc w)) < qcap (cq (wc w))"
    using k_push_commit lock_inv_owner [of "wc w" Reader] by (auto simp: conc_inv_def data_inv_def)
  have c: "c = goto Reader Push_Commit_Signal (wc w\<lparr>cq := jp_queue_push_commit (cq (wc w)),
      sent := sent (wc w) @ [block_bytes (q_tail (cq (wc w))) (cq (wc w))]\<rparr>)"
    using k_push_commit.hyps by (auto elim: reader_step.cases)
  have mo: "mo_inv w" using k_push_commit.prems(1) by (simp add: weak_inv_def)
  note len = length_of_commits [OF mo]
  have "q_length (cq (wc w)) + 1 = of_nat (qlen (cq (wc w)) + 1)" by simp
  then have "q_length (cq c) = of_nat (commits w + 1 - (takes w + 0))"
    using len unfolding c by (simp add: jp_queue_push_commit_def Suc_diff_le)
  then show ?case
    using own data len k_push_commit.prems(1)
    by (intro inv_rmw) (auto simp: c)
next
  case (k_pop_commit w c)
  have own: "owner (wc w) = Some Writer" and data: "0 < qlen (cq (wc w))"
    using k_pop_commit lock_inv_owner [of "wc w" Writer] by (auto simp: conc_inv_def data_inv_def)
  have c: "c = goto Writer Pop_Commit_Signal (wc w\<lparr>cq := jp_queue_pop_commit (cq (wc w))\<rparr>)"
    using k_pop_commit.hyps by (auto elim: writer_step.cases)
  have mo: "mo_inv w" using k_pop_commit.prems(1) by (simp add: weak_inv_def)
  note len = length_of_commits [OF mo]
  have cap: "qlen (cq (wc w)) \<le> qcap (cq (wc w))"
    using k_pop_commit.prems(2) by (simp add: conc_inv_def data_inv_def queue_ok_def)
  have "q_length (cq (wc w)) - 1 = of_nat (qlen (cq (wc w)) - 1)" using data by (simp add: of_nat_diff)
  then have "q_length (cq c) = of_nat (commits w + 0 - (takes w + 1))"
    using len unfolding c by (simp add: jp_queue_pop_commit_def)
  then show ?case
    using own data len cap k_pop_commit.prems(1)
    by (intro inv_rmw) (auto simp: c)
next
  case (k_store w t c)
  have own: "owner (wc w) = Some t" using k_store lock_inv_owner [of "wc w" t] by (auto simp: conc_inv_def)
  have "c = goto t Fin_Broadcast ((wc w)\<lparr>cq := (cq (wc w))\<lparr>q_active := False\<rparr>\<rparr>)"
    using k_store.hyps by (auto elim: final_step.cases)
  with inv_store [OF k_store.prems(1) own] show ?case by simp
next
  case (k_other w c)
  then show ?case by (intro inv_plain) (simp_all add: conc_inv_def)
qed

lemma weak_inv_start:
  assumes "queue_ok q" "queue_contents q = []" "q_active q"
  shows "weak_inv (weak_start q)"
proof -
  have "q_length q = 0" using arg_cong [OF assms(2), of length] by (simp add: unat_eq_0)
  then show ?thesis
    using assms(3)
    by (simp add: weak_inv_def mo_inv_def view_inv_def own_inv_def msg_ok_def in_range_def full_def commits_def takes_def
        can_read_len_def weak_start_def conc_start_def view0_def)
qed

lemma weak_reach_inv:
  assumes "weak_reach q w" "queue_ok q" "queue_contents q = []" "q_active q"
  shows "weak_inv w \<and> conc_inv (wc w) \<and> quiet_inv (wc w)"
  using assms
proof (induction rule: weak_reach.induct)
  case weak_reach_start
  then have "quiet_inv (conc_start q)" by (simp add: quiet_inv_def conc_start_def)
  with weak_reach_start weak_inv_start conc_inv_start show ?case by (simp add: weak_start_def)
next
  case (weak_reach_step w w')
  then have inv: "weak_inv w" "conc_inv (wc w)" "quiet_inv (wc w)" by simp_all
  note step = weak_step_conc [OF weak_reach_step.hyps(2) inv(1,2)]
  then have "conc_inv (wc w')" using inv(2) conc_inv_step stale_inv by blast
  moreover have "quiet_inv (wc w')" using step inv(2,3) quiet_step stale_quiet by blast
  ultimately show ?case using weak_inv_step [OF weak_reach_step.hyps(2) inv(1,2)] by blast
qed

section \<open>Interleavings are among the executions\<close>

text \<open>Every step of the interleaving is possible, with the newest messages read.\<close>

lemma newest:
  assumes "weak_inv w"
  shows "can_read_len w t (length (len_mo w) - 1)" "len_mo w ! (length (len_mo w) - 1) = last (len_mo w)"
    "can_read_act w t (length (act_mo w) - 1)" "act_mo w ! (length (act_mo w) - 1) = last (act_mo w)"
  using assms
  by (auto simp: weak_inv_def mo_inv_def view_inv_def in_range_def can_read_len_def can_read_act_def last_conv_nth
      Suc_le_eq less_Suc_eq_le intro: le_diff_conv2 [THEN iffD2] simp flip: Suc_le_eq)

lemma newest_values:
  assumes "weak_inv w"
  shows "m_val (last (len_mo w)) = q_length (cq (wc w))" "fst (last (act_mo w)) = q_active (cq (wc w))"
  using assms by (simp_all add: weak_inv_def mo_inv_def)

definition weak_can :: "weak \<Rightarrow> conc \<Rightarrow> bool" where
  "weak_can w c \<longleftrightarrow> (\<exists>w'. weak_step w w' \<and> wc w' = c)"

lemma can_plain: "plain_step (wc w) c \<Longrightarrow> weak_can w c"
  unfolding weak_can_def by (rule exI, rule conjI, erule k_other) simp

lemma can_owner:
  assumes "conc_step (wc w) c" "owner c \<noteq> owner (wc w)" "owner c = None \<or> owner (wc w) = None"
  shows "weak_can w c"
proof (cases "owner c")
  case None
  then obtain t where "owner (wc w) = Some t" using assms(2) by (cases "owner (wc w)") auto
  from k_unlock [OF assms(1) this None] show ?thesis unfolding weak_can_def by fastforce
next
  case (Some t)
  with assms(3) have "owner (wc w) = None" by simp
  from k_lock [OF assms(1) this Some] show ?thesis unfolding weak_can_def by fastforce
qed

text \<open>A step is a load or a store of an atomic, moves the lock, or is plain.\<close>

definition step_kind :: "conc \<Rightarrow> conc \<Rightarrow> bool" where
  "step_kind c c' \<longleftrightarrow>
     owner c' = owner c \<and> (\<forall>t. no_access t c c') \<or> owner c' \<noteq> owner c \<and> (owner c' = None \<or> owner c = None)"

lemma kind_can: "conc_step (wc w) c \<Longrightarrow> step_kind (wc w) c \<Longrightarrow> weak_can w c"
proof (cases "owner c = owner (wc w)")
  case True
  assume "conc_step (wc w) c" "step_kind (wc w) c"
  with True show ?thesis by (intro can_plain) (simp add: step_kind_def plain_step_def)
next
  case False
  assume "conc_step (wc w) c" "step_kind (wc w) c"
  with False show ?thesis by (intro can_owner) (simp_all add: step_kind_def)
qed

lemma reader_kind:
  "reader_step c c' \<Longrightarrow>
   step_kind c c' \<or> pcs c Reader = Push_Commit_Store \<or> pcs c Reader = Push_Length \<or>
   pcs c Reader = Ready \<and> q_active (cq c) \<and> c' = goto Reader Push_Length c"
proof (induction rule: reader_step.induct)
  case (r_call c)
  then show ?case
  proof (cases "q_active (cq c)")
    case True
    then show ?thesis using r_call by (simp only: if_True) blast
  next
    case False
    then show ?thesis using r_call by (simp add: step_kind_def atomic_access_def)
  qed
qed (auto simp: step_kind_def atomic_access_def wake_defs split: sum.splits)

lemma writer_kind:
  "writer_step c c' \<Longrightarrow> step_kind c c' \<or> pcs c Writer = Pop_Commit_Store \<or> pcs c Writer = Ready"
  by (induction rule: writer_step.induct)
    (auto simp: step_kind_def atomic_access_def wake_defs split: sum.splits)

lemma final_kind: "final_step t c c' \<Longrightarrow> step_kind c c' \<or> pcs c t = Fin_Start \<or> pcs c t = Fin_Store"
  by (induction rule: final_step.induct) (auto simp: step_kind_def atomic_access_def wake_defs)

lemma env_kind: "env_step c c' \<Longrightarrow> step_kind c c'"
  by (induction rule: env_step.induct) (auto simp: step_kind_def atomic_access_def)

inductive_cases push_lengthE: "reader_step c c'"
inductive_cases pop_readyE: "writer_step c c'"
inductive_cases fin_startE: "final_step t c c'"

lemma can_reader:
  assumes "reader_step (wc w) c" "weak_inv w"
  shows "weak_can w c"
  using reader_kind [OF assms(1)]
proof (elim disjE conjE)
  assume "step_kind (wc w) c"
  with assms(1) show ?thesis by (intro kind_can) (simp_all add: conc_step_defs)
next
  assume "pcs (wc w) Reader = Push_Commit_Store"
  from k_push_commit [OF this assms(1)] show ?thesis unfolding weak_can_def by fastforce
next
  assume pc: "pcs (wc w) Reader = Push_Length"
  then have "c = goto Reader (if q_length (cq (wc w)) < q_capacity (cq (wc w)) then Push_Reset (q_tail (cq (wc w)))
      else Push_Lock) (wc w)"
    using assms(1) by (auto elim: push_lengthE)
  then show ?thesis
    using k_length [OF pc newest(1) [OF assms(2)]] newest(2) [OF assms(2)] newest_values(1) [OF assms(2)]
    unfolding weak_can_def by fastforce
next
  assume pc: "pcs (wc w) Reader = Ready" and "q_active (cq (wc w))" "c = goto Reader Push_Length (wc w)"
  then show ?thesis
    using k_active [OF pc newest(3) [OF assms(2)]] newest(4) [OF assms(2)] newest_values(2) [OF assms(2)]
    unfolding weak_can_def by fastforce
qed

lemma can_writer:
  assumes "writer_step (wc w) c" "weak_inv w"
  shows "weak_can w c"
  using writer_kind [OF assms(1)]
proof (elim disjE)
  assume "step_kind (wc w) c"
  with assms(1) show ?thesis by (intro kind_can) (simp_all add: conc_step_defs)
next
  assume "pcs (wc w) Writer = Pop_Commit_Store"
  from k_pop_commit [OF this assms(1)] show ?thesis unfolding weak_can_def by fastforce
next
  assume pc: "pcs (wc w) Writer = Ready"
  then have "c = goto Writer (if q_length (cq (wc w)) > 0 then Pop_Own (q_head (cq (wc w))) else Pop_Lock) (wc w)"
    using assms(1) by (auto elim: pop_readyE)
  then show ?thesis
    using k_pop [OF pc newest(1) [OF assms(2)]] newest(2) [OF assms(2)] newest_values(1) [OF assms(2)]
    unfolding weak_can_def by fastforce
qed

lemma can_final:
  assumes "final_step t (wc w) c" "weak_inv w"
  shows "weak_can w c"
  using final_kind [OF assms(1)]
proof (elim disjE)
  assume "step_kind (wc w) c"
  with assms(1) show ?thesis by (intro kind_can) (auto simp: conc_step_defs)
next
  assume "pcs (wc w) t = Fin_Store"
  from k_store [OF this assms(1)] show ?thesis unfolding weak_can_def by fastforce
next
  assume pc: "pcs (wc w) t = Fin_Start"
  then have "c = goto t (if q_active (cq (wc w)) then Fin_Lock else Done) (wc w)"
    using assms(1) by (auto elim: fin_startE)
  then show ?thesis
    using k_final [OF pc newest(3) [OF assms(2)]] newest(4) [OF assms(2)] newest_values(2) [OF assms(2)]
    unfolding weak_can_def by fastforce
qed

lemma can_step: "conc_step (wc w) c \<Longrightarrow> weak_inv w \<Longrightarrow> weak_can w c"
  by (elim conc_step_induct) (auto intro: can_reader can_writer can_final kind_can env_kind simp: conc_step_defs)

lemma conc_reach_weak:
  assumes "conc_reach q c" "queue_ok q" "queue_contents q = []" "q_active q"
  shows "\<exists>w. weak_reach q w \<and> wc w = c"
  using assms
proof (induction rule: conc_reach.induct)
  case reach_start
  have "wc (weak_start q) = conc_start q" by (simp add: weak_start_def)
  with weak_reach_start show ?case by blast
next
  case (reach_step c c')
  then obtain w where w: "weak_reach q w" "wc w = c" by blast
  then have "weak_inv w" using weak_reach_inv reach_step.prems by blast
  then have "weak_can w c'" using can_step reach_step.hyps(2) w(2) by blast
  then show ?case unfolding weak_can_def using weak_reach_step [OF w(1)] by blast
qed

section \<open>Properties\<close>

text \<open>The commits that the messages count are the blocks that the reader committed.\<close>

lemma sent_kept:
  "conc_step c c' \<Longrightarrow> sent c' = sent c \<or>
     pcs c Reader = Push_Commit_Store \<and> pcs c' Reader = Push_Commit_Signal \<and> owner c' = owner c"
proof (elim conc_step_induct)
  show "?thesis" if "reader_step c c'" using that by (induction rule: reader_step.induct) simp_all
  show "?thesis" if "writer_step c c'" using that by (induction rule: writer_step.induct) simp_all
  show "?thesis" if "final_step t c c'" for t using that by (induction rule: final_step.induct) simp_all
  show "?thesis" if "env_step c c'" using that by (induction rule: env_step.induct) simp_all
qed

lemma commits_sent_step:
  assumes "weak_step w w'" "commits w = length (sent (wc w))"
  shows "commits w' = length (sent (wc w'))"
  using assms
proof (induction rule: weak_step.induct)
  case (k_lock w c t)
  with sent_kept [OF k_lock.hyps(1)] show ?case by auto
next
  case (k_unlock w c t)
  with sent_kept [OF k_unlock.hyps(1)] show ?case by auto
next
  case (k_push_commit w c)
  then have "sent c = sent (wc w) @ [block_bytes (q_tail (cq (wc w))) (cq (wc w))]"
    by (auto elim: reader_step.cases)
  with k_push_commit.prems show ?case by (simp add: rmw_len_def Let_def commits_def)
next
  case (k_pop_commit w c)
  then have "sent c = sent (wc w)" by (auto elim: writer_step.cases)
  with k_pop_commit.prems show ?case by (simp add: rmw_len_def Let_def commits_def)
next
  case (k_store w t c)
  then have "sent c = sent (wc w)" by (auto elim: final_step.cases)
  with k_store.prems show ?case by (simp add: store_act_def Let_def commits_def)
next
  case (k_other w c)
  then have "conc_step (wc w) c" "no_access Reader (wc w) c" by (simp_all add: plain_step_def)
  with sent_kept [of "wc w" c] k_other.prems show ?case by (auto simp: atomic_access_def)
qed simp_all

lemma commits_sent: "weak_reach q w \<Longrightarrow> commits w = length (sent (wc w))"
  by (induction rule: weak_reach.induct)
    (simp add: weak_start_def conc_start_def commits_def, rule commits_sent_step)

lemma takes_got:
  assumes "weak_reach q w" "mo_inv w" "data_inv (wc w)" "\<not> reading (pcs (wc w) Writer)"
  shows "takes w = length (got (wc w))"
proof -
  have "sent (wc w) = got (wc w) @ queue_contents (cq (wc w))" using assms(3,4) by (simp add: data_inv_def)
  then have "commits w = length (got (wc w)) + qlen (cq (wc w))" using commits_sent [OF assms(1)] by simp
  with length_of_commits [OF assms(2)] show ?thesis by simp
qed

text \<open>
  C4: The queue under the memory orders of the code. In every execution in which the loads of \<open>length\<close>
  and \<open>active\<close> outside the lock may return values that are out of date, as an acquire load may: what the
  writer has read is an initial part of what the reader has committed, byte for byte, and at most the
  capacity behind; no wakeup is lost; some thread can take a step as long as one of the two has not
  ended; and with no signal and no write error, the writer ends only when it has read everything that
  was committed. Every interleaving of the sequentially consistent model is such an execution.
\<close>

theorem queue_weak_memory:
  assumes "queue_ok q" "queue_contents q = []" "q_active q"
  shows "(weak_reach q w \<longrightarrow>
            (\<exists>rest. sent (wc w) = got (wc w) @ rest \<and> length rest \<le> qcap (cq (wc w))) \<and>
            (owner (wc w) = None \<longrightarrow>
               (pcs (wc w) Reader = Push_Waiting \<longrightarrow> push_must_wait (cq (wc w))) \<and>
               (pcs (wc w) Writer = Pop_Waiting \<longrightarrow> pop_must_wait (cq (wc w)))) \<and>
            (pcs (wc w) Reader \<noteq> Done \<or> pcs (wc w) Writer \<noteq> Done \<longrightarrow>
               (\<exists>w'. weak_step w w' \<and> thread_step (wc w) (wc w'))) \<and>
            (pcs (wc w) Writer = Done \<and> \<not> failed (wc w) \<and> \<not> signalled (wc w) \<longrightarrow> got (wc w) = sent (wc w))) \<and>
         (conc_reach q c \<longrightarrow> (\<exists>w. weak_reach q w \<and> wc w = c))"
proof (rule conjI; rule impI)
  assume "weak_reach q w"
  then have inv: "weak_inv w" "conc_inv (wc w)" "quiet_inv (wc w)" "data_inv (wc w)"
    using weak_reach_inv [of q w] assms by (simp_all add: conc_inv_def)
  have "\<exists>w'. weak_step w w' \<and> thread_step (wc w) (wc w')"
    if "pcs (wc w) Reader \<noteq> Done \<or> pcs (wc w) Writer \<noteq> Done"
  proof -
    from conc_progress [OF inv(2) that] obtain c' where "thread_step (wc w) c'" by blast
    with can_step [of w c'] inv(1) show ?thesis by (auto simp: weak_can_def conc_step_def)
  qed
  with data_inv_fifo [OF inv(4)] conc_inv_waits [OF inv(2)] quiet_end [OF inv(2,3)]
  show "(\<exists>rest. sent (wc w) = got (wc w) @ rest \<and> length rest \<le> qcap (cq (wc w))) \<and>
        (owner (wc w) = None \<longrightarrow>
           (pcs (wc w) Reader = Push_Waiting \<longrightarrow> push_must_wait (cq (wc w))) \<and>
           (pcs (wc w) Writer = Pop_Waiting \<longrightarrow> pop_must_wait (cq (wc w)))) \<and>
        (pcs (wc w) Reader \<noteq> Done \<or> pcs (wc w) Writer \<noteq> Done \<longrightarrow>
           (\<exists>w'. weak_step w w' \<and> thread_step (wc w) (wc w'))) \<and>
        (pcs (wc w) Writer = Done \<and> \<not> failed (wc w) \<and> \<not> signalled (wc w) \<longrightarrow> got (wc w) = sent (wc w))"
    by blast
next
  assume "conc_reach q c"
  then show "\<exists>w. weak_reach q w \<and> wc w = c" using assms by (rule conc_reach_weak)
qed

theorem queue_weak_memory_witness:
  "\<exists>q c w rest. conc_reach q c \<and> sent c = [[7]] \<and> weak_reach q w \<and> wc w = c \<and> sent (wc w) = got (wc w) @ rest \<and>
     length rest \<le> qcap (cq (wc w))"
proof -
  obtain q where q: "queue_ok q" "queue_contents q = []" "q_active q" "q_capacity q = 2" "q_chunk_size q = 1024"
    using small_queue by blast
  obtain d where d: "conc_reach q d" "pcs d Reader = Push_Own (q_tail q)" "owner d = None"
    "block_bytes (q_tail (cq d)) (cq d) = [7]" "sent d = []"
    using run_one_block [OF q(1-3), of 7] q(5) by auto
  obtain c where c: "conc_reach q c" "sent c = [[7]]"
    using run_push_commit [OF d(1-3)] d(4,5) by fastforce
  with queue_weak_memory [OF q(1-3), of _ c] obtain w where w: "weak_reach q w" "wc w = c" by blast
  with queue_weak_memory [OF q(1-3), of w c] c show ?thesis by blast
qed

text \<open>
  C17: The blocks are never raced for, under the memory orders of the code. While the writer reads block
  number \<open>n\<close>, counted from the start of the run, the commit of block \<open>n\<close> by the reader happened before; while the
  reader resets or fills block \<open>m\<close> in a slot that was used before, the commit of block \<open>m - capacity\<close> by the writer
  happened before. And the owner of the mutex can read no value of \<open>length\<close> and \<open>active\<close> but the newest.
\<close>

theorem queue_blocks_synchronized:
  assumes "weak_reach q w" "queue_ok q" "queue_contents q = []" "q_active q"
  shows "(pcs (wc w) Writer = Pop_Own i \<longrightarrow> length (got (wc w)) < v_commits (views w Writer)) \<and>
         (pcs (wc w) Reader = Push_Reset i \<or> pcs (wc w) Reader = Push_Own i \<longrightarrow>
            length (sent (wc w)) < v_takes (views w Reader) + qcap (cq (wc w))) \<and>
         (owner (wc w) = Some t \<longrightarrow>
            (can_read_len w t k \<longrightarrow> len_mo w ! k = last (len_mo w) \<and> m_val (len_mo w ! k) = q_length (cq (wc w))) \<and>
            (can_read_act w t k \<longrightarrow> act_mo w ! k = last (act_mo w) \<and> fst (act_mo w ! k) = q_active (cq (wc w))))"
proof -
  have inv: "mo_inv w" "view_inv w" "own_inv w" "data_inv (wc w)"
    using weak_reach_inv [OF assms] by (simp_all add: weak_inv_def conc_inv_def)
  have "length (got (wc w)) < v_commits (views w Writer)" if "pcs (wc w) Writer = Pop_Own i"
    using that inv(3) takes_got [OF assms(1) inv(1,4)] by (simp add: own_inv_def reading_def)
  moreover have "length (sent (wc w)) < v_takes (views w Reader) + qcap (cq (wc w))"
    if "pcs (wc w) Reader = Push_Reset i \<or> pcs (wc w) Reader = Push_Own i"
    using that inv(3) commits_sent [OF assms(1)] by (auto simp: own_inv_def)
  moreover have "len_mo w ! k = last (len_mo w)" if "owner (wc w) = Some t" "can_read_len w t k"
  proof -
    have "full w (views w t)" using that(1) inv(2) by (simp add: view_inv_def)
    then have "k = length (len_mo w) - 1" using that(2) by (auto simp: full_def can_read_len_def)
    with inv(1) show ?thesis by (simp add: mo_inv_def last_conv_nth)
  qed
  moreover have "act_mo w ! k = last (act_mo w)" if "owner (wc w) = Some t" "can_read_act w t k"
  proof -
    have "full w (views w t)" using that(1) inv(2) by (simp add: view_inv_def)
    then have "k = length (act_mo w) - 1" using that(2) by (auto simp: full_def can_read_act_def)
    with inv(1) show ?thesis by (simp add: mo_inv_def last_conv_nth)
  qed
  moreover have "m_val (last (len_mo w)) = q_length (cq (wc w))" "fst (last (act_mo w)) = q_active (cq (wc w))"
    using inv(1) by (simp_all add: mo_inv_def)
  ultimately show ?thesis by auto
qed

theorem queue_blocks_synchronized_witness:
  "\<exists>q w i. weak_reach q w \<and> queue_ok q \<and> pcs (wc w) Reader = Push_Own i \<and>
     length (sent (wc w)) < v_takes (views w Reader) + qcap (cq (wc w))"
proof -
  obtain q where q: "queue_ok q" "queue_contents q = []" "q_active q" "q_capacity q = 2" "q_chunk_size q = 1024"
    using small_queue by blast
  obtain d where d: "conc_reach q d" "pcs d Reader = Push_Own (q_tail q)"
    using run_one_block [OF q(1-3), of 7] q(5) by auto
  obtain w where w: "weak_reach q w" "wc w = d" using conc_reach_weak [OF d(1) q(1-3)] by blast
  with queue_blocks_synchronized [OF w(1) q(1-3), of "q_tail q"] d(2) q(1) show ?thesis by blast
qed

end
