(* ===== verification/JP_Field.thy ===== *)
theory JP_Field
  imports JP_Memory "HOL-Library.AList"
begin

text \<open>
  \<^verbatim>\<open>include/jp_field.h\<close> and \<^verbatim>\<open>src/field.c\<close>: parsing of one \<open>key=value\<close> argument and the set of
  fields it goes into. A field is one allocation: the struct followed by a copy of the argument
  whose \<open>=\<close> and whose end are overwritten by NUL; \<open>key\<close> and \<open>val\<close> point into that copy, and are
  offsets here. A field set holds the fields of its first \<open>len\<close> slots and its capacity; the
  remaining slots are never read. Reads and stores outside an object are \<^const>\<open>None\<close>.

  The abstract specification of the set is an association list updated by \<^const>\<open>AList.update\<close>
  (replace in place, or append), and through it a finite map; the locale \<open>field_store\<close> states the
  contract its clients use.
\<close>

section \<open>Data\<close>

record jp_field =
  key_len :: nat
  val_len :: nat
  key_off :: nat \<comment> \<open>\<^verbatim>\<open>key\<close>, as an offset into the storage behind the struct\<close>
  val_off :: nat \<comment> \<open>\<^verbatim>\<open>val\<close>, likewise\<close>
  storage :: buffer

record jp_field_set =
  set_cap :: nat
  set_fields :: "jp_field list"

abbreviation set_len :: "jp_field_set \<Rightarrow> nat" where
  "set_len s \<equiv> length (set_fields s)"

text \<open>The \<open>key_len\<close> bytes at \<open>key\<close> and the \<open>val_len\<close> bytes at \<open>val\<close>.\<close>

definition field_key :: "jp_field \<Rightarrow> byte list" where
  "field_key f = take (key_len f) (drop (key_off f) (storage f))"

definition field_val :: "jp_field \<Rightarrow> byte list" where
  "field_val f = take (val_len f) (drop (val_off f) (storage f))"

section \<open>Operations\<close>

fun is_valid_field_key :: "byte list \<Rightarrow> bool" where
  "is_valid_field_key [] = True"
| "is_valid_field_key (c # cs) =
     (if (c \<ge> 97 \<and> c \<le> 122) \<or> (c \<ge> 65 \<and> c \<le> 90) \<or> (c \<ge> 48 \<and> c \<le> 57) \<or> c = 45 \<or> c = 95
      then is_valid_field_key cs else False)"

text \<open>
  \<open>kv\<close> is a C string, so the object read by the \<^verbatim>\<open>memcpy\<close> is its characters and the NUL.
\<close>

definition create_field :: "(nat \<Rightarrow> buffer) \<Rightarrow> cstring \<Rightarrow> nat \<Rightarrow> nat \<Rightarrow> jp_field option" where
  "create_field junk kv klen vlen =
     (if klen + vlen + 2 \<le> length (kv @ [0])
      then do {
        key \<leftarrow> new_object junk (klen + vlen + 2);
        key \<leftarrow> buf_copy key 0 (take (klen + vlen + 2) (kv @ [0]));
        key \<leftarrow> buf_set key klen 0;
        key \<leftarrow> buf_set key (klen + vlen + 1) 0;
        Some \<lparr>key_len = klen, val_len = vlen, key_off = 0, val_off = klen + 1, storage = key\<rparr>
      }
      else None)"

text \<open>\<^verbatim>\<open>strchr\<close>, as the distance of the first occurrence from the start.\<close>

fun strchr :: "cstring \<Rightarrow> byte \<Rightarrow> nat option" where
  "strchr [] c = None"
| "strchr (x # xs) c = (if x = c then Some 0 else map_option Suc (strchr xs c))"

text \<open>The result is the error code and the new field, \<^const>\<open>None\<close> for a null pointer.\<close>

definition crete_field_from_kv ::
  "(nat \<Rightarrow> buffer) \<Rightarrow> cstring \<Rightarrow> (jp_errno \<times> jp_field option) option"
where
  "crete_field_from_kv junk kv =
     (case strchr kv 61 of
        None \<Rightarrow> Some (JP_EINV_FIELD_KEY, None)
      | Some eq \<Rightarrow>
          if eq = 0 then Some (JP_EINV_FIELD_KEY, None)
          else
            let klen = eq; vlen = length kv - klen - 1
            in if klen = 0 \<or> klen > JP_CONF_FIELD_MAX_KEY then Some (JP_EINV_FIELD_KEY, None)
               else if vlen = 0 \<or> vlen > JP_CONF_FIELD_MAX_VAL then Some (JP_EINV_FIELD_VAL, None)
               else if \<not> is_valid_field_key (take eq kv) then Some (JP_EINV_FIELD_KEY, None)
               else do { f \<leftarrow> create_field junk kv klen vlen; Some (JP_OK, Some f) })"

definition jp_field_set_create :: "nat \<Rightarrow> jp_field_set" where
  "jp_field_set_create cap = \<lparr>set_cap = cap, set_fields = []\<rparr>"

text \<open>
  The loop of \<open>jp_field_set_add\<close>: the first slot with an equal key gets the new field (the old one
  is freed); \<^const>\<open>None\<close> when the loop ends without one.
\<close>

fun replace_field :: "jp_field \<Rightarrow> jp_field list \<Rightarrow> jp_field list option" where
  "replace_field new_field [] = None"
| "replace_field new_field (field # fs) =
     (if key_len field = key_len new_field \<and> field_key field = field_key new_field
      then Some (new_field # fs)
      else map_option (Cons field) (replace_field new_field fs))"

definition jp_field_set_add ::
  "(nat \<Rightarrow> buffer) \<Rightarrow> jp_field_set \<Rightarrow> cstring \<Rightarrow> (jp_errno \<times> jp_field_set) option"
where
  "jp_field_set_add junk s kv =
     (if set_len s = set_cap s then Some (JP_ETOO_MANY_FIELD, s)
      else do {
        (err, new_field) \<leftarrow> crete_field_from_kv junk kv;
        if err \<noteq> JP_OK then Some (err, s)
        else (case new_field of
           None \<Rightarrow> None
         | Some f \<Rightarrow>
             (case replace_field f (set_fields s) of
                Some fs \<Rightarrow> Some (JP_OK, s\<lparr>set_fields := fs\<rparr>)
              | None \<Rightarrow>
                  if set_len s < set_cap s then Some (JP_OK, s\<lparr>set_fields := set_fields s @ [f]\<rparr>)
                  else None))
      })"

section \<open>Parsing one argument\<close>

text \<open>The specification of the parser: where the argument splits, and why it is refused.\<close>

definition kv_parse :: "cstring \<Rightarrow> jp_errno + (byte list \<times> byte list)" where
  "kv_parse kv =
     (let k = takeWhile (\<lambda>c. c \<noteq> 61) kv; v = drop (length k + 1) kv
      in if 61 \<notin> set kv \<or> k = [] \<or> length k > 32 then Inl JP_EINV_FIELD_KEY
         else if v = [] \<or> length v > 512 then Inl JP_EINV_FIELD_VAL
         else if \<not> (\<forall>c \<in> set k. 97 \<le> c \<and> c \<le> 122 \<or> 65 \<le> c \<and> c \<le> 90 \<or> 48 \<le> c \<and> c \<le> 57 \<or>
                          c = 45 \<or> c = 95) then Inl JP_EINV_FIELD_KEY
         else Inr (k, v))"

lemma is_valid_field_key_iff:
  "is_valid_field_key cs \<longleftrightarrow>
     (\<forall>c \<in> set cs. 97 \<le> c \<and> c \<le> 122 \<or> 65 \<le> c \<and> c \<le> 90 \<or> 48 \<le> c \<and> c \<le> 57 \<or> c = 45 \<or> c = 95)"
  by (induction cs) auto

lemma strchr_None: "strchr s c = None \<longleftrightarrow> c \<notin> set s"
  by (induction s) auto

lemma strchr_Some: "strchr s c = Some i \<Longrightarrow> i < length s \<and> s ! i = c \<and> take i s = takeWhile (\<lambda>x. x \<noteq> c) s"
proof (induction s arbitrary: i)
  case Nil
  then show ?case by simp
next
  case (Cons x xs)
  then show ?case by (cases i) (auto split: if_splits)
qed

text \<open>A field is well formed when its lengths, its key and its storage agree.\<close>

definition field_ok :: "jp_field \<Rightarrow> bool" where
  "field_ok f \<longleftrightarrow>
     0 < key_len f \<and> key_len f \<le> JP_CONF_FIELD_MAX_KEY \<and>
     0 < val_len f \<and> val_len f \<le> JP_CONF_FIELD_MAX_VAL \<and>
     key_off f = 0 \<and> val_off f = key_len f + 1 \<and>
     length (storage f) = key_len f + val_len f + 2 \<and>
     storage f ! key_len f = 0 \<and> storage f ! (key_len f + val_len f + 1) = 0 \<and>
     is_valid_field_key (field_key f)"

lemma field_ok_lengths [simp]:
  "field_ok f \<Longrightarrow> length (field_key f) = key_len f"
  "field_ok f \<Longrightarrow> length (field_val f) = val_len f"
  by (auto simp: field_ok_def field_key_def field_val_def)

lemma create_field_ok:
  assumes kv: "kv = k @ 61 # v"
    and k: "0 < length k" "length k \<le> 32" "is_valid_field_key k" and v: "0 < length v" "length v \<le> 512"
  shows "\<exists>f. create_field junk kv (length k) (length v) = Some f \<and>
             field_ok f \<and> field_key f = k \<and> field_val f = v"
proof -
  have upd: "(k @ 0 # v @ [0])[Suc (length k + length v) := 0] = k @ 0 # v @ [0]"
    by (simp add: list_update_append)
  let ?f = "\<lparr>key_len = length k, val_len = length v, key_off = 0, val_off = length k + 1,
             storage = k @ 0 # v @ [0]\<rparr>"
  have "create_field junk kv (length k) (length v) = Some ?f"
    by (simp add: create_field_def buf_copy_def buf_set_def kv upd)
  moreover have "field_key ?f = k" "field_val ?f = v" by (simp_all add: field_key_def field_val_def)
  ultimately show ?thesis
    using k v by (auto simp: field_ok_def nth_append jp_conf_defs)
qed

text \<open>The parser implements its specification, and never reads or stores out of bounds.\<close>

lemma crete_field_from_kv_spec:
  "case kv_parse kv of
           Inl e \<Rightarrow> crete_field_from_kv junk kv = Some (e, None) \<and> e \<noteq> JP_OK
         | Inr (k, v) \<Rightarrow> \<exists>f. crete_field_from_kv junk kv = Some (JP_OK, Some f) \<and> field_ok f \<and>
                           field_key f = k \<and> field_val f = v \<and> kv = k @ 61 # v"
proof (cases "strchr kv 61")
  case None
  then show ?thesis
    using strchr_None [of kv 61] by (simp add: kv_parse_def crete_field_from_kv_def Let_def)
next
  case (Some i)
  define k v where "k = takeWhile (\<lambda>c. c \<noteq> 61) kv" and "v = drop (length k + 1) kv"
  have i: "i < length kv" "kv ! i = 61" "take i kv = k" using strchr_Some [OF Some] by (auto simp: k_def)
  then have len: "length k = i" "length v = length kv - i - 1" by (auto simp: v_def)
  have kv: "kv = k @ 61 # v"
    using i len id_take_nth_drop [OF i(1)] by (auto simp: v_def)
  have "61 \<in> set kv" using i by (metis nth_mem)
  then have parse: "kv_parse kv =
      (if k = [] \<or> length k > 32 then Inl JP_EINV_FIELD_KEY
       else if v = [] \<or> length v > 512 then Inl JP_EINV_FIELD_VAL
       else if \<not> is_valid_field_key k then Inl JP_EINV_FIELD_KEY else Inr (k, v))"
    unfolding kv_parse_def Let_def k_def [symmetric] v_def [symmetric]
    by (simp add: is_valid_field_key_iff)
  have run: "crete_field_from_kv junk kv =
      (if k = [] \<or> length k > 32 then Some (JP_EINV_FIELD_KEY, None)
       else if v = [] \<or> length v > 512 then Some (JP_EINV_FIELD_VAL, None)
       else if \<not> is_valid_field_key k then Some (JP_EINV_FIELD_KEY, None)
       else do { f \<leftarrow> create_field junk kv (length k) (length v); Some (JP_OK, Some f) })"
    using i len by (auto simp: crete_field_from_kv_def Some Let_def jp_conf_defs)
  show ?thesis
    using create_field_ok [OF kv, of junk] kv unfolding parse run by auto
qed

section \<open>The set of fields\<close>

text \<open>The abstract view: keys and values in slot order.\<close>

definition set_assoc :: "jp_field_set \<Rightarrow> (byte list \<times> byte list) list" where
  "set_assoc s = map (\<lambda>f. (field_key f, field_val f)) (set_fields s)"

definition set_lookup :: "jp_field_set \<Rightarrow> byte list \<Rightarrow> byte list option" where
  "set_lookup s k = map_of (set_assoc s) k"

definition set_ok :: "jp_field_set \<Rightarrow> bool" where
  "set_ok s \<longleftrightarrow> set_len s \<le> set_cap s \<and> list_all field_ok (set_fields s) \<and>
               distinct (map fst (set_assoc s))"

lemma length_set_assoc [simp]: "length (set_assoc s) = set_len s"
  by (simp add: set_assoc_def)

lemma replace_field_update:
  assumes "list_all field_ok fs" "field_ok f"
  shows "case replace_field f fs of
           None \<Rightarrow> field_key f \<notin> field_key ` set fs
         | Some fs' \<Rightarrow> length fs' = length fs \<and> list_all field_ok fs' \<and> field_key f \<in> field_key ` set fs \<and>
             map (\<lambda>f. (field_key f, field_val f)) fs' =
             AList.update (field_key f) (field_val f) (map (\<lambda>f. (field_key f, field_val f)) fs)"
  using assms(1)
proof (induction fs)
  case Nil
  then show ?case by simp
next
  case (Cons g fs)
  have "key_len g = key_len f" if "field_key g = field_key f"
    using arg_cong [OF that, of length] Cons.prems assms(2) by simp
  with Cons assms(2) show ?case by (auto split: option.splits)
qed

lemma replace_assoc:
  assumes "set_ok s" "field_ok f"
  shows "case replace_field f (set_fields s) of
           None \<Rightarrow> field_key f \<notin> fst ` set (set_assoc s)
         | Some fs' \<Rightarrow> length fs' = set_len s \<and> list_all field_ok fs' \<and>
             set_assoc (s\<lparr>set_fields := fs'\<rparr>) =
             AList.update (field_key f) (field_val f) (set_assoc s)"
proof -
  have "fst ` set (set_assoc s) = field_key ` set (set_fields s)" by (force simp: set_assoc_def)
  with replace_field_update [of "set_fields s" f] assms show ?thesis
    by (auto simp: set_ok_def set_assoc_def split: option.splits)
qed

lemma update_append: "k \<notin> fst ` set al \<Longrightarrow> AList.update k v al = al @ [(k, v)]"
  by (induction al) auto

lemma length_update_le: "length (AList.update k v al) \<le> Suc (length al)"
  by (induction al) auto

text \<open>
  Every branch of \<open>jp_field_set_add\<close>: a full set refuses, even a key it already holds; a malformed
  argument is refused with the parser's error; a well-formed one is stored, in the slot of its key
  if there is one and in a new last slot otherwise.
\<close>

lemma jp_field_set_add_cases:
  assumes ok: "set_ok s"
  shows "if set_len s = set_cap s then jp_field_set_add junk s kv = Some (JP_ETOO_MANY_FIELD, s)
         else case kv_parse kv of
           Inl e \<Rightarrow> jp_field_set_add junk s kv = Some (e, s) \<and> e \<noteq> JP_OK
         | Inr (k, v) \<Rightarrow> \<exists>s'. jp_field_set_add junk s kv = Some (JP_OK, s') \<and> set_ok s' \<and>
             set_cap s' = set_cap s \<and> set_assoc s' = AList.update k v (set_assoc s)"
proof (cases "set_len s = set_cap s")
  case True
  then show ?thesis by (simp add: jp_field_set_add_def)
next
  case False
  with ok have room: "set_len s < set_cap s" by (simp add: set_ok_def)
  show ?thesis
  proof (cases "kv_parse kv")
    case (Inl e)
    with crete_field_from_kv_spec [of junk kv] False show ?thesis
      by (simp add: jp_field_set_add_def)
  next
    case (Inr kv')
    obtain k v where kv': "kv' = (k, v)" by (cases kv')
    obtain f where f: "crete_field_from_kv junk kv = Some (JP_OK, Some f)" "field_ok f"
      "field_key f = k" "field_val f = v"
      using crete_field_from_kv_spec [of junk kv] by (auto simp: Inr kv')
    note rep = replace_assoc [OF ok f(2), unfolded f(3,4)]
    show ?thesis
    proof (cases "replace_field f (set_fields s)")
      case None
      with rep have "set_assoc (s\<lparr>set_fields := set_fields s @ [f]\<rparr>) = AList.update k v (set_assoc s)"
        using f(3,4) by (simp add: update_append) (simp add: set_assoc_def)
      with None rep room ok f False show ?thesis
        by (auto simp: jp_field_set_add_def Inr kv' set_ok_def distinct_update)
    next
      case (Some fs')
      with rep ok f False show ?thesis
        by (auto simp: jp_field_set_add_def Inr kv' set_ok_def distinct_update)
    qed
  qed
qed

section \<open>The contract of the set\<close>

text \<open>
  What a client of the set relies on: a bounded map from keys to values whose \<open>add\<close> either refuses
  and changes nothing, or updates one key. The options of the command line are added in order, and
  the first refusal ends the run.
\<close>

fun add_all ::
  "('s \<Rightarrow> cstring \<Rightarrow> (jp_errno \<times> 's) option) \<Rightarrow> 's \<Rightarrow> cstring list \<Rightarrow> (jp_errno \<times> 's) option"
where
  "add_all add s [] = Some (JP_OK, s)"
| "add_all add s (kv # kvs) =
     do { (err, s') \<leftarrow> add s kv; if err \<noteq> JP_OK then Some (err, s') else add_all add s' kvs }"

definition kv_good :: "cstring \<Rightarrow> bool" where
  "kv_good kv \<longleftrightarrow> (case kv_parse kv of Inl _ \<Rightarrow> False | Inr _ \<Rightarrow> True)"

definition kv_pair :: "cstring \<Rightarrow> byte list \<times> byte list" where
  "kv_pair kv = (case kv_parse kv of Inl _ \<Rightarrow> ([], []) | Inr p \<Rightarrow> p)"

locale field_store =
  fixes add :: "'s \<Rightarrow> cstring \<Rightarrow> (jp_errno \<times> 's) option"
    and look :: "'s \<Rightarrow> byte list \<Rightarrow> byte list option"
    and count cap :: "'s \<Rightarrow> nat"
    and invar :: "'s \<Rightarrow> bool"
  assumes add_full: "invar s \<Longrightarrow> count s = cap s \<Longrightarrow> add s kv = Some (JP_ETOO_MANY_FIELD, s)"
    and add_bad: "invar s \<Longrightarrow> count s < cap s \<Longrightarrow> kv_parse kv = Inl e \<Longrightarrow> add s kv = Some (e, s) \<and> e \<noteq> JP_OK"
    and add_good: "invar s \<Longrightarrow> count s < cap s \<Longrightarrow> kv_parse kv = Inr (k, v) \<Longrightarrow>
      \<exists>s'. add s kv = Some (JP_OK, s') \<and> invar s' \<and> cap s' = cap s \<and> look s' = (look s)(k \<mapsto> v) \<and>
           count s' \<le> Suc (count s)"
    and count_le: "invar s \<Longrightarrow> count s \<le> cap s"
begin

lemma add_keeps_invar:
  assumes "invar s"
  shows "\<exists>e s'. add s kv = Some (e, s') \<and> invar s' \<and> cap s' = cap s \<and> (e \<noteq> JP_OK \<longrightarrow> s' = s)"
proof (cases "count s = cap s")
  case True
  then show ?thesis using add_full assms by auto
next
  case False
  with count_le [OF assms] have "count s < cap s" by simp
  note room = this
  show ?thesis
  proof (cases "kv_parse kv")
    case (Inl e)
    with add_bad [OF assms room] assms show ?thesis by auto
  next
    case (Inr p)
    with add_good [OF assms room, of kv "fst p" "snd p"] show ?thesis by auto
  qed
qed

lemma add_all_keeps_invar:
  "invar s \<Longrightarrow> \<exists>e s'. add_all add s kvs = Some (e, s') \<and> invar s' \<and> cap s' = cap s"
proof (induction kvs arbitrary: s)
  case Nil
  then show ?case by simp
next
  case (Cons kv kvs)
  obtain e s1 where s1: "add s kv = Some (e, s1)" "invar s1" "cap s1 = cap s"
    using add_keeps_invar [OF Cons.prems] by metis
  then show ?case using Cons.IH [OF s1(2)] by auto
qed

lemma add_all_succeeds:
  "invar s \<Longrightarrow> count s + length kvs \<le> cap s \<Longrightarrow> list_all kv_good kvs \<Longrightarrow>
   \<exists>s'. add_all add s kvs = Some (JP_OK, s') \<and> invar s' \<and> cap s' = cap s \<and>
        look s' = look s ++ map_of (rev (map kv_pair kvs))"
proof (induction kvs arbitrary: s)
  case Nil
  then show ?case by simp
next
  case (Cons kv kvs)
  from Cons.prems(3) obtain k v where kv: "kv_parse kv = Inr (k, v)"
    by (auto simp: kv_good_def split: sum.splits)
  obtain s1 where s1: "add s kv = Some (JP_OK, s1)" "invar s1" "cap s1 = cap s"
    "look s1 = (look s)(k \<mapsto> v)" "count s1 \<le> Suc (count s)"
    using add_good [OF Cons.prems(1) _ kv] Cons.prems(2) by auto
  obtain s' where "add_all add s1 kvs = Some (JP_OK, s')" "invar s'" "cap s' = cap s1"
    "look s' = look s1 ++ map_of (rev (map kv_pair kvs))"
    using Cons.IH [OF s1(2)] s1(3,5) Cons.prems(2,3) by auto
  moreover have "kv_pair kv = (k, v)" by (simp add: kv_pair_def kv)
  ultimately show ?case using s1 by simp
qed

end

interpretation fields: field_store "jp_field_set_add junk" set_lookup set_len set_cap set_ok
  for junk
proof
  fix s kv assume ok: "set_ok s"
  note branches = jp_field_set_add_cases [OF ok]
  show "jp_field_set_add junk s kv = Some (JP_ETOO_MANY_FIELD, s)" if "set_len s = set_cap s"
    using branches [of junk kv] that by simp
  show "jp_field_set_add junk s kv = Some (e, s) \<and> e \<noteq> JP_OK"
    if "set_len s < set_cap s" "kv_parse kv = Inl e" for e
    using branches [of junk kv] that by simp
  show "\<exists>s'. jp_field_set_add junk s kv = Some (JP_OK, s') \<and> set_ok s' \<and> set_cap s' = set_cap s \<and>
      set_lookup s' = (set_lookup s)(k \<mapsto> v) \<and> set_len s' \<le> Suc (set_len s)"
    if "set_len s < set_cap s" "kv_parse kv = Inr (k, v)" for k v
    using branches [of junk kv] that
    by (auto simp: set_lookup_def update_conv' fun_eq_iff simp flip: length_set_assoc
        intro: length_update_le)
qed (simp add: set_ok_def)

section \<open>Properties\<close>

text \<open>
  C24: Parsing a \<open>key=value\<close> argument reads and stores only inside its objects, whatever the
  argument. It refuses, with the key or the value error, exactly the arguments the specification
  refuses, and otherwise makes a well-formed field whose key is the part before the first \<open>=\<close>
  (1 to 32 of the allowed characters) and whose value is all the rest (1 to 512 bytes), so that
  the key, \<open>=\<close> and the value give the argument back.
\<close>

theorem field_parse_spec:
  "case kv_parse kv of
     Inl e \<Rightarrow> crete_field_from_kv junk kv = Some (e, None) \<and> e \<noteq> JP_OK
   | Inr (k, v) \<Rightarrow> \<exists>f. crete_field_from_kv junk kv = Some (JP_OK, Some f) \<and> field_ok f \<and>
                     field_key f = k \<and> field_val f = v \<and> kv = k @ 61 # v"
  by (rule crete_field_from_kv_spec)

text \<open>
  Every branch of \<open>jp_field_set_add\<close> on a well-formed set: a full set answers
  \<open>JP_ETOO_MANY_FIELD\<close> without looking at the argument, so that even a key it holds cannot be
  replaced; a malformed argument leaves the set alone; otherwise the set stays well formed and its
  association list is updated at the key, in place or at the end.
\<close>

theorem field_set_add_branches:
  assumes "set_ok s"
  shows "if set_len s = set_cap s then jp_field_set_add junk s kv = Some (JP_ETOO_MANY_FIELD, s)
         else case kv_parse kv of
           Inl e \<Rightarrow> jp_field_set_add junk s kv = Some (e, s) \<and> e \<noteq> JP_OK
         | Inr (k, v) \<Rightarrow> \<exists>s'. jp_field_set_add junk s kv = Some (JP_OK, s') \<and> set_ok s' \<and>
             set_cap s' = set_cap s \<and> set_assoc s' = AList.update k v (set_assoc s)"
  by (rule jp_field_set_add_cases [OF assms])

theorem field_set_add_branches_witness:
  "set_ok (jp_field_set_create 2) \<and>
   (\<exists>s'. jp_field_set_add (\<lambda>_. []) (jp_field_set_create 2) (bytes ''a=1'') = Some (JP_OK, s') \<and>
         set_ok s' \<and> set_assoc s' = [(bytes ''a'', bytes ''1'')])"
proof -
  have ok: "set_ok (jp_field_set_create 2)"
    by (simp add: set_ok_def jp_field_set_create_def set_assoc_def)
  have "kv_parse (bytes ''a=1'') = Inr (bytes ''a'', bytes ''1'')"
    by (simp add: kv_parse_def bytes_def)
  with field_set_add_branches [OF ok, of "\<lambda>_. []" "bytes ''a=1''"] ok show ?thesis
    by (auto simp: jp_field_set_create_def set_assoc_def)
qed

text \<open>
  C18: Adding the arguments of the command line, in order, to a new set: when there are no more of
  them than the capacity and each parses, every addition succeeds, the set stays well formed, and
  each key maps to the value of the last argument that gave it.
\<close>

theorem field_set_last_value_wins:
  assumes "length kvs \<le> cap" "list_all kv_good kvs"
  shows "\<exists>s'. add_all (jp_field_set_add junk) (jp_field_set_create cap) kvs = Some (JP_OK, s') \<and>
              set_ok s' \<and> set_lookup s' = map_of (rev (map kv_pair kvs))"
proof -
  have "set_ok (jp_field_set_create cap)"
    by (simp add: set_ok_def jp_field_set_create_def set_assoc_def)
  moreover have "set_lookup (jp_field_set_create cap) = Map.empty"
    by (simp add: fun_eq_iff set_lookup_def set_assoc_def jp_field_set_create_def)
  ultimately show ?thesis
    using fields.add_all_succeeds [of "jp_field_set_create cap" kvs junk] assms
    by (auto simp: jp_field_set_create_def)
qed

theorem field_set_last_value_wins_witness:
  "\<exists>s'. add_all (jp_field_set_add (\<lambda>_. [])) (jp_field_set_create 32) [bytes ''a=1'', bytes ''a=2''] =
          Some (JP_OK, s') \<and> set_lookup s' (bytes ''a'') = Some (bytes ''2'')"
proof -
  have "list_all kv_good [bytes ''a=1'', bytes ''a=2'']"
    by (simp add: kv_good_def kv_parse_def bytes_def)
  moreover have "kv_pair (bytes ''a=2'') = (bytes ''a'', bytes ''2'')"
    by (simp add: kv_pair_def kv_parse_def bytes_def)
  ultimately show ?thesis
    using field_set_last_value_wins [of "[bytes ''a=1'', bytes ''a=2'']" 32 "\<lambda>_. []"] by auto
qed

end
