(* ===== verification/JP_Raise.thy ===== *)
theory JP_Raise
  imports JP_Errno
begin

text \<open>
  The macros \<open>JP_ERRNO_RAISE\<close>, \<open>JP_ERRNO_RAISEF\<close> and \<open>JP_ERRNO_RAISE_POSIX\<close> of \<^verbatim>\<open>include/jp_errno.h\<close> as values: what a
  function raises is part of its result, and \<open>do_raise\<close> is the call of \<open>jp_errno_ctx_set\<close> or
  \<open>jp_errno_ctx_setf\<close> behind the macro, on the error context of the thread.
\<close>

section \<open>Definitions\<close>

record raised =
  rs_err :: jp_errno
  rs_src :: jp_errno_src
  rs_sys :: int
  rs_msg :: "cstring option" \<comment> \<open>the rendered message of the formatted variants\<close>
  rs_file :: cstring
  rs_line :: int

definition JP_ERRNO_RAISE :: "cstring \<Rightarrow> int \<Rightarrow> jp_errno \<Rightarrow> raised" where
  "JP_ERRNO_RAISE file line err =
     \<lparr>rs_err = err, rs_src = JP_ERRNO_SRC_NONE, rs_sys = 0, rs_msg = None, rs_file = file, rs_line = line\<rparr>"

definition JP_ERRNO_RAISEF :: "cstring \<Rightarrow> int \<Rightarrow> jp_errno \<Rightarrow> cstring \<Rightarrow> raised" where
  "JP_ERRNO_RAISEF file line err msg =
     \<lparr>rs_err = err, rs_src = JP_ERRNO_SRC_NONE, rs_sys = 0, rs_msg = Some msg, rs_file = file, rs_line = line\<rparr>"

definition JP_ERRNO_RAISE_POSIX :: "cstring \<Rightarrow> int \<Rightarrow> jp_errno \<Rightarrow> int \<Rightarrow> raised" where
  "JP_ERRNO_RAISE_POSIX file line err code =
     \<lparr>rs_err = err, rs_src = JP_ERRNO_SRC_POSIX, rs_sys = code, rs_msg = None, rs_file = file, rs_line = line\<rparr>"

definition do_raise :: "raised \<Rightarrow> global_errno_ctx \<Rightarrow> global_errno_ctx option" where
  "do_raise r ctx =
     (case rs_msg r of
        None \<Rightarrow> Some (snd (jp_errno_ctx_set (rs_err r) (rs_src r) (rs_sys r) (rs_file r) (rs_line r) ctx))
      | Some msg \<Rightarrow>
          map_option snd (jp_errno_ctx_setf (rs_err r) (rs_src r) (rs_sys r) (rs_file r) (rs_line r) msg ctx))"

fun do_raises :: "raised list \<Rightarrow> global_errno_ctx \<Rightarrow> global_errno_ctx option" where
  "do_raises [] ctx = Some ctx"
| "do_raises (r # rs) ctx = do { ctx \<leftarrow> do_raise r ctx; do_raises rs ctx }"

text \<open>The value that the macro returns, 0 when nothing was raised.\<close>

definition raised_code :: "raised option \<Rightarrow> jp_errno" where
  "raised_code r = (case r of None \<Rightarrow> JP_OK | Some x \<Rightarrow> rs_err x)"

text \<open>A quoted argument in a message.\<close>

definition quoted :: "cstring \<Rightarrow> cstring" where
  "quoted s = [34] @ s @ [34]"

lemmas raise_defs = JP_ERRNO_RAISE_def JP_ERRNO_RAISEF_def JP_ERRNO_RAISE_POSIX_def

section \<open>What a raise leaves\<close>

definition raised_ok :: "raised \<Rightarrow> bool" where
  "raised_ok r \<longleftrightarrow> int32 (rs_sys r) \<and> int32 (rs_line r) \<and> 0 \<notin> set (rs_file r) \<and>
     (case rs_msg r of None \<Rightarrow> True | Some m \<Rightarrow> 0 \<notin> set m)"

text \<open>The message as it is kept: the first 127 bytes.\<close>

definition kept_message :: "raised \<Rightarrow> cstring" where
  "kept_message r = (case rs_msg r of None \<Rightarrow> [] | Some m \<Rightarrow> take 127 m)"

lemma snprintf_stack:
  assumes "length b = ERROR_MSG_MAX_LEN" "0 \<notin> set m"
  shows "\<exists>b'. snprintf b 0 ERROR_MSG_MAX_LEN m = Some (b', length m) \<and> length b' = ERROR_MSG_MAX_LEN \<and>
     0 \<in> set b' \<and> cstr_of b' = take 127 m"
proof -
  let ?b = "take 127 m @ 0 # drop (Suc (min (length m) 127)) b"
  have "buf_copy b 0 (take 127 m @ [0]) = Some ?b" "length ?b = ERROR_MSG_MAX_LEN"
    using assms(1) by (auto simp: buf_copy_def ERROR_MSG_MAX_LEN_def)
  moreover have "cstr_of ?b = take 127 m"
    using assms(2) by (intro cstr_of_stop) (auto dest: in_set_takeD)
  ultimately show ?thesis by (auto simp: snprintf_def ERROR_MSG_MAX_LEN_def)
qed

lemma do_raise_ok:
  assumes "errno_ctx_ok ctx" "raised_ok r"
  shows "\<exists>ctx'. do_raise r ctx = Some ctx' \<and> errno_ctx_ok ctx' \<and> ctx_err ctx' = rs_err r \<and> ctx_src ctx' = rs_src r \<and>
     ctx_sys_err ctx' = rs_sys r \<and> ctx_file ctx' = rs_file r \<and> ctx_line ctx' = rs_line r \<and>
     cstr_of (ctx_stack ctx') = kept_message r"
proof -
  have len: "length ((ctx_stack ctx)[0 := 0]) = ERROR_MSG_MAX_LEN" using assms(1) by (simp add: errno_ctx_ok_def)
  have "cstr_of ((ctx_stack ctx)[0 := 0]) = []"
    using assms(1) by (cases "ctx_stack ctx") (auto simp: errno_ctx_ok_def cstr_of_def)
  moreover have "0 \<in> set ((ctx_stack ctx)[0 := 0])"
    using assms(1) by (auto simp: errno_ctx_ok_def ERROR_MSG_MAX_LEN_def intro: set_update_memI)
  ultimately have none: ?thesis if "rs_msg r = None"
    using assms that
    by (auto simp: do_raise_def jp_errno_ctx_set_def raised_ok_def errno_ctx_ok_def kept_message_def)
  have "?thesis" if m: "rs_msg r = Some m" for m
  proof -
    have "0 \<notin> set m" using assms(2) m by (simp add: raised_ok_def)
    from snprintf_stack [OF len this] obtain b where
      "snprintf ((ctx_stack ctx)[0 := 0]) 0 ERROR_MSG_MAX_LEN m = Some (b, length m)" "length b = ERROR_MSG_MAX_LEN"
      "0 \<in> set b" "cstr_of b = take 127 m" by blast
    with assms m show ?thesis
      by (simp add: do_raise_def jp_errno_ctx_setf_def jp_errno_ctx_set_def raised_ok_def errno_ctx_ok_def
          kept_message_def Let_def)
  qed
  with none show ?thesis by (cases "rs_msg r") blast+
qed

text \<open>The last raise counts.\<close>

lemma do_raises_ok:
  assumes "errno_ctx_ok ctx" "list_all raised_ok rs"
  shows "\<exists>ctx'. do_raises rs ctx = Some ctx' \<and> errno_ctx_ok ctx' \<and>
     (if rs = [] then ctx' = ctx
      else ctx_err ctx' = rs_err (last rs) \<and> ctx_src ctx' = rs_src (last rs) \<and> ctx_sys_err ctx' = rs_sys (last rs) \<and>
           ctx_file ctx' = rs_file (last rs) \<and> ctx_line ctx' = rs_line (last rs) \<and>
           cstr_of (ctx_stack ctx') = kept_message (last rs))"
  using assms
proof (induction rs arbitrary: ctx)
  case Nil
  then show ?case by simp
next
  case (Cons r rs)
  obtain c1 where "do_raise r ctx = Some c1" "errno_ctx_ok c1" "ctx_err c1 = rs_err r" "ctx_src c1 = rs_src r"
    "ctx_sys_err c1 = rs_sys r" "ctx_file c1 = rs_file r" "ctx_line c1 = rs_line r"
    "cstr_of (ctx_stack c1) = kept_message r"
    using do_raise_ok [OF Cons.prems(1)] Cons.prems(2) by auto
  with Cons.IH [of c1] Cons.prems(2) show ?case by auto
qed

section \<open>Errors of system calls\<close>

text \<open>
  The values of \<^verbatim>\<open>errno\<close> that the code tells apart, and the others. The numbers are those of Linux.
\<close>

datatype sys_error = EINTR | EAGAIN | EWOULDBLOCK | Errno "32 word"

definition jp_errno_eagain :: "sys_error \<Rightarrow> bool" where
  "jp_errno_eagain e \<longleftrightarrow> e = EAGAIN \<or> e = EWOULDBLOCK"

fun sys_code :: "sys_error \<Rightarrow> int" where
  "sys_code EINTR = 4"
| "sys_code EAGAIN = 11"
| "sys_code EWOULDBLOCK = 11"
| "sys_code (Errno n) = sint n"

text \<open>What a function of the program returns when it can raise: an error that it raised, or a code.\<close>

type_synonym answer = "raised + jp_errno"

definition answer_code :: "answer \<Rightarrow> jp_errno" where
  "answer_code a = (case a of Inl r \<Rightarrow> rs_err r | Inr err \<Rightarrow> err)"

text \<open>An error raised for a failed system call, which can be reported.\<close>

definition posix_failure :: "jp_errno \<Rightarrow> raised \<Rightarrow> bool" where
  "posix_failure err r \<longleftrightarrow> rs_err r = err \<and> rs_src r = JP_ERRNO_SRC_POSIX \<and> rs_msg r = None \<and> raised_ok r"

lemma answer_code_simps [simp]: "answer_code (Inl r) = rs_err r" "answer_code (Inr err) = err"
  by (simp_all add: answer_code_def)

lemma int32_numeral [simp]: "int32 (numeral n) \<longleftrightarrow> numeral n < (2147483648 :: int)"
  by (simp add: int32_def)

lemma int32_sint [simp]: "int32 (sint (n :: 32 word))"
  using sint_ge [of n] sint_lt [of n] by (simp add: int32_def)

lemma int32_sys_code [simp]: "int32 (sys_code e)"
  by (cases e) simp_all

lemma posix_failure_raise [simp]:
  "posix_failure err (JP_ERRNO_RAISE_POSIX file line err' code) \<longleftrightarrow>
     err' = err \<and> int32 line \<and> int32 code \<and> 0 \<notin> set file"
  by (auto simp: posix_failure_def raised_ok_def raise_defs)

lemma posix_failure_err: "posix_failure err r \<Longrightarrow> rs_err r = err"
  by (simp add: posix_failure_def)

end
