(* ===== verification/JP_Command.thy ===== *)
theory JP_Command
  imports JP_Raise
begin

text \<open>
  \<^verbatim>\<open>src/config.c\<close>, \<^verbatim>\<open>include/jp_command.h\<close> and \<^verbatim>\<open>src/command.c\<close>: the global flags and the dispatch on
  the first argument. A handler is a function from the global flags and the arguments that are left
  to its error code, the errors it raises in order, and the lines it prints on the standard output,
  \<^const>\<open>None\<close> if it does something undefined. \<open>JP_LOG_INFO\<close> prints a line, \<open>JP_LOG_MSG\<close> one unless the flag \<open>silent\<close> is set. The version
  is put in by the build and is a parameter.
\<close>

section \<open>Configuration\<close>

record jp_conf =
  conf_silent :: bool
  conf_no_color :: bool

definition jp_config_default :: jp_conf where
  "jp_config_default = \<lparr>conf_silent = False, conf_no_color = False\<rparr>"

text \<open>\<open>tty\<close>: the standard error is a terminal; \<open>no_color\<close>: the value of the environment variable.\<close>

definition jp_conf_initialize :: "bool \<Rightarrow> cstring option \<Rightarrow> jp_conf \<Rightarrow> jp_conf" where
  "jp_conf_initialize tty no_color conf =
     (if \<not> tty then conf\<lparr>conf_no_color := True\<rparr>
      else conf\<lparr>conf_no_color := (case no_color of None \<Rightarrow> False | Some v \<Rightarrow> v \<noteq> [])\<rparr>)"

section \<open>Commands\<close>

type_synonym handler = "jp_conf \<Rightarrow> cstring list \<Rightarrow> (jp_errno \<times> raised list \<times> cstring list) option"

record jp_cmd =
  cmd_code :: cstring
  cmd_name :: cstring
  cmd_handler :: handler

text \<open>The counter is a \<open>uint8_t\<close>.\<close>

definition jp_cmd_count :: "cstring list \<Rightarrow> cstring \<Rightarrow> cstring \<Rightarrow> 8 word" where
  "jp_cmd_count argv cmd_short cmd_long =
     foldl (\<lambda>count arg. if arg = cmd_short \<or> arg = cmd_long then count + 1 else count) 0 argv"

definition init_global_flags :: "cstring list \<Rightarrow> jp_conf \<Rightarrow> jp_conf" where
  "init_global_flags argv conf =
     (let conf = (if jp_cmd_count argv (bytes ''-q'') (bytes ''--quiet'') > 0 then conf\<lparr>conf_silent := True\<rparr> else conf)
      in if jp_cmd_count argv (bytes ''-C'') (bytes ''--no-color'') > 0 then conf\<lparr>conf_no_color := True\<rparr> else conf)"

fun find_cmd :: "nat \<Rightarrow> jp_cmd list \<Rightarrow> cstring \<Rightarrow> handler option" where
  "find_cmd 0 cmds arg = None"
| "find_cmd (Suc cmdc) [] arg = None"
| "find_cmd (Suc cmdc) (cmd # cmds) arg =
     (if arg = cmd_code cmd \<or> arg = cmd_name cmd then Some (cmd_handler cmd) else find_cmd cmdc cmds arg)"

definition jp_cmd_exec ::
  "nat \<Rightarrow> jp_cmd list \<Rightarrow> cstring list \<Rightarrow> jp_conf \<Rightarrow> (jp_errno \<times> raised list \<times> cstring list) option \<times> jp_conf"
where
  "jp_cmd_exec cmdc cmds argv conf =
     (let conf = init_global_flags argv conf
      in if length argv < 2
         then (Some (JP_EMISSING_CMD, [JP_ERRNO_RAISE (bytes ''command.c'') 29 JP_EMISSING_CMD], []), conf)
         else case find_cmd cmdc cmds (argv ! 1) of
                Some h \<Rightarrow> (h conf (tl argv), conf)
              | None \<Rightarrow>
                  (Some (JP_EUNKNOWN_CMD,
                         [JP_ERRNO_RAISEF (bytes ''command.c'') 38 JP_EUNKNOWN_CMD
                            (bytes ''Invalid or incomplete command: '' @ quoted (take 32 (argv ! 1)))], []), conf))"

text \<open>\<open>JP_LOG_MSG\<close>: nothing is printed when the program is asked to be quiet.\<close>

definition log_msg :: "jp_conf \<Rightarrow> cstring list \<Rightarrow> cstring list" where
  "log_msg conf ls = (if conf_silent conf then [] else ls)"

text \<open>The lines of \<open>jp_cmd_help\<close>; a \<^verbatim>\<open>\n\<close> at the start of a line is the byte 10.\<close>

definition cmd_help_lines :: "cstring list" where
  \<open>cmd_help_lines =
     [bytes ''Usage: jpipe <command> [options]'',
      10 # bytes ''A lightweight C pipe-to-JSON logger designed for high-performance stream capture and extensible metadata injection.'',
      10 # bytes ''Commands:'',
      bytes ''  run                Process data with configurable options.'',
      bytes ''  version            Display version information.'',
      bytes ''  help               Show this help message.'',
      10 # bytes ''Global Options:'',
      bytes ''  -q, --quiet        Display less output (suppress non-critical logs).'',
      bytes ''  -C, --no-color     Disable colored output.'',
      10 # bytes ''Environment Variables:'',
      bytes ''  NO_COLOR           If set (to any value), disables colored output.'',
      bytes ''                     See https://no-color.org/ for details.'',
      10 # bytes ''Use 'jpipe <command> --help' for more information on a specific command.'',
      10 # bytes ''Examples:'',
      bytes ''  # Capture stream with 1MB chunks to a specific directory'',
      bytes ''  cat data.log | jpipe run -c 1mb -o /tmp/output'',
      10 # bytes ''  # High-throughput capture with a larger buffer'',
      bytes ''  tail -f /var/log/syslog | jpipe run -b 128 -c 64kb'',
      10 # bytes ''Documentation & Issues:'',
      bytes ''  https://github.com/scoekmen/jpipe'']\<close>

definition jp_cmd_help :: handler where
  "jp_cmd_help conf argv = Some (JP_OK, [], cmd_help_lines)"

text \<open>\<open>JP_LOG_INFO("v%.16s", JP_CONF_VERSION)\<close>.\<close>

definition jp_cmd_version :: "cstring \<Rightarrow> handler" where
  "jp_cmd_version version conf argv = Some (JP_OK, [], [bytes ''v'' @ take 16 version])"

section \<open>Properties\<close>

lemma jp_cmd_count_of_nat:
  "jp_cmd_count argv a b = of_nat (length (filter (\<lambda>x. x = a \<or> x = b) argv))"
proof -
  have "foldl (\<lambda>count arg. if arg = a \<or> arg = b then count + 1 else count) (of_nat n) argv =
      (of_nat (n + length (filter (\<lambda>x. x = a \<or> x = b) argv)) :: 8 word)" for n
  proof (induction argv arbitrary: n)
    case Nil
    then show ?case by simp
  next
    case (Cons x xs)
    from Cons [of "Suc n"] Cons [of n] show ?case by (simp add: ac_simps)
  qed
  from this [of 0] show ?thesis by (simp add: jp_cmd_count_def)
qed

text \<open>
  The value of \<open>jp_cmd_count\<close> is the number of arguments equal to one of the two spellings, modulo 256: a flag
  given 256 times counts as absent.
\<close>

theorem cmd_count_wraps:
  "unat (jp_cmd_count argv a b) = length (filter (\<lambda>x. x = a \<or> x = b) argv) mod 256 \<and>
   jp_cmd_count (replicate 256 a) a b = 0"
  by (simp add: jp_cmd_count_of_nat unat_of_nat)

end
