(* ===== verification/JP_Worker.thy ===== *)
theory JP_Worker
  imports JP_Field JP_Queue JP_Command
begin

text \<open>
  \<^verbatim>\<open>src/worker.c\<close>: the \<open>run\<close> command. Its setters parse the arguments of the command line into the
  worker's context, the output directory is created and made absolute, the queue is created, and the
  threads are started and joined.

  \<^verbatim>\<open>strtoull\<close> is modelled with its wrap-around; the options that \<^verbatim>\<open>getopt_long\<close> finds, the file system
  and the results of the \<^verbatim>\<open>pthread\<close> calls are arguments. What the error macros raise is part of the results
  (\<open>JP_Raise\<close>): a setter returns what it raised, \<^const>\<open>None\<close> for the value 0.
\<close>

section \<open>Data\<close>

record worker_ctx =
  wk_input_stream :: int
  wk_dry_run :: bool
  wk_chunk_size :: size_t
  wk_buffer_size :: size_t
  wk_policy :: jp_queue_policy
  wk_queue :: "jp_queue option"
  wk_fields :: jp_field_set
  wk_out_dir :: "cstring option"

text \<open>What the code asks of the file system, for a path.\<close>

record file_system =
  fs_mkdir :: "cstring \<Rightarrow> bool" \<comment> \<open>\<^verbatim>\<open>mkdir\<close> succeeds, or fails with \<open>EEXIST\<close>\<close>
  fs_is_dir :: "cstring \<Rightarrow> bool" \<comment> \<open>\<^verbatim>\<open>stat\<close> succeeds and the file is a directory\<close>
  fs_writable :: "cstring \<Rightarrow> bool"
  fs_realpath :: "cstring \<Rightarrow> cstring option"

section \<open>Texts\<close>

definition run_help_lines :: "cstring list" where
  \<open>run_help_lines =
     [bytes ''Usage: jpipe run [options]'',
      10 # bytes ''Execute the data processing engine with the following configurations:'',
      10 # bytes ''Options:'',
      bytes ''  -c, --chunk-size  <size>     Chunk size (e.g., 16kb, 64kb). Range: 1kb-128kb  (default: 16kb).'',
      bytes ''  -b, --buffer-size <count>    Max pending operations. Range: 1-1024 (default: 64).'',
      bytes ''  -p, --policy      <type>     Overflow policy: 'wait' or 'drop' (default: wait).'',
      bytes ''  -o, --output      <path>     Output directory (default: current dir).'',
      bytes ''  -f, --field       key=value  Additional field to the JSON output. Can be used multiple times.'',
      bytes ''  -n, --dry-run                Dry run.'',
      bytes ''  -h, --help                   Show this help message.'',
      10 # bytes ''Field Options:'',
      bytes ''  -f, --field "key=value"   Add a field to the JSON output.'',
      10 # bytes ''  Key Rules:'',
      bytes ''    - Must contain only: 'a-z', 'A-Z', '0-9', '_' and '-'.'',
      bytes ''    - Maximum length: 64 characters.'',
      10 # bytes ''  Value Type Inference:'',
      bytes ''    - key=123        -> Number  (no quotes in JSON).'',
      bytes ''    - key=1e+10      -> Number  (no quotes in JSON).'',
      bytes ''    - key=true|false -> Boolean (no quotes in JSON).'',
      bytes ''    - key=string     -> String.'',
      bytes ''    - key="123"      -> Forced string.'',
      bytes ''    - key="true"     -> Forced string.'',
      10 # bytes ''  Example:'',
      bytes ''    Input : jpipe -f "id=101" -f "name=app" -f "active=true" -f "ver=1.2.0"'',
      bytes ''    Output: {"id": 101, "name": "app", "active": true, "ver": "1.2.0"}'']\<close>

definition display_help :: "jp_errno \<times> cstring list" where
  "display_help = (JP_OK, run_help_lines)"

text \<open>The bullet of the summary, in UTF-8.\<close>

definition bullet :: cstring where
  "bullet = [226, 128, 162]"

text \<open>\<^verbatim>\<open>%-32.*s\<close>: at most \<open>n\<close> bytes of the string, padded with blanks to 32.\<close>

definition pad32 :: "nat \<Rightarrow> cstring \<Rightarrow> cstring" where
  "pad32 n s = (let t = take n (cstr_of s) in t @ replicate (32 - length t) 32)"

text \<open>
  \<open>estimated_mem_usage\<close> with \<^verbatim>\<open>%.2f\<close>. For sizes in range the product and the quotient by \<open>2 ^ 20\<close> are
  exact in a \<^verbatim>\<open>double\<close>, and the conversion rounds the exact value to the nearest hundredth, a tie to
  the even one.
\<close>

definition mem_hundredths :: "nat \<Rightarrow> nat" where
  "mem_hundredths n =
     (let q = 100 * n div (BYTES_IN_KB * BYTES_IN_KB); r = 100 * n mod (BYTES_IN_KB * BYTES_IN_KB)
      in if 2 * r > BYTES_IN_KB * BYTES_IN_KB \<or> 2 * r = BYTES_IN_KB * BYTES_IN_KB \<and> odd q then q + 1 else q)"

definition fixed2 :: "nat \<Rightarrow> cstring" where
  "fixed2 h = dec_nat (h div 100) @ bytes ''.'' @ dec_nat (h mod 100 div 10) @ dec_nat (h mod 10)"

fun summary_fields :: "nat \<Rightarrow> jp_field list \<Rightarrow> cstring list" where
  "summary_fields i [] = []"
| "summary_fields i (f # fs) =
     (bytes ''     '' @ dec_nat (i + 1) @ bytes ''. '' @ pad32 (key_len f) (drop (key_off f) (storage f)) @ bytes ''= '' @
      pad32 (val_len f) (drop (val_off f) (storage f))) # summary_fields (i + 1) fs"

definition summary_lines :: "worker_ctx \<Rightarrow> cstring list" where
  "summary_lines ctx =
     [bytes ''Application is starting...'' @ [10],
      bytes ''[Runtime Parameters]'',
      bullet @ bytes '' Chunk Size   (-c) : '' @ dec_nat (unat (wk_chunk_size ctx div of_nat BYTES_IN_KB)) @ bytes '' KB'',
      bullet @ bytes '' Buffer Size  (-b) : '' @ dec_nat (unat (wk_buffer_size ctx)),
      bullet @ bytes '' Output Dir   (-o) : '' @ (case wk_out_dir ctx of Some d \<Rightarrow> d | None \<Rightarrow> bytes ''(null)''),
      bullet @ bytes '' Policy       (-p) : '' @
        (if wk_policy ctx = JP_QUEUE_POLICY_WAIT then bytes ''WAIT'' else bytes ''DROP'')] @
     (if set_len (wk_fields ctx) > 0
      then (bullet @ bytes '' Fields       (-f) :'') # summary_fields 0 (set_fields (wk_fields ctx)) else []) @
     [10 # bytes ''[Resource Utilization]'',
      bullet @ bytes '' Memory Usage      :  ~'' @
        fixed2 (mem_hundredths (unat (wk_chunk_size ctx) * unat (wk_buffer_size ctx))) @ bytes '' MB'',
      10 # bytes ''* These values are based on user-provided parameters.'',
      bytes ''* Memory usage is an approximation;operating system overhead and thread stack allocations are not included.'' @ [10]]"

definition display_summary :: "jp_conf \<Rightarrow> worker_ctx \<Rightarrow> cstring list" where
  "display_summary conf ctx = log_msg conf (summary_lines ctx)"

section \<open>Numbers\<close>

definition is_space :: "byte \<Rightarrow> bool" where
  "is_space c \<longleftrightarrow> c = 32 \<or> 9 \<le> c \<and> c \<le> 13"

definition digit_value :: "byte list \<Rightarrow> nat" where
  "digit_value ds = foldl (\<lambda>n d. n * 10 + (unat d - 48)) 0 ds"

text \<open>
  \<^verbatim>\<open>strtoull(arg, &end_ptr, 10)\<close>: the value, whether \<open>errno\<close> is \<open>ERANGE\<close>, and the text at \<open>end_ptr\<close>,
  which is the whole argument when there are no digits. White space and a sign are skipped, and a
  minus sign negates the value in 64-bit arithmetic.
\<close>

definition strtoull :: "cstring \<Rightarrow> 64 word \<times> bool \<times> cstring" where
  "strtoull arg =
     (let s = dropWhile is_space arg;
          negative = (s \<noteq> [] \<and> hd s = 45);
          t = (if s \<noteq> [] \<and> (hd s = 45 \<or> hd s = 43) then tl s else s);
          ds = takeWhile (\<lambda>c. 48 \<le> c \<and> c \<le> 57) t;
          n = digit_value ds
      in if ds = [] then (0, False, arg)
         else if n \<ge> 2 ^ 64 then (- 1, True, drop (length ds) t)
         else (if negative then - of_nat n else of_nat n, False, drop (length ds) t))"

section \<open>The setters\<close>

abbreviation wk_raise :: "int \<Rightarrow> jp_errno \<Rightarrow> raised" where
  "wk_raise \<equiv> JP_ERRNO_RAISE (bytes ''worker.c'')"

abbreviation wk_raisef :: "int \<Rightarrow> jp_errno \<Rightarrow> cstring \<Rightarrow> raised" where
  "wk_raisef \<equiv> JP_ERRNO_RAISEF (bytes ''worker.c'')"

abbreviation wk_raise_posix :: "int \<Rightarrow> jp_errno \<Rightarrow> int \<Rightarrow> raised" where
  "wk_raise_posix \<equiv> JP_ERRNO_RAISE_POSIX (bytes ''worker.c'')"

definition set_out_dir :: "cstring option \<Rightarrow> worker_ctx \<Rightarrow> raised option \<times> worker_ctx" where
  "set_out_dir arg ctx =
     (let ctx = ctx\<lparr>wk_out_dir := None\<rparr>
      in case arg of
           None \<Rightarrow> (Some (wk_raise 94 JP_EOUT_DIR), ctx)
         | Some a \<Rightarrow>
             let len = length a
             in if len = 0 then (Some (wk_raise 99 JP_EOUT_DIR), ctx)
                else if len > JP_PATH_MAX
                then (Some (wk_raisef 102 JP_EOUT_DIR
                              (bytes ''Path is too long. Maximum allowed length: '' @ dec_nat JP_PATH_MAX)), ctx)
                else (None, ctx\<lparr>wk_out_dir := Some a\<rparr>))"

definition set_field :: "(nat \<Rightarrow> buffer) \<Rightarrow> cstring option \<Rightarrow> worker_ctx \<Rightarrow> (raised option \<times> worker_ctx) option" where
  "set_field junk arg ctx =
     (case arg of
        None \<Rightarrow> Some (Some (wk_raise 111 JP_EINV_FIELD_KEY), ctx)
      | Some a \<Rightarrow>
          do {
            (err, fields) \<leftarrow> jp_field_set_add junk (wk_fields ctx) a;
            let ctx = ctx\<lparr>wk_fields := fields\<rparr>;
            Some (if err = JP_OK then (None, ctx)
                  else if err = JP_ETOO_MANY_FIELD then (Some (wk_raise 120 err), ctx)
                  else (Some (wk_raisef 120 err (bytes ''Field is invalid: '' @ quoted a)), ctx))
          })"

definition size_invalid :: "cstring \<Rightarrow> cstring" where
  "size_invalid a = bytes ''Size is invalid: '' @ quoted (take 32 a)"

definition set_chunk_size :: "cstring option \<Rightarrow> worker_ctx \<Rightarrow> raised option \<times> worker_ctx" where
  "set_chunk_size arg ctx =
     (case arg of
        None \<Rightarrow> (Some (wk_raise 129 JP_ECHUNK_SIZE), ctx)
      | Some a \<Rightarrow>
          (case strtoull a of (param, erange, end_ptr) \<Rightarrow>
             if erange then (Some (wk_raisef 136 JP_ECHUNK_SIZE (size_invalid a)), ctx)
             else if end_ptr = a then (Some (wk_raisef 140 JP_ECHUNK_SIZE (size_invalid a)), ctx)
             else if end_ptr \<noteq> [] \<and> end_ptr = bytes ''kb'' \<and>
                     param \<le> of_nat (JP_CONF_CHUNK_SIZE_MAX div BYTES_IN_KB)
             then let chunk_size = 0 + param * of_nat BYTES_IN_KB
                  in if chunk_size < of_nat JP_CONF_CHUNK_SIZE_MIN \<or> chunk_size > of_nat JP_CONF_CHUNK_SIZE_MAX
                     then (Some (wk_raisef 150 JP_ECHUNK_SIZE (size_invalid a)), ctx)
                     else (None, ctx\<lparr>wk_chunk_size := chunk_size\<rparr>)
             else (Some (wk_raisef 146 JP_ECHUNK_SIZE (size_invalid a)), ctx)))"

definition set_buffer_size :: "cstring option \<Rightarrow> worker_ctx \<Rightarrow> raised option \<times> worker_ctx" where
  "set_buffer_size arg ctx =
     (case arg of
        None \<Rightarrow> (Some (wk_raise 161 JP_EBUFFER_SIZE), ctx)
      | Some a \<Rightarrow>
          (case strtoull a of (param, erange, end_ptr) \<Rightarrow>
             if erange \<or> end_ptr = a \<or> end_ptr \<noteq> [] then (Some (wk_raisef 168 JP_EBUFFER_SIZE (size_invalid a)), ctx)
             else if param < of_nat JP_CONF_BUFFER_SIZE_MIN \<or> param > of_nat JP_CONF_BUFFER_SIZE_MAX
             then (Some (wk_raisef 172 JP_EBUFFER_SIZE (size_invalid a)), ctx)
             else (None, ctx\<lparr>wk_buffer_size := param\<rparr>)))"

definition set_policy :: "cstring option \<Rightarrow> worker_ctx \<Rightarrow> raised option \<times> worker_ctx" where
  "set_policy arg ctx =
     (case arg of
        None \<Rightarrow> (Some (wk_raise 181 JP_EOVERFLOW_POLICY), ctx)
      | Some a \<Rightarrow>
          if a = bytes ''wait'' then (None, ctx\<lparr>wk_policy := JP_QUEUE_POLICY_WAIT\<rparr>)
          else if a = bytes ''drop'' then (None, ctx\<lparr>wk_policy := JP_QUEUE_POLICY_DROP\<rparr>)
          else (Some (wk_raisef 193 JP_EOVERFLOW_POLICY (bytes ''Policy is invalid: '' @ quoted (take 32 a))), ctx))"

definition handle_unknown_argument :: "cstring \<Rightarrow> raised" where
  "handle_unknown_argument cmd =
     wk_raisef 197 JP_EUNKNOWN_RUN_CMD (bytes ''Invalid or incomplete command: '' @ quoted (take 32 cmd))"

section \<open>The output directory\<close>

text \<open>\<^verbatim>\<open>strncpy(tmp, output, sizeof(tmp))\<close> into an array of \<open>n\<close> zeros.\<close>

definition strncpy :: "nat \<Rightarrow> cstring \<Rightarrow> buffer" where
  "strncpy n s = take n s @ replicate (n - length s) 0"

text \<open>The trailing slashes; \<^const>\<open>None\<close> is an access outside the array.\<close>

fun strip_slashes :: "buffer \<Rightarrow> nat \<Rightarrow> buffer option" where
  "strip_slashes tmp path_len =
     (if path_len > 1
      then if path_len - 1 < length tmp
           then if tmp ! (path_len - 1) = 47
                then strip_slashes (tmp[path_len - 1 := 0]) (path_len - 1)
                else Some tmp
           else None
      else Some tmp)"

declare strip_slashes.simps [simp del]

text \<open>\<^verbatim>\<open>%128s\<close>: the string, padded with blanks on the left to 128.\<close>

definition width128 :: "cstring \<Rightarrow> cstring" where
  "width128 s = replicate (128 - length s) 32 @ s"

definition dir_error :: "int \<Rightarrow> cstring \<Rightarrow> cstring \<Rightarrow> raised" where
  "dir_error line msg path = wk_raisef line JP_EOUT_DIR (msg @ quoted (width128 path))"

text \<open>
  The loop over \<open>p\<close>, an index into \<open>tmp\<close>: the error raised when a directory could not be made, and the
  directories it asked for, in order.
\<close>

function mkdir_loop :: "file_system \<Rightarrow> buffer \<Rightarrow> nat \<Rightarrow> (raised option \<times> cstring list) option" where
  "mkdir_loop fs tmp p =
     (if p < length tmp
      then if tmp ! p = 0 then Some (None, [])
           else if tmp ! p = 47
           then let dir = cstr_of (tmp[p := 0])
                in if fs_mkdir fs dir
                   then map_option (\<lambda>(err, made). (err, dir # made)) (mkdir_loop fs tmp (p + 1))
                   else Some (Some (dir_error 219 (bytes ''Could not create the output directory: '') dir), [dir])
           else mkdir_loop fs tmp (p + 1)
      else None)"
  by pat_completeness auto

termination mkdir_loop
  by (relation "measure (\<lambda>(fs, tmp, p). length tmp - p)") auto

declare mkdir_loop.simps [simp del]

text \<open>What is checked of the whole path: the error raised or the absolute path.\<close>

definition out_dir_check :: "file_system \<Rightarrow> cstring \<Rightarrow> raised + cstring" where
  "out_dir_check fs path =
     (if \<not> fs_mkdir fs path then Inl (dir_error 226 (bytes ''Could not create the directory: '') path)
      else if \<not> fs_is_dir fs path then Inl (dir_error 230 (bytes ''The target is not a directory: '') path)
      else if \<not> fs_writable fs path then Inl (dir_error 234 (bytes ''The target is inaccessible: '') path)
      else case fs_realpath fs path of
             None \<Rightarrow> Inl (dir_error 238 (bytes ''Could not resolve absolute path: '') path)
           | Some absolute_path \<Rightarrow> Inr absolute_path)"

text \<open>The result is the error, the context and the paths given to \<^verbatim>\<open>mkdir\<close>.\<close>

definition create_and_normalize_out_dir ::
  "file_system \<Rightarrow> worker_ctx \<Rightarrow> (raised option \<times> worker_ctx \<times> cstring list) option"
where
  "create_and_normalize_out_dir fs ctx =
     (let output = (case wk_out_dir ctx of Some d \<Rightarrow> d | None \<Rightarrow> JP_CONF_OUTDIR_DEF)
      in do {
        tmp \<leftarrow> strip_slashes (strncpy JP_PATH_MAX output) (length output);
        (err, made) \<leftarrow> mkdir_loop fs tmp 1;
        let path = cstr_of tmp;
        Some (if err \<noteq> None then (err, ctx, made)
              else case out_dir_check fs path of
                     Inl e \<Rightarrow> (Some e, ctx, made @ [path])
                   | Inr absolute_path \<Rightarrow> (None, ctx\<lparr>wk_out_dir := Some absolute_path\<rparr>, made @ [path]))
      })"

section \<open>The command line\<close>

text \<open>
  What a call of \<^verbatim>\<open>getopt_long\<close> gives: the option, \<open>optarg\<close>, \<open>optind\<close>, and the arguments, which it may have
  permuted; the last call gives \<open>optind\<close> and the arguments.
\<close>

type_synonym getopt_step = "byte \<times> cstring option \<times> nat \<times> cstring list"

text \<open>One turn of the loop; an error in the first component ends the function.\<close>

definition apply_option :: "(nat \<Rightarrow> buffer) \<Rightarrow> getopt_step \<Rightarrow> worker_ctx \<Rightarrow> (raised option \<times> worker_ctx) option" where
  "apply_option junk opt ctx =
     (case opt of (option, optarg, optind, argv) \<Rightarrow>
        if option = of_char CHR ''c'' then Some (set_chunk_size optarg ctx)
        else if option = of_char CHR ''b'' then Some (set_buffer_size optarg ctx)
        else if option = of_char CHR ''p'' then Some (set_policy optarg ctx)
        else if option = of_char CHR ''o'' then Some (set_out_dir optarg ctx)
        else if option = of_char CHR ''n'' then Some (None, ctx\<lparr>wk_dry_run := True\<rparr>)
        else if option = of_char CHR ''f'' then set_field junk optarg ctx
        else if option = of_char CHR ''q'' \<or> option = of_char CHR ''C'' \<or> option = of_char CHR ''h'' then Some (None, ctx)
        else if option = of_char CHR '':'' \<or> option = of_char CHR ''?''
        then Some (Some (handle_unknown_argument
                           (if optind < length argv then argv ! optind else argv ! (length argv - 1))), ctx)
        else Some (None, ctx))"

fun collect_cli_args ::
  "(nat \<Rightarrow> buffer) \<Rightarrow> getopt_step list \<Rightarrow> nat \<times> cstring list \<Rightarrow> worker_ctx \<Rightarrow> (raised option \<times> worker_ctx) option"
where
  "collect_cli_args junk [] (optind, argv) ctx =
     Some (if optind < length argv then (Some (handle_unknown_argument (argv ! optind)), ctx) else (None, ctx))"
| "collect_cli_args junk (opt # opts) final ctx =
     do {
       (err, ctx) \<leftarrow> apply_option junk opt ctx;
       if err \<noteq> None then Some (err, ctx) else collect_cli_args junk opts final ctx
     }"

text \<open>
  The result also has the resources that \<open>jp_queue_create\<close> left held. A failure of \<open>jp_queue_create\<close> is raised
  there first, with the system's code, and then again here, without it.
\<close>

definition finalize_worker_args ::
  "(nat \<Rightarrow> buffer) \<Rightarrow> file_system \<Rightarrow> size_t \<Rightarrow> size_t \<Rightarrow> int \<Rightarrow> int \<Rightarrow> int \<Rightarrow> worker_ctx
     \<Rightarrow> (raised list \<times> worker_ctx \<times> queue_resource list) option"
where
  "finalize_worker_args junk fs sizeof_queue sizeof_block mutex_init not_empty_init not_full_init ctx =
     do {
       (err, ctx, made) \<leftarrow> create_and_normalize_out_dir fs ctx;
       case err of
         Some e \<Rightarrow> Some ([e], ctx, [])
       | None \<Rightarrow>
         do {
           (queue, err, held) \<leftarrow> jp_queue_create junk sizeof_queue sizeof_block mutex_init not_empty_init not_full_init
                                  (wk_buffer_size ctx) (wk_chunk_size ctx) (wk_policy ctx);
           let ctx = ctx\<lparr>wk_queue := queue\<rparr>;
           Some (case err of
                   Some (e, code) \<Rightarrow>
                     ([JP_ERRNO_RAISE_POSIX (bytes ''queue.c'')
                         (if mutex_init \<noteq> 0 then 31 else if not_empty_init \<noteq> 0 then 37 else 43) e code,
                       wk_raise 310 e], ctx, held)
                 | None \<Rightarrow> (if queue = None then [wk_raise 310 JP_ESYS_ERR] else [], ctx, held))
         }
     }"

section \<open>The threads\<close>

datatype worker_thread = Consumer | Producer | Signal_Watcher

datatype signal = SIGTERM | SIGINT

text \<open>
  The attributes that the code sets: detached or joinable, the smallest stack or the default one, and whether
  the policy \<^verbatim>\<open>SCHED_OTHER\<close> with priority 0 is given explicitly or the scheduling is inherited.
\<close>

record thread_attr =
  at_detached :: bool
  at_stack_min :: bool
  at_explicit_sched :: bool

definition attr_init :: thread_attr where
  "attr_init = \<lparr>at_detached = False, at_stack_min = False, at_explicit_sched = False\<rparr>"

definition watcher_attr :: thread_attr where
  "watcher_attr = attr_init\<lparr>at_stack_min := True, at_detached := True, at_explicit_sched := True\<rparr>"

definition blocked_signals :: "signal list" where
  "blocked_signals = [SIGTERM, SIGINT]"

text \<open>What the main thread does, in order; a creation with its attributes and its result.\<close>

datatype thread_event =
    Signals_Blocked "signal list"
  | Created worker_thread thread_attr int
  | Cancelled worker_thread
  | Joined worker_thread
  | Queue_Finalized
  | Attr_Destroyed

text \<open>
  The results of the \<^verbatim>\<open>pthread\<close> calls: of the three creations, of the cancellations, and of the two joins with
  what the thread returned (\<^const>\<open>None\<close>: a null pointer or \<open>PTHREAD_CANCELED\<close>). The sum of the codes that \<open>err\<close>
  becomes is an \<open>int\<close> without a bound: it adds at most three of them, and those of POSIX are far too small to wrap.
\<close>

record thread_env =
  te_create_consumer :: int
  te_create_producer :: int
  te_create_watcher :: int
  te_cancel_consumer :: int
  te_cancel_producer :: int
  te_join_consumer :: "int \<times> jp_errno option"
  te_join_producer :: "int \<times> jp_errno option"

definition join_worker_thread :: "int \<times> jp_errno option \<Rightarrow> jp_errno \<times> raised list" where
  "join_worker_thread join =
     (case join of (err, thread_result) \<Rightarrow>
        if err \<noteq> 0 then (JP_ESYS_ERR, [wk_raise_posix 376 JP_ESYS_ERR err])
        else case thread_result of None \<Rightarrow> (JP_OK, []) | Some thread_value \<Rightarrow> (thread_value, []))"

definition cancel_worker_thread :: "int \<Rightarrow> raised list" where
  "cancel_worker_thread err = (if err \<noteq> 0 then [wk_raise_posix 389 JP_ESYS_ERR err] else [])"

definition orchestrate_threads :: "thread_env \<Rightarrow> jp_errno \<times> raised list \<times> thread_event list" where
  "orchestrate_threads env =
     (let err = te_create_consumer env;
          consumer = (err = 0);
          err = (if consumer then te_create_producer env else err);
          producer = (consumer \<and> err = 0);
          err = (if producer then te_create_watcher env else err);
          creations = Created Consumer attr_init (te_create_consumer env) #
            (if consumer then [Created Producer attr_init (te_create_producer env)] else []) @
            (if producer then [Created Signal_Watcher watcher_attr (te_create_watcher env)] else []);
          cancels = (if err \<noteq> 0
                     then (if consumer then [Cancelled Consumer] else []) @
                          (if producer then [Cancelled Producer] else [])
                     else []);
          raises = (if err \<noteq> 0
                    then wk_raise_posix 431 JP_ESYS_ERR err #
                         (if consumer then cancel_worker_thread (te_cancel_consumer env) else []) @
                         (if producer then cancel_worker_thread (te_cancel_producer env) else [])
                    else []);
          (c_err, c_raises) = join_worker_thread (te_join_consumer env);
          (p_err, p_raises) = join_worker_thread (te_join_producer env);
          err = (if consumer then err + int (jp_errno_code c_err) else err);
          err = (if producer then err + int (jp_errno_code p_err) else err)
      in (if err \<noteq> 0 then JP_ERUN_FAILED else JP_OK,
          raises @ (if consumer then c_raises else []) @ (if producer then p_raises else []),
          Signals_Blocked blocked_signals # creations @ cancels @ (if consumer then [Joined Consumer] else []) @
          (if producer then [Joined Producer] else []) @ [Queue_Finalized, Attr_Destroyed]))"

section \<open>The command\<close>

definition worker_defaults :: worker_ctx where
  "worker_defaults =
     \<lparr>wk_input_stream = 0, wk_dry_run = False, wk_chunk_size = of_nat JP_CONF_CHUNK_SIZE_DEF,
      wk_buffer_size = of_nat JP_CONF_BUFFER_SIZE_DEF, wk_policy = JP_QUEUE_POLICY_WAIT, wk_queue = None,
      wk_fields = jp_field_set_create JP_CONF_FIELDS_MAX, wk_out_dir = None\<rparr>"

text \<open>
  What a run leaves: the error code, the errors raised in the main thread, the context at \<open>clean_up\<close>
  (\<^const>\<open>None\<close> when only the help was printed), whether the threads were started, the resources of the queue
  still held at the end, and the lines printed.
\<close>

record run_result =
  rr_err :: jp_errno
  rr_raised :: "raised list"
  rr_ctx :: "worker_ctx option"
  rr_started :: bool
  rr_held :: "queue_resource list"
  rr_lines :: "cstring list"

definition jp_wrk_exec ::
  "(nat \<Rightarrow> buffer) \<Rightarrow> file_system \<Rightarrow> size_t \<Rightarrow> size_t \<Rightarrow> int \<Rightarrow> int \<Rightarrow> int \<Rightarrow> thread_env
     \<Rightarrow> getopt_step list \<Rightarrow> nat \<times> cstring list \<Rightarrow> jp_conf \<Rightarrow> cstring list \<Rightarrow> run_result option"
where
  "jp_wrk_exec junk fs sizeof_queue sizeof_block mutex_init not_empty_init not_full_init env opts final conf argv =
     (if jp_cmd_count argv (bytes ''-h'') (bytes ''--help'') > 0
      then case display_help of (err, ls) \<Rightarrow>
        Some \<lparr>rr_err = err, rr_raised = [], rr_ctx = None, rr_started = False, rr_held = [], rr_lines = ls\<rparr>
      else do {
        (err, ctx) \<leftarrow> collect_cli_args junk opts final worker_defaults;
        case err of
          Some e \<Rightarrow>
            Some \<lparr>rr_err = rs_err e, rr_raised = [e], rr_ctx = Some ctx, rr_started = False,
                  rr_held = jp_queue_destroy (wk_queue ctx) [], rr_lines = []\<rparr>
        | None \<Rightarrow>
          do {
            (raises, ctx, held) \<leftarrow>
              finalize_worker_args junk fs sizeof_queue sizeof_block mutex_init not_empty_init not_full_init ctx;
            if raises \<noteq> []
            then Some \<lparr>rr_err = rs_err (last raises), rr_raised = raises, rr_ctx = Some ctx, rr_started = False,
                       rr_held = jp_queue_destroy (wk_queue ctx) held, rr_lines = []\<rparr>
            else let ls = display_summary conf ctx;
                     (err, raises) = (if wk_dry_run ctx then (JP_OK, [])
                                      else case orchestrate_threads env of (err, raises, _) \<Rightarrow> (err, raises))
                 in Some \<lparr>rr_err = err, rr_raised = raises, rr_ctx = Some ctx, rr_started = (\<not> wk_dry_run ctx),
                          rr_held = jp_queue_destroy (wk_queue ctx) held, rr_lines = ls\<rparr>
          }
      })"

end
