(* ===== verification/JP_Worker_Args.thy ===== *)
theory JP_Worker_Args
  imports JP_Worker
begin

text \<open>
  The command line of the \<open>run\<close> command: the context that the setters leave is in range, which sizes they take,
  and which directories \<open>create_and_normalize_out_dir\<close> makes.
\<close>

section \<open>Decimal arguments\<close>

abbreviation is_dec_digit :: "byte \<Rightarrow> bool" where
  "is_dec_digit c \<equiv> 48 \<le> c \<and> c \<le> 57"

lemma digit_byte:
  assumes "d < 10"
  shows "unat (48 + of_nat d :: byte) = 48 + d"
  using assms by (simp add: unat_word_ariths unat_of_nat)

lemma dec_nat_digits: "list_all is_dec_digit (dec_nat n)" "dec_nat n \<noteq> []" "digit_value (dec_nat n) = n"
proof (induction n rule: dec_nat.induct)
  case (1 n)
  have d: "is_dec_digit (48 + of_nat d)" if "d < 10" for d :: nat
    using digit_byte [OF that] that by (simp add: word_le_nat_alt)
  {
    case 1
    show ?case using "1.IH"(1) d [of n] d [of "n mod 10"] by (simp add: dec_nat.simps [of n])
  next
    case 2
    show ?case by (simp add: dec_nat.simps [of n])
  next
    case 3
    show ?case
      using "1.IH"(3) digit_byte [of n] digit_byte [of "n mod 10"]
      by (auto simp: dec_nat.simps [of n] digit_value_def)
  }
qed

lemma strtoull_dec:
  assumes "rest = [] \<or> \<not> is_dec_digit (hd rest)"
  shows "strtoull (dec_nat n @ rest) = (if n < 2 ^ 64 then (of_nat n, False, rest) else (- 1, True, rest))"
    and "strtoull (45 # dec_nat n @ rest) = (if n < 2 ^ 64 then (- of_nat n, False, rest) else (- 1, True, rest))"
proof -
  obtain d ds where d: "dec_nat n = d # ds" "is_dec_digit d"
    using dec_nat_digits(1,2) [of n] by (cases "dec_nat n") auto
  have head: "\<not> is_space d" "d \<noteq> 45" "d \<noteq> 43"
    using d(2) by (auto simp: is_space_def word_le_nat_alt)
  have minus: "\<not> is_space 45" by (simp add: is_space_def)
  have "takeWhile is_dec_digit (dec_nat n @ rest) = dec_nat n"
    using dec_nat_digits(1) [of n] assms
    by (subst takeWhile_append2) (cases rest; auto simp: list_all_iff)+
  then show
    "strtoull (dec_nat n @ rest) = (if n < 2 ^ 64 then (of_nat n, False, rest) else (- 1, True, rest))"
    "strtoull (45 # dec_nat n @ rest) = (if n < 2 ^ 64 then (- of_nat n, False, rest) else (- 1, True, rest))"
    using d head minus dec_nat_digits(3) [of n] by (simp_all add: strtoull_def Let_def)
qed

section \<open>The context stays in range\<close>

definition worker_ok :: "worker_ctx \<Rightarrow> bool" where
  "worker_ok ctx \<longleftrightarrow>
     JP_CONF_CHUNK_SIZE_MIN \<le> unat (wk_chunk_size ctx) \<and> unat (wk_chunk_size ctx) \<le> JP_CONF_CHUNK_SIZE_MAX \<and>
     JP_CONF_BUFFER_SIZE_MIN \<le> unat (wk_buffer_size ctx) \<and> unat (wk_buffer_size ctx) \<le> JP_CONF_BUFFER_SIZE_MAX \<and>
     set_ok (wk_fields ctx) \<and> set_cap (wk_fields ctx) = JP_CONF_FIELDS_MAX \<and> wk_queue ctx = None \<and>
     (case wk_out_dir ctx of None \<Rightarrow> True | Some d \<Rightarrow> 0 < length d \<and> length d \<le> JP_PATH_MAX)"

lemma worker_defaults_ok: "worker_ok worker_defaults"
  by (simp add: worker_ok_def worker_defaults_def jp_conf_defs set_ok_def jp_field_set_create_def set_assoc_def)

lemma set_out_dir_ok: "worker_ok ctx \<Longrightarrow> worker_ok (snd (set_out_dir arg ctx))"
  by (auto simp: worker_ok_def set_out_dir_def Let_def split: option.split)

lemma set_policy_ok: "worker_ok ctx \<Longrightarrow> worker_ok (snd (set_policy arg ctx))"
  by (auto simp: worker_ok_def set_policy_def split: option.split)

lemma set_buffer_size_ok: "worker_ok ctx \<Longrightarrow> worker_ok (snd (set_buffer_size arg ctx))"
  by (auto simp: worker_ok_def set_buffer_size_def jp_conf_defs word_less_nat_alt split: option.split prod.split)

lemma set_chunk_size_ok: "worker_ok ctx \<Longrightarrow> worker_ok (snd (set_chunk_size arg ctx))"
  by (auto simp: worker_ok_def set_chunk_size_def jp_conf_defs word_less_nat_alt Let_def split: option.split prod.split)

lemma set_field_ok:
  assumes "worker_ok ctx"
  shows "\<exists>err ctx'. set_field junk arg ctx = Some (err, ctx') \<and> worker_ok ctx'"
proof (cases arg)
  case None
  with assms show ?thesis by (simp add: set_field_def)
next
  case (Some a)
  obtain e s' where "jp_field_set_add junk (wk_fields ctx) a = Some (e, s')" "set_ok s'"
    "set_cap s' = set_cap (wk_fields ctx)"
    using fields.add_keeps_invar [of "wk_fields ctx" junk a] assms by (auto simp: worker_ok_def)
  with assms Some show ?thesis by (simp add: set_field_def worker_ok_def Let_def)
qed

lemma apply_option_ok:
  assumes "worker_ok ctx"
  shows "\<exists>err ctx'. apply_option junk opt ctx = Some (err, ctx') \<and> worker_ok ctx'"
proof -
  obtain c a i argv where opt: "opt = (c, a, i, argv)" by (cases opt)
  have pair: "\<exists>err ctx'. Some p = Some (err, ctx') \<and> worker_ok ctx'" if "worker_ok (snd p)" for p :: "raised option \<times> worker_ctx"
    using that by (cases p) simp
  have dry: "worker_ok (ctx\<lparr>wk_dry_run := True\<rparr>)" using assms by (simp add: worker_ok_def)
  show ?thesis
    unfolding apply_option_def opt prod.case
    using pair [OF set_chunk_size_ok] pair [OF set_buffer_size_ok] pair [OF set_policy_ok] pair [OF set_out_dir_ok]
      set_field_ok [of ctx junk a] dry assms
    by (simp split del: if_split) (simp split: if_split)
qed

lemma collect_cli_args_ok:
  "worker_ok ctx \<Longrightarrow> \<exists>err ctx'. collect_cli_args junk opts final ctx = Some (err, ctx') \<and> worker_ok ctx'"
proof (induction opts arbitrary: ctx)
  case Nil
  then show ?case by (cases final) simp
next
  case (Cons opt opts)
  obtain e ctx1 where "apply_option junk opt ctx = Some (e, ctx1)" "worker_ok ctx1"
    using apply_option_ok [OF Cons.prems] by blast
  with Cons.IH [of ctx1] show ?case by auto
qed

section \<open>The directories of a path\<close>

text \<open>The path without its trailing slashes, and the directories above it, outermost first.\<close>

definition strip_path :: "cstring \<Rightarrow> cstring" where
  "strip_path s = (let t = rev (dropWhile (\<lambda>c. c = 47) (rev s)) in if t = [] then take 1 s else t)"

definition path_parents :: "nat \<Rightarrow> cstring \<Rightarrow> cstring list" where
  "path_parents p s = map (\<lambda>i. take i s) (filter (\<lambda>i. s ! i = 47) [p..<length s])"

fun mkdir_all :: "file_system \<Rightarrow> cstring list \<Rightarrow> raised option \<times> cstring list" where
  "mkdir_all fs [] = (None, [])"
| "mkdir_all fs (d # ds) =
     (if fs_mkdir fs d then case mkdir_all fs ds of (err, made) \<Rightarrow> (err, d # made)
      else (Some (dir_error 219 (bytes ''Could not create the output directory: '') d), [d]))"

lemma strip_path_snoc:
  "strip_path (xs @ [c]) = (if c = 47 \<and> xs \<noteq> [] then strip_path xs else xs @ [c])"
  by (cases xs) (auto simp: strip_path_def Let_def)

lemma strncpy_nth: "length s \<le> n \<Longrightarrow> i < length s \<Longrightarrow> strncpy n s ! i = s ! i"
  by (simp add: strncpy_def nth_append)

lemma length_strncpy [simp]: "length (strncpy n s) = n"
  by (simp add: strncpy_def)

lemma strncpy_clear_last:
  assumes "length (xs @ [c]) \<le> n"
  shows "(strncpy n (xs @ [c]))[length xs := 0] = strncpy n xs"
  using assms by (simp add: strncpy_def list_update_append flip: replicate_Suc)

lemma strip_slashes_eq:
  "length s \<le> n \<Longrightarrow> strip_slashes (strncpy n s) (length s) = Some (strncpy n (strip_path s))"
proof (induction s rule: rev_induct)
  case Nil
  then show ?case by (simp add: strip_slashes.simps strip_path_def)
next
  case (snoc c xs)
  have last: "strncpy n (xs @ [c]) ! length xs = c" using snoc.prems strncpy_nth [of "xs @ [c]" n "length xs"] by simp
  show ?case
  proof (cases "c = 47 \<and> xs \<noteq> []")
    case True
    then have "strip_slashes (strncpy n (xs @ [c])) (length (xs @ [c])) = strip_slashes (strncpy n xs) (length xs)"
      using snoc.prems last strncpy_clear_last [OF snoc.prems] by (subst strip_slashes.simps) simp
    with snoc True show ?thesis by (simp add: strip_path_snoc)
  next
    case False
    then show ?thesis using snoc.prems last by (subst strip_slashes.simps) (auto simp: strip_path_snoc)
  qed
qed

lemma strip_path_prefix: "\<exists>zs. s = strip_path s @ zs"
proof (induction s rule: rev_induct)
  case Nil
  then show ?case by (simp add: strip_path_def)
next
  case (snoc c xs)
  then obtain zs where "xs = strip_path xs @ zs" by blast
  then have "xs @ [c] = strip_path xs @ (zs @ [c])" by simp
  then have "\<exists>zs. xs @ [c] = strip_path xs @ zs" by blast
  then show ?case by (cases "c = 47 \<and> xs \<noteq> []") (auto simp: strip_path_snoc simp del: append_assoc)
qed

lemma strip_path_nonempty: "s \<noteq> [] \<Longrightarrow> strip_path s \<noteq> []"
  by (induction s rule: rev_induct) (auto simp: strip_path_snoc)

lemma cstr_of_strncpy: "0 \<notin> set s \<Longrightarrow> length s < n \<Longrightarrow> cstr_of (strncpy n s) = s"
  using cstr_of_stop [of s "replicate (n - length s - 1) 0"]
  by (simp add: strncpy_def flip: replicate_Suc) (simp add: Suc_diff_Suc)

lemma cstr_of_cut:
  assumes "0 \<notin> set s" "i < length s" "length s \<le> n"
  shows "cstr_of ((strncpy n s)[i := 0]) = take i s"
proof -
  have "(strncpy n s)[i := 0] = take i s @ 0 # drop (Suc i) (strncpy n s)"
    using assms by (simp add: upd_conv_take_nth_drop strncpy_def)
  moreover have "0 \<notin> set (take i s)" using assms(1) by (auto dest: in_set_takeD)
  ultimately show ?thesis by (simp add: cstr_of_stop)
qed

lemma path_parents_step:
  "p < length s \<Longrightarrow> path_parents p s = (if s ! p = 47 then [take p s] else []) @ path_parents (p + 1) s"
  by (simp add: path_parents_def upt_conv_Cons)

lemma mkdir_loop_eq:
  "0 \<notin> set s \<Longrightarrow> p \<le> length s \<Longrightarrow> length s < n \<Longrightarrow>
   mkdir_loop fs (strncpy n s) p = Some (mkdir_all fs (path_parents p s))"
proof (induction "length s - p" arbitrary: p)
  case 0
  then have "strncpy n s ! p = 0" by (simp add: strncpy_def nth_append)
  with 0 show ?case by (simp add: mkdir_loop.simps path_parents_def)
next
  case (Suc k)
  then have p: "p < length s" by simp
  have nz: "s ! p \<noteq> 0" using Suc.prems(1) p by (metis nth_mem)
  have "mkdir_loop fs (strncpy n s) (p + 1) = Some (mkdir_all fs (path_parents (p + 1) s))"
    using Suc p by simp
  then show ?case
    using Suc.prems p nz cstr_of_cut [OF Suc.prems(1) p, of n]
    by (subst mkdir_loop.simps)
      (simp add: strncpy_nth path_parents_step Let_def split: prod.split)
qed

text \<open>Without a NUL in the array the loop runs off its end.\<close>

lemma mkdir_loop_overrun:
  "0 \<notin> set s \<Longrightarrow> p \<le> length s \<Longrightarrow> \<forall>d. fs_mkdir fs d \<Longrightarrow> mkdir_loop fs s p = None"
proof (induction "length s - p" arbitrary: p)
  case 0
  then show ?case by (simp add: mkdir_loop.simps)
next
  case (Suc k)
  then have p: "p < length s" by simp
  then have "s ! p \<noteq> 0" using Suc.prems(1) by (metis nth_mem)
  moreover have "mkdir_loop fs s (p + 1) = None" using Suc p by simp
  ultimately show ?case using Suc.prems(3) p by (subst mkdir_loop.simps) (simp add: Let_def)
qed

definition out_dir_of :: "worker_ctx \<Rightarrow> cstring" where
  "out_dir_of ctx = (case wk_out_dir ctx of Some d \<Rightarrow> d | None \<Rightarrow> JP_CONF_OUTDIR_DEF)"

lemma create_out_dir_eq:
  assumes "0 \<notin> set (out_dir_of ctx)" "0 < length (out_dir_of ctx)" "length (out_dir_of ctx) < JP_PATH_MAX"
  defines "path \<equiv> strip_path (out_dir_of ctx)"
  shows "create_and_normalize_out_dir fs ctx =
     (case mkdir_all fs (path_parents 1 path) of (err, made) \<Rightarrow>
        Some (if err \<noteq> None then (err, ctx, made)
              else case out_dir_check fs path of
                     Inl e \<Rightarrow> (Some e, ctx, made @ [path])
                   | Inr absolute_path \<Rightarrow> (None, ctx\<lparr>wk_out_dir := Some absolute_path\<rparr>, made @ [path])))"
proof -
  obtain zs where zs: "out_dir_of ctx = path @ zs" using strip_path_prefix path_def by blast
  then have path: "0 \<notin> set path" "length path < JP_PATH_MAX" using assms(1,3) by auto
  have ne: "1 \<le> length path"
    using assms(2) strip_path_nonempty [of "out_dir_of ctx"] by (simp add: path_def Suc_le_eq)
  have strip: "strip_slashes (strncpy JP_PATH_MAX (out_dir_of ctx)) (length (out_dir_of ctx)) =
      Some (strncpy JP_PATH_MAX path)"
    using strip_slashes_eq [of "out_dir_of ctx" JP_PATH_MAX] assms(3) by (simp add: path_def)
  show ?thesis
    unfolding create_and_normalize_out_dir_def out_dir_of_def [symmetric] Let_def strip
      Option.bind.bind_lunit mkdir_loop_eq [OF path(1) ne path(2)] cstr_of_strncpy [OF path]
    by (simp split: prod.split)
qed

section \<open>Sizes on the command line\<close>

text \<open>A size is refused: the context is unchanged and the error shows the start of the argument.\<close>

definition refuses :: "jp_errno \<Rightarrow> cstring \<Rightarrow> raised option \<times> worker_ctx \<Rightarrow> worker_ctx \<Rightarrow> bool" where
  "refuses err a res ctx \<longleftrightarrow>
     (\<exists>r. res = (Some r, ctx) \<and> rs_err r = err \<and> rs_src r = JP_ERRNO_SRC_NONE \<and> rs_msg r = Some (size_invalid a))"

lemma dec_nat_not_suffix: "rest \<noteq> dec_nat n @ rest"
  using dec_nat_digits(2) [of n] by (metis append_self_conv2)

lemma chunk_units:
  assumes "n < 2 ^ 64"
  shows "(of_nat n :: size_t) \<le> of_nat (JP_CONF_CHUNK_SIZE_MAX div BYTES_IN_KB) \<longleftrightarrow> n \<le> 128"
  using assms by (simp add: jp_conf_defs word_le_nat_alt unat_of_nat)

lemma chunk_bytes:
  assumes "n \<le> 128"
  shows "unat (of_nat n * of_nat BYTES_IN_KB :: size_t) = n * 1024"
  using assms by (simp add: jp_conf_defs unat_word_ariths unat_of_nat)

text \<open>What the setters make of a parsed number, for both signs.\<close>

lemma set_chunk_size_parsed:
  assumes "strtoull a = (of_nat n, False, bytes ''kb'')" "a \<noteq> bytes ''kb''" "n < 2 ^ 64"
  shows "1 \<le> n \<and> n \<le> 128 \<Longrightarrow> set_chunk_size (Some a) ctx = (None, ctx\<lparr>wk_chunk_size := of_nat (n * 1024)\<rparr>)"
    and "\<not> (1 \<le> n \<and> n \<le> 128) \<Longrightarrow> refuses JP_ECHUNK_SIZE a (set_chunk_size (Some a) ctx) ctx"
proof -
  have ne: "bytes ''kb'' \<noteq> []" "bytes ''kb'' \<noteq> a" using assms(2) by (auto simp: bytes_def)
  show "1 \<le> n \<and> n \<le> 128 \<Longrightarrow> set_chunk_size (Some a) ctx = (None, ctx\<lparr>wk_chunk_size := of_nat (n * 1024)\<rparr>)"
    "\<not> (1 \<le> n \<and> n \<le> 128) \<Longrightarrow> refuses JP_ECHUNK_SIZE a (set_chunk_size (Some a) ctx) ctx"
    using assms(1) ne chunk_units [OF assms(3)] chunk_bytes [of n]
    by (auto simp: set_chunk_size_def word_less_nat_alt jp_conf_defs Let_def refuses_def raise_defs)
qed

lemma set_buffer_size_parsed:
  assumes "strtoull a = (of_nat n, False, [])" "a \<noteq> []" "n < 2 ^ 64"
  shows "1 \<le> n \<and> n \<le> 1024 \<Longrightarrow> set_buffer_size (Some a) ctx = (None, ctx\<lparr>wk_buffer_size := of_nat n\<rparr>)"
    and "\<not> (1 \<le> n \<and> n \<le> 1024) \<Longrightarrow> refuses JP_EBUFFER_SIZE a (set_buffer_size (Some a) ctx) ctx"
  using assms
  by (auto simp: set_buffer_size_def word_less_nat_alt jp_conf_defs unat_of_nat refuses_def raise_defs)

lemma kb_stops: "bytes ''kb'' = [] \<or> \<not> is_dec_digit (hd (bytes ''kb''))"
  by (simp add: bytes_def)

text \<open>
  Sizes. For every number \<open>n\<close>, of any magnitude, \<open>set_chunk_size\<close> takes its decimal form followed
  by \<open>kb\<close> if and only if it is between 1 and 128, and then stores \<open>n\<close> times 1024; \<open>set_buffer_size\<close>
  takes its decimal form if and only if it is between 1 and 1024, and then stores \<open>n\<close>. Otherwise
  the context is unchanged and the error is the setter's own, with the first 32 bytes of the argument
  in its message.
\<close>

theorem size_arguments:
  "(if 1 \<le> n \<and> n \<le> 128
    then set_chunk_size (Some (dec_nat n @ bytes ''kb'')) ctx = (None, ctx\<lparr>wk_chunk_size := of_nat (n * 1024)\<rparr>)
    else refuses JP_ECHUNK_SIZE (dec_nat n @ bytes ''kb'') (set_chunk_size (Some (dec_nat n @ bytes ''kb'')) ctx) ctx) \<and>
   (if 1 \<le> n \<and> n \<le> 1024
    then set_buffer_size (Some (dec_nat n)) ctx = (None, ctx\<lparr>wk_buffer_size := of_nat n\<rparr>)
    else refuses JP_EBUFFER_SIZE (dec_nat n) (set_buffer_size (Some (dec_nat n)) ctx) ctx)"
proof (cases "n < 2 ^ 64")
  case True
  with set_chunk_size_parsed [of "dec_nat n @ bytes ''kb''" n ctx] set_buffer_size_parsed [of "dec_nat n" n ctx]
    strtoull_dec(1) [OF kb_stops, of n] strtoull_dec(1) [of "[]" n] dec_nat_digits(2) [of n]
  show ?thesis by simp
next
  case False
  then show ?thesis
    using strtoull_dec(1) [OF kb_stops, of n] strtoull_dec(1) [of "[]" n]
    by (simp add: set_chunk_size_def set_buffer_size_def refuses_def raise_defs)
qed

text \<open>
  The unit of the chunk size. A number with any other unit than \<open>kb\<close>, or with none, is refused and
  leaves the context as it was.
\<close>

theorem chunk_size_other_units:
  assumes "u \<noteq> bytes ''kb''" "u = [] \<or> \<not> is_dec_digit (hd u)"
  shows "refuses JP_ECHUNK_SIZE (dec_nat n @ u) (set_chunk_size (Some (dec_nat n @ u)) ctx) ctx"
  using strtoull_dec(1) [OF assms(2), of n] assms(1) by (simp add: set_chunk_size_def refuses_def raise_defs)

theorem chunk_size_other_units_witness:
  "refuses JP_ECHUNK_SIZE (dec_nat 1 @ bytes ''mb'')
     (set_chunk_size (Some (dec_nat 1 @ bytes ''mb'')) worker_defaults) worker_defaults"
  by (rule chunk_size_other_units) (simp_all add: bytes_def)

lemma negative_wrap: "n \<le> 2 ^ 64 \<Longrightarrow> - of_nat (2 ^ 64 - n) = (of_nat n :: 64 word)"
  by (simp add: of_nat_diff)

text \<open>
  A negative size is not refused as such: \<open>strtoull\<close> negates in 64-bit arithmetic without an error,
  and both setters take \<open>-(2^64 - n)\<close> for \<open>n\<close> when \<open>n\<close> is in range.
\<close>

theorem negative_sizes_wrap:
  assumes "1 \<le> n" "n \<le> 128"
  shows "set_chunk_size (Some (45 # dec_nat (2 ^ 64 - n) @ bytes ''kb'')) ctx =
           (None, ctx\<lparr>wk_chunk_size := of_nat (n * 1024)\<rparr>) \<and>
         set_buffer_size (Some (45 # dec_nat (2 ^ 64 - n))) ctx = (None, ctx\<lparr>wk_buffer_size := of_nat n\<rparr>)"
proof -
  have "strtoull (45 # dec_nat (2 ^ 64 - n) @ bytes ''kb'') = (of_nat n, False, bytes ''kb'')"
    "strtoull (45 # dec_nat (2 ^ 64 - n)) = (of_nat n, False, [])"
    using strtoull_dec(2) [OF kb_stops, of "2 ^ 64 - n"] strtoull_dec(2) [of "[]" "2 ^ 64 - n"]
      negative_wrap [of n] assms by simp_all
  then show ?thesis
    using assms set_chunk_size_parsed [of "45 # dec_nat (2 ^ 64 - n) @ bytes ''kb''" n ctx]
      set_buffer_size_parsed [of "45 # dec_nat (2 ^ 64 - n)" n ctx]
    by (simp add: bytes_def)
qed

theorem negative_sizes_wrap_witness:
  "fst (set_chunk_size (Some (45 # dec_nat (2 ^ 64 - 1) @ bytes ''kb'')) worker_defaults) = None \<and>
   wk_chunk_size (snd (set_chunk_size (Some (45 # dec_nat (2 ^ 64 - 1) @ bytes ''kb'')) worker_defaults)) = 1024"
  using negative_sizes_wrap [of 1 worker_defaults] by simp

text \<open>
  C23: the command line. Whatever options \<open>getopt_long\<close> finds, \<open>collect_cli_args\<close> returns, and from the
  defaults the context it leaves is in range: chunk size between 1 kb and 128 kb, buffer size
  between 1 and 1024, a well-formed set of at most 32 fields, an output path that is not empty and
  has at most 4096 bytes, and no queue.
\<close>

theorem worker_args_in_range:
  "\<exists>err ctx. collect_cli_args junk opts final worker_defaults = Some (err, ctx) \<and> worker_ok ctx"
  by (rule collect_cli_args_ok [OF worker_defaults_ok])

section \<open>The output directory is made\<close>

text \<open>The directories asked for: up to the first that cannot be made, and with it.\<close>

definition asked :: "(cstring \<Rightarrow> bool) \<Rightarrow> cstring list \<Rightarrow> cstring list" where
  "asked P ds = takeWhile P ds @ take 1 (dropWhile P ds)"

lemma asked_snoc: "asked P (ds @ [d]) = (if list_all P ds then ds @ [d] else asked P ds)"
  by (induction ds) (auto simp: asked_def)

lemma asked_all: "list_all P ds \<Longrightarrow> asked P ds = ds"
  by (induction ds) (auto simp: asked_def)

lemma mkdir_all_made:
  "case mkdir_all fs ds of (err, made) \<Rightarrow>
     made = asked (fs_mkdir fs) ds \<and>
     (if list_all (fs_mkdir fs) ds then err = None else \<exists>r. err = Some r \<and> rs_err r = JP_EOUT_DIR)"
  by (induction ds) (auto simp: asked_def dir_error_def raise_defs split: prod.splits)

lemma out_dir_check_cases:
  "if fs_mkdir fs path \<and> fs_is_dir fs path \<and> fs_writable fs path \<and> fs_realpath fs path \<noteq> None
   then out_dir_check fs path = Inr (the (fs_realpath fs path))
   else \<exists>r. out_dir_check fs path = Inl r \<and> rs_err r = JP_EOUT_DIR"
  by (auto simp: out_dir_check_def dir_error_def raise_defs)

text \<open>
  C22: the output directory. For a path that is not empty and leaves room for its NUL,
  \<open>create_and_normalize_out_dir\<close> drops the trailing slashes (never the only byte), asks for every
  directory above the path, outermost first, and then for the path itself, stopping at the first
  one that cannot be made; it succeeds exactly if all were made or existed, the path is a writable
  directory and has an absolute name, and then stores that name. Otherwise the context is unchanged and
  one error is raised, whose code is \<open>JP_EOUT_DIR\<close>.
\<close>

theorem out_dir_correct:
  assumes "0 \<notin> set (out_dir_of ctx)" "0 < length (out_dir_of ctx)" "length (out_dir_of ctx) < JP_PATH_MAX"
  shows "let path = strip_path (out_dir_of ctx);
             ds = path_parents 1 path @ [path];
             made = asked (fs_mkdir fs) ds
         in if list_all (fs_mkdir fs) ds \<and> fs_is_dir fs path \<and> fs_writable fs path \<and> fs_realpath fs path \<noteq> None
            then create_and_normalize_out_dir fs ctx =
                   Some (None, ctx\<lparr>wk_out_dir := fs_realpath fs path\<rparr>, made)
            else \<exists>r. create_and_normalize_out_dir fs ctx = Some (Some r, ctx, made) \<and> rs_err r = JP_EOUT_DIR"
proof -
  define path where "path = strip_path (out_dir_of ctx)"
  define ps where "ps = path_parents 1 path"
  obtain err made where all: "mkdir_all fs ps = (err, made)" by (cases "mkdir_all fs ps")
  have eq: "create_and_normalize_out_dir fs ctx =
     Some (if err \<noteq> None then (err, ctx, made)
           else case out_dir_check fs path of
                  Inl e \<Rightarrow> (Some e, ctx, made @ [path])
                | Inr absolute_path \<Rightarrow> (None, ctx\<lparr>wk_out_dir := Some absolute_path\<rparr>, made @ [path]))"
    using all unfolding ps_def path_def create_out_dir_eq [OF assms] by simp
  show ?thesis
    unfolding Let_def path_def [symmetric] ps_def [symmetric] eq
    using mkdir_all_made [of fs ps] out_dir_check_cases [of fs path] all
    by (auto simp: asked_snoc asked_all split: if_splits)
qed

definition example_fs :: file_system where
  "example_fs = \<lparr>fs_mkdir = (\<lambda>_. True), fs_is_dir = (\<lambda>_. True), fs_writable = (\<lambda>_. True),
     fs_realpath = (\<lambda>p. Some (bytes ''/'' @ p))\<rparr>"

theorem out_dir_correct_witness:
  "create_and_normalize_out_dir example_fs (worker_defaults\<lparr>wk_out_dir := Some (bytes ''var/log//'')\<rparr>) =
     Some (None, worker_defaults\<lparr>wk_out_dir := Some (bytes ''/var/log'')\<rparr>, [bytes ''var'', bytes ''var/log''])"
proof -
  let ?ctx = "worker_defaults\<lparr>wk_out_dir := Some (bytes ''var/log//'')\<rparr>"
  have "0 \<notin> set (out_dir_of ?ctx)" "0 < length (out_dir_of ?ctx)" "length (out_dir_of ?ctx) < JP_PATH_MAX"
    by (simp_all add: out_dir_of_def bytes_def JP_PATH_MAX_def)
  note correct = out_dir_correct [OF this, of example_fs]
  have "strip_path (out_dir_of ?ctx) = bytes ''var/log''"
    by (simp add: out_dir_of_def strip_path_def bytes_def)
  moreover have "path_parents 1 (bytes ''var/log'') = [bytes ''var'']"
    by (simp add: path_parents_def bytes_def upt_rec)
  ultimately show ?thesis
    using correct by (simp add: example_fs_def bytes_def Let_def asked_def)
qed

lemma mkdir_full: "length d = n \<Longrightarrow> strncpy n d = d"
  by (simp add: strncpy_def)

text \<open>
  The longest path that \<open>set_out_dir\<close> takes, 4096 bytes, fills \<open>tmp\<close> and leaves no NUL: when it does
  not end in a slash and no \<^verbatim>\<open>mkdir\<close> fails, \<open>create_and_normalize_out_dir\<close> reads past the end of \<open>tmp\<close>.
\<close>

theorem out_dir_overrun:
  assumes "length d = JP_PATH_MAX" "0 \<notin> set d" "last d \<noteq> 47" "\<forall>p. fs_mkdir fs p"
  shows "set_out_dir (Some d) ctx = (None, ctx\<lparr>wk_out_dir := Some d\<rparr>) \<and>
         create_and_normalize_out_dir fs (ctx\<lparr>wk_out_dir := Some d\<rparr>) = None"
proof -
  have d: "d \<noteq> []" using assms(1) by (auto simp: JP_PATH_MAX_def)
  then have "strip_slashes d (length d) = Some d"
    using assms(3) by (subst strip_slashes.simps) (simp add: last_conv_nth)
  moreover have "mkdir_loop fs d 1 = None"
    using assms d by (intro mkdir_loop_overrun) (auto simp: JP_PATH_MAX_def)
  moreover have "0 < JP_PATH_MAX" by (simp add: JP_PATH_MAX_def)
  ultimately show ?thesis
    using assms(1) by (simp add: set_out_dir_def create_and_normalize_out_dir_def mkdir_full Let_def)
qed

theorem out_dir_overrun_witness:
  "set_out_dir (Some (replicate 4096 97)) worker_defaults =
     (None, worker_defaults\<lparr>wk_out_dir := Some (replicate 4096 97)\<rparr>) \<and>
   create_and_normalize_out_dir example_fs (worker_defaults\<lparr>wk_out_dir := Some (replicate 4096 97)\<rparr>) = None"
  by (rule out_dir_overrun) (simp_all add: JP_PATH_MAX_def example_fs_def last_replicate)

end
