(* ===== verification/JP_Worker_Run.thy ===== *)
theory JP_Worker_Run
  imports JP_Worker_Args
begin

text \<open>
  The \<open>run\<close> command as a whole: which threads are joined and cancelled, what every run guarantees
  (\<open>run_contract\<close>), the errors it raises, and the summary.
\<close>

section \<open>The threads are joined\<close>

lemma jp_errno_code_0: "jp_errno_code e = 0 \<longleftrightarrow> e = JP_OK"
  by (cases e) (simp_all)

text \<open>
  C26: the threads. With the POSIX convention that \<^verbatim>\<open>pthread_create\<close> returns no negative number,
  \<open>orchestrate_threads\<close> returns success if and only if all three threads were created and the two
  worker threads were joined without an error and returned none. The signals are blocked before the first thread
  is created, so that every thread starts with them blocked. Exactly the worker threads that
  were created are joined, once each, and these were created joinable; they are cancelled, before that, exactly if
  a later creation failed; the watcher is created detached, and neither cancelled nor joined; and in every case the
  queue is shut down after the joins. Nothing is raised if and only if all
  threads were created and the joins themselves did not fail: the error of a worker thread is left to
  that thread. Every error raised has the code \<open>JP_ESYS_ERR\<close> with a system code.
\<close>

theorem orchestrate_threads_correct:
  assumes "0 \<le> te_create_consumer env" "0 \<le> te_create_producer env" "0 \<le> te_create_watcher env"
  shows "\<exists>tried started cancelled raises. orchestrate_threads env =
      (if te_create_consumer env = 0 \<and> te_create_producer env = 0 \<and> te_create_watcher env = 0 \<and>
          fst (join_worker_thread (te_join_consumer env)) = JP_OK \<and>
          fst (join_worker_thread (te_join_producer env)) = JP_OK
       then JP_OK else JP_ERUN_FAILED, raises,
       [Signals_Blocked [SIGTERM, SIGINT]] @
       map (\<lambda>(t, err). Created t (if t = Signal_Watcher then watcher_attr else attr_init) err) tried @
       map Cancelled cancelled @ map Joined started @ [Queue_Finalized, Attr_Destroyed]) \<and>
    at_detached watcher_attr \<and> \<not> at_detached attr_init \<and>
    tried = take (if te_create_consumer env \<noteq> 0 then 1 else if te_create_producer env \<noteq> 0 then 2 else 3)
      [(Consumer, te_create_consumer env), (Producer, te_create_producer env), (Signal_Watcher, te_create_watcher env)] \<and>
    started = map fst (filter (\<lambda>(t, err). t \<noteq> Signal_Watcher \<and> err = 0) tried) \<and>
    cancelled = (if list_all (\<lambda>(t, err). err = 0) tried then [] else started) \<and>
    (raises = [] \<longleftrightarrow> te_create_consumer env = 0 \<and> te_create_producer env = 0 \<and> te_create_watcher env = 0 \<and>
       fst (te_join_consumer env) = 0 \<and> fst (te_join_producer env) = 0) \<and>
    list_all (\<lambda>r. rs_err r = JP_ESYS_ERR \<and> rs_src r = JP_ERRNO_SRC_POSIX \<and> rs_sys r \<noteq> 0) raises"
proof -
  obtain c_err c_raises p_err p_raises where
    j: "join_worker_thread (te_join_consumer env) = (c_err, c_raises)"
    "join_worker_thread (te_join_producer env) = (p_err, p_raises)" by (meson surj_pair)
  have "join_worker_thread j = (e, rs) \<Longrightarrow> (rs = [] \<longleftrightarrow> fst j = 0) \<and>
      list_all (\<lambda>r. rs_err r = JP_ESYS_ERR \<and> rs_src r = JP_ERRNO_SRC_POSIX \<and> rs_sys r \<noteq> 0) rs" for j e rs
    by (cases j) (auto simp: join_worker_thread_def raise_defs split: option.splits if_splits)
  note join = this [OF j(1)] this [OF j(2)]
  have cancel: "list_all (\<lambda>r. rs_err r = JP_ESYS_ERR \<and> rs_src r = JP_ERRNO_SRC_POSIX \<and> rs_sys r \<noteq> 0)
      (cancel_worker_thread e)" for e
    by (simp add: cancel_worker_thread_def raise_defs)
  consider "te_create_consumer env \<noteq> 0" | "te_create_consumer env = 0" "te_create_producer env \<noteq> 0"
    | "te_create_consumer env = 0" "te_create_producer env = 0" by blast
  then show ?thesis
    using assms join cancel
    by cases (auto simp: orchestrate_threads_def Let_def j jp_errno_code_0 add_nonneg_eq_0_iff raise_defs
        blocked_signals_def attr_init_def watcher_attr_def)
qed

theorem orchestrate_threads_correct_witness:
  "\<exists>raises. orchestrate_threads \<lparr>te_create_consumer = 0, te_create_producer = 11, te_create_watcher = 0,
      te_cancel_consumer = 0, te_cancel_producer = 0, te_join_consumer = (0, None), te_join_producer = (0, None)\<rparr> =
   (JP_ERUN_FAILED, raises,
    [Signals_Blocked [SIGTERM, SIGINT], Created Consumer attr_init 0, Created Producer attr_init 11, Cancelled Consumer,
     Joined Consumer, Queue_Finalized, Attr_Destroyed]) \<and> raises \<noteq> []"
  using orchestrate_threads_correct [of "\<lparr>te_create_consumer = 0, te_create_producer = 11, te_create_watcher = 0,
      te_cancel_consumer = 0, te_cancel_producer = 0, te_join_consumer = (0, None), te_join_producer = (0, None)\<rparr>"]
  by auto

section \<open>The command as a whole\<close>

text \<open>The output path of the context is one of the arguments, and not longer than \<open>JP_PATH_MAX\<close>.\<close>

lemma apply_option_out_dir:
  "apply_option junk opt ctx = Some (err, ctx') \<Longrightarrow>
   wk_out_dir ctx' \<in> {wk_out_dir ctx, None} \<or>
   fst opt = of_char CHR ''o'' \<and> wk_out_dir ctx' = fst (snd opt) \<and> pred_option (\<lambda>a. length a \<le> JP_PATH_MAX) (wk_out_dir ctx')"
  by (cases opt)
    (auto simp: apply_option_def set_chunk_size_def set_buffer_size_def set_policy_def set_out_dir_def set_field_def
      Let_def bind_eq_Some_conv split: if_splits option.splits prod.splits)

text \<open>
  What the command relies on of \<^verbatim>\<open>getopt_long\<close>: the arguments are C strings and \<^verbatim>\<open>argv\<close> is not empty. The
  argument of \<open>-o\<close> must not be of exactly \<open>JP_PATH_MAX\<close> bytes: it would be accepted and leave no room for its NUL in the
  array of the path (\<open>out_dir_overrun\<close>); a longer one is refused.
\<close>

definition getopt_step_ok :: "getopt_step \<Rightarrow> bool" where
  "getopt_step_ok opt =
     (case opt of (option, optarg, optind, argv) \<Rightarrow>
        argv \<noteq> [] \<and> list_all (\<lambda>a. 0 \<notin> set a) argv \<and>
        (case optarg of None \<Rightarrow> True
                      | Some a \<Rightarrow> 0 \<notin> set a \<and> (option = of_char CHR ''o'' \<longrightarrow> length a \<noteq> JP_PATH_MAX)))"

definition getopt_ok :: "getopt_step list \<Rightarrow> nat \<times> cstring list \<Rightarrow> bool" where
  "getopt_ok opts final \<longleftrightarrow> list_all getopt_step_ok opts \<and> list_all (\<lambda>a. 0 \<notin> set a) (snd final)"

definition out_dir_fits :: "worker_ctx \<Rightarrow> bool" where
  "out_dir_fits ctx \<longleftrightarrow> 0 \<notin> set (out_dir_of ctx) \<and> length (out_dir_of ctx) < JP_PATH_MAX"

lemma default_out_dir_fits: "wk_out_dir ctx = None \<Longrightarrow> out_dir_fits ctx"
  by (simp add: out_dir_fits_def out_dir_of_def JP_CONF_OUTDIR_DEF_def JP_PATH_MAX_def bytes_def)

lemma apply_option_fits:
  assumes "apply_option junk opt ctx = Some (err, ctx')" "getopt_step_ok opt" "out_dir_fits ctx"
  shows "out_dir_fits ctx'"
proof (cases "wk_out_dir ctx'")
  case None
  then show ?thesis by (rule default_out_dir_fits)
next
  case (Some d)
  with apply_option_out_dir [OF assms(1)] have "wk_out_dir ctx = Some d \<or> fst opt = of_char CHR ''o'' \<and> fst (snd opt) = Some d \<and> length d \<le> JP_PATH_MAX"
    by auto
  with Some assms(2,3) show ?thesis
    by (auto simp: getopt_step_ok_def out_dir_fits_def out_dir_of_def split: prod.splits)
qed

lemma collect_cli_args_fits:
  "collect_cli_args junk opts final ctx = Some (err, ctx') \<Longrightarrow> list_all getopt_step_ok opts \<Longrightarrow> out_dir_fits ctx \<Longrightarrow>
   out_dir_fits ctx'"
proof (induction opts arbitrary: ctx)
  case (Cons opt opts)
  from Cons.prems(1) obtain e ctx1 where step: "apply_option junk opt ctx = Some (e, ctx1)"
    "(if e \<noteq> None then Some (e, ctx1) else collect_cli_args junk opts final ctx1) = Some (err, ctx')"
    by (auto simp: bind_eq_Some_conv)
  with Cons.IH [of ctx1] apply_option_fits [OF step(1)] Cons.prems(2,3) show ?case by (auto split: if_splits)
qed (cases final; auto split: if_splits)

section \<open>What is raised\<close>

text \<open>An error that the run command reports: no success code, and a message without a NUL.\<close>

definition reportable :: "raised \<Rightarrow> bool" where
  "reportable r \<longleftrightarrow> raised_ok r \<and> rs_err r \<noteq> JP_OK"

lemma wk_file_no_nul: "0 \<notin> set (bytes ''worker.c'')"
  by (simp add: bytes_def)

lemma reportable_raise: "reportable (wk_raise line err) \<longleftrightarrow> int32 line \<and> err \<noteq> JP_OK"
  using wk_file_no_nul by (simp add: reportable_def raised_ok_def raise_defs int32_def)

lemma reportable_raisef: "reportable (wk_raisef line err msg) \<longleftrightarrow> int32 line \<and> err \<noteq> JP_OK \<and> 0 \<notin> set msg"
  using wk_file_no_nul by (auto simp: reportable_def raised_ok_def raise_defs int32_def)

lemma reportable_raise_posix:
  "reportable (wk_raise_posix line err code) \<longleftrightarrow> int32 line \<and> err \<noteq> JP_OK \<and> int32 code"
  using wk_file_no_nul by (auto simp: reportable_def raised_ok_def raise_defs)

lemmas reportable_simps =
  reportable_raise reportable_raisef reportable_raise_posix int32_def size_invalid_def quoted_def dec_nat_no_nul

lemma in_take: "x \<notin> set xs \<Longrightarrow> x \<notin> set (take n xs)"
  by (auto dest: in_set_takeD)

lemma setters_reportable:
  assumes "case arg of None \<Rightarrow> True | Some a \<Rightarrow> 0 \<notin> set a"
  shows "fst (set_chunk_size arg ctx) = Some r \<Longrightarrow> reportable r"
    and "fst (set_buffer_size arg ctx) = Some r \<Longrightarrow> reportable r"
    and "fst (set_policy arg ctx) = Some r \<Longrightarrow> reportable r"
    and "fst (set_out_dir arg ctx) = Some r \<Longrightarrow> reportable r"
    and "set_field junk arg ctx = Some (Some r, ctx') \<Longrightarrow> reportable r"
  using assms
  by (auto simp: set_chunk_size_def set_buffer_size_def set_policy_def set_out_dir_def set_field_def Let_def
      bind_eq_Some_conv reportable_simps in_take split: option.splits prod.splits if_splits)
    (simp_all add: bytes_def)

lemma handle_unknown_reportable: "0 \<notin> set cmd \<Longrightarrow> reportable (handle_unknown_argument cmd)"
  by (simp add: handle_unknown_argument_def reportable_simps in_take) (simp add: bytes_def)

lemma apply_option_reportable:
  assumes "apply_option junk opt ctx = Some (Some r, ctx')" "getopt_step_ok opt"
  shows "reportable r"
proof -
  obtain c a i argv where opt: "opt = (c, a, i, argv)" by (cases opt)
  have a: "case a of None \<Rightarrow> True | Some a \<Rightarrow> 0 \<notin> set a"
    using assms(2) by (auto simp: opt getopt_step_ok_def split: option.splits)
  have "0 \<notin> set (if i < length argv then argv ! i else argv ! (length argv - 1))"
    using assms(2) by (auto simp: opt getopt_step_ok_def list_all_length)
  note unknown = handle_unknown_reportable [OF this]
  show ?thesis
    using assms(1) setters_reportable(1-4) [OF a, of ctx r] setters_reportable(5) [OF a, of junk ctx r ctx'] unknown
    by (auto simp: apply_option_def opt split: if_splits)
qed

lemma collect_cli_args_reportable:
  "collect_cli_args junk opts final ctx = Some (Some r, ctx') \<Longrightarrow> getopt_ok opts final \<Longrightarrow> reportable r"
proof (induction opts arbitrary: ctx)
  case Nil
  then show ?case
    by (cases final) (auto simp: getopt_ok_def list_all_length handle_unknown_reportable split: if_splits)
next
  case (Cons opt opts)
  from Cons.prems(1) obtain e ctx1 where step: "apply_option junk opt ctx = Some (e, ctx1)"
    "(if e \<noteq> None then Some (e, ctx1) else collect_cli_args junk opts final ctx1) = Some (Some r, ctx')"
    by (auto simp: bind_eq_Some_conv)
  with Cons.IH [of ctx1] apply_option_reportable [of junk opt ctx r ctx1] Cons.prems(2) show ?case
    by (auto simp: getopt_ok_def split: if_splits)
qed

text \<open>What the threads are started with.\<close>

definition worker_ready :: "worker_ctx \<Rightarrow> bool" where
  "worker_ready ctx \<longleftrightarrow>
     (\<exists>q. wk_queue ctx = Some q \<and> queue_ok q \<and> queue_contents q = [] \<and> q_active q \<and>
          q_capacity q = wk_buffer_size ctx \<and> q_chunk_size q = wk_chunk_size ctx \<and> q_policy q = wk_policy ctx) \<and>
     worker_ok (ctx\<lparr>wk_queue := None, wk_out_dir := None\<rparr>) \<and> wk_out_dir ctx \<noteq> None"

lemma take_path_no_nul: "0 \<notin> set s \<Longrightarrow> 0 \<notin> set (width128 s)"
  by (simp add: width128_def)

lemma dir_error_reportable:
  "int32 line \<Longrightarrow> 0 \<notin> set msg \<Longrightarrow> 0 \<notin> set path \<Longrightarrow> reportable (dir_error line msg path)"
  by (simp add: dir_error_def reportable_raisef quoted_def take_path_no_nul)

lemma mkdir_all_reportable:
  "fst (mkdir_all fs ds) = Some r \<Longrightarrow> list_all (\<lambda>d. 0 \<notin> set d) ds \<Longrightarrow> reportable r"
proof (induction ds)
  case (Cons d ds)
  have "reportable (dir_error 219 (bytes ''Could not create the output directory: '') d)"
    using Cons.prems(2) by (intro dir_error_reportable) (simp_all add: int32_def bytes_def)
  with Cons show ?case by (auto split: if_splits prod.splits)
qed simp

lemma out_dir_check_reportable: "out_dir_check fs path = Inl r \<Longrightarrow> 0 \<notin> set path \<Longrightarrow> reportable r"
  by (auto simp: out_dir_check_def int32_def bytes_def split: if_splits option.splits intro!: dir_error_reportable)

lemma create_out_dir_cases:
  assumes "out_dir_fits ctx" "0 < length (out_dir_of ctx)"
  shows "(\<exists>r made. create_and_normalize_out_dir fs ctx = Some (Some r, ctx, made) \<and> reportable r) \<or>
     (\<exists>made p. create_and_normalize_out_dir fs ctx = Some (None, ctx\<lparr>wk_out_dir := Some p\<rparr>, made))"
proof -
  have fits: "0 \<notin> set (out_dir_of ctx)" "length (out_dir_of ctx) < JP_PATH_MAX"
    using assms(1) by (simp_all add: out_dir_fits_def)
  define path where "path = strip_path (out_dir_of ctx)"
  have nul: "0 \<notin> set path" using strip_path_prefix [of "out_dir_of ctx"] fits(1) by (metis path_def UnCI set_append)
  then have "list_all (\<lambda>d. 0 \<notin> set d) (path_parents 1 path)"
    by (auto simp: path_parents_def list_all_iff dest: in_set_takeD)
  with mkdir_all_reportable [of fs "path_parents 1 path"] out_dir_check_reportable [of fs path] nul
  show ?thesis
    unfolding create_out_dir_eq [OF fits(1) assms(2) fits(2)] path_def [symmetric]
    by (auto split: prod.splits sum.splits)
qed

lemma finalize_worker_args_cases:
  assumes "worker_ok ctx" "out_dir_fits ctx" "int32 mi" "int32 ei" "int32 fi"
    and "unat sizeof_queue < 2 ^ 32" "unat sizeof_block < 2 ^ 32"
  shows "\<exists>raises ctx' held. finalize_worker_args junk fs sizeof_queue sizeof_block mi ei fi ctx = Some (raises, ctx', held) \<and>
     jp_queue_destroy (wk_queue ctx') held = [] \<and> wk_dry_run ctx' = wk_dry_run ctx \<and> list_all reportable raises \<and>
     (raises = [] \<longrightarrow> worker_ready ctx') \<and>
     (raises = [] \<longleftrightarrow> (\<exists>c made. create_and_normalize_out_dir fs ctx = Some (None, c, made)) \<and> mi = 0 \<and> ei = 0 \<and> fi = 0)"
proof -
  have ok: "JP_CONF_BUFFER_SIZE_MIN \<le> unat (wk_buffer_size ctx)" "unat (wk_buffer_size ctx) \<le> JP_CONF_BUFFER_SIZE_MAX"
    "unat (wk_chunk_size ctx) \<le> JP_CONF_CHUNK_SIZE_MAX" "wk_queue ctx = None"
    using assms(1) by (simp_all add: worker_ok_def)
  have "0 < length (out_dir_of ctx)"
    using assms(1) by (auto simp: worker_ok_def out_dir_of_def JP_CONF_OUTDIR_DEF_def bytes_def split: option.splits)
  note cases = create_out_dir_cases [OF assms(2) this, of fs]
  obtain q where q: "jp_queue_create junk sizeof_queue sizeof_block mi ei fi (wk_buffer_size ctx) (wk_chunk_size ctx) (wk_policy ctx) =
      Some (if mi = 0 \<and> ei = 0 \<and> fi = 0
            then (Some q, None, [Queue_Not_Full, Queue_Not_Empty, Queue_Lock, Queue_Object])
            else (None, Some (JP_ESYS_ERR, if mi \<noteq> 0 then mi else if ei \<noteq> 0 then ei else fi), []))"
    "queue_ok q" "queue_contents q = []" "q_active q" "q_capacity q = wk_buffer_size ctx"
    "q_chunk_size q = wk_chunk_size ctx" "q_policy q = wk_policy ctx"
    using jp_queue_create_conf [OF ok(1-3) assms(6,7), of junk mi ei fi "wk_policy ctx"] by blast
  have posix: "reportable (JP_ERRNO_RAISE_POSIX (bytes ''queue.c'') line JP_ESYS_ERR code)" if "int32 line" "int32 code"
    for line code
    using that by (simp add: reportable_def raised_ok_def raise_defs bytes_def)
  from cases show ?thesis
  proof (elim disjE exE conjE)
    fix r made
    assume "create_and_normalize_out_dir fs ctx = Some (Some r, ctx, made)" "reportable r"
    then show ?thesis using ok(4) by (simp add: finalize_worker_args_def jp_queue_destroy_def)
  next
    fix made p
    assume "create_and_normalize_out_dir fs ctx = Some (None, ctx\<lparr>wk_out_dir := Some p\<rparr>, made)"
    then show ?thesis
      using q assms(1,3-5) posix
      by (simp add: finalize_worker_args_def jp_queue_destroy_def worker_ready_def worker_ok_def reportable_raise)
  qed
qed

lemma orchestrate_threads_reportable:
  assumes "list_all int32 [te_create_consumer env, te_create_producer env, te_create_watcher env, te_cancel_consumer env,
     te_cancel_producer env, fst (te_join_consumer env), fst (te_join_producer env)]"
  shows "list_all reportable (fst (snd (orchestrate_threads env)))"
proof -
  obtain c_err c_raises p_err p_raises where
    j: "join_worker_thread (te_join_consumer env) = (c_err, c_raises)"
    "join_worker_thread (te_join_producer env) = (p_err, p_raises)" by (meson surj_pair)
  have "join_worker_thread j = (e, rs) \<Longrightarrow> int32 (fst j) \<Longrightarrow> list_all reportable rs" for j e rs
    by (cases j) (auto simp: join_worker_thread_def reportable_raise_posix int32_def split: option.splits if_splits)
  note this [OF j(1)] this [OF j(2)]
  moreover have "list_all reportable (cancel_worker_thread e)" if "int32 e" for e
    using that by (simp add: cancel_worker_thread_def reportable_raise_posix int32_def)
  moreover have "reportable (wk_raise_posix 431 JP_ESYS_ERR e)" if "int32 e" for e
    using that by (simp add: reportable_raise_posix int32_def)
  ultimately show ?thesis using assms by (simp add: orchestrate_threads_def Let_def j)
qed

text \<open>The \<^verbatim>\<open>pthread\<close> functions return 0 or a positive error number.\<close>

definition codes_ok :: "int \<Rightarrow> int \<Rightarrow> int \<Rightarrow> thread_env \<Rightarrow> bool" where
  "codes_ok mi ei fi env \<longleftrightarrow>
     list_all (\<lambda>e. 0 \<le> e \<and> int32 e) [mi, ei, fi, te_create_consumer env, te_create_producer env, te_create_watcher env,
       te_cancel_consumer env, te_cancel_producer env, fst (te_join_consumer env), fst (te_join_producer env)]"

lemma orchestrate_threads_quiet:
  assumes "codes_ok mi ei fi env" "fst (orchestrate_threads env) = JP_OK"
  shows "fst (snd (orchestrate_threads env)) = []"
proof -
  obtain c_err c_raises p_err p_raises where
    j: "join_worker_thread (te_join_consumer env) = (c_err, c_raises)"
    "join_worker_thread (te_join_producer env) = (p_err, p_raises)" by (meson surj_pair)
  have quiet: "join_worker_thread j = (JP_OK, rs) \<Longrightarrow> rs = []" for j rs
    by (cases j) (auto simp: join_worker_thread_def split: option.splits if_splits)
  show ?thesis
    using assms j quiet
    by (auto simp: orchestrate_threads_def codes_ok_def Let_def jp_errno_code_0 add_nonneg_eq_0_iff split: if_splits)
qed

text \<open>A failure that the main thread does not report has been returned by a worker thread.\<close>

lemma orchestrate_threads_unreported:
  assumes "codes_ok mi ei fi env" "fst (orchestrate_threads env) \<noteq> JP_OK" "fst (snd (orchestrate_threads env)) = []"
  shows "\<exists>e. e \<noteq> JP_OK \<and> (te_join_consumer env = (0, Some e) \<or> te_join_producer env = (0, Some e))"
  using assms
  by (cases "te_join_consumer env"; cases "te_join_producer env")
    (auto simp: orchestrate_threads_def codes_ok_def Let_def jp_errno_code_0 join_worker_thread_def
      split: if_splits option.splits, metis add_0 int_ops(1) jp_errno_code_0)

text \<open>What a run guarantees, whatever it is given.\<close>

definition run_contract :: "thread_env \<Rightarrow> jp_conf \<Rightarrow> cstring list \<Rightarrow> run_result \<Rightarrow> bool" where
  "run_contract env conf argv r \<longleftrightarrow>
     rr_held r = [] \<and>
     (rr_started r \<longrightarrow> (\<exists>c. rr_ctx r = Some c \<and> worker_ready c \<and> \<not> wk_dry_run c) \<and>
        rr_err r = fst (orchestrate_threads env) \<and> rr_raised r = fst (snd (orchestrate_threads env))) \<and>
     (\<not> rr_started r \<and> rr_err r = JP_OK \<longrightarrow>
        (case rr_ctx r of None \<Rightarrow> 0 < jp_cmd_count argv (bytes ''-h'') (bytes ''--help'')
                        | Some c \<Rightarrow> worker_ready c \<and> wk_dry_run c)) \<and>
     (rr_err r = JP_OK \<longrightarrow> rr_raised r = []) \<and>
     (\<not> rr_started r \<and> rr_err r \<noteq> JP_OK \<longrightarrow> rr_raised r \<noteq> [] \<and> rs_err (last (rr_raised r)) = rr_err r) \<and>
     list_all reportable (rr_raised r) \<and>
     (conf_silent conf \<and> rr_ctx r \<noteq> None \<longrightarrow> rr_lines r = [])"

lemma run_contract_holds:
  assumes "getopt_ok opts final" "codes_ok mutex_init not_empty_init not_full_init env"
    and "unat sizeof_queue < 2 ^ 32" "unat sizeof_block < 2 ^ 32"
  shows "\<exists>r. jp_wrk_exec junk fs sizeof_queue sizeof_block mutex_init not_empty_init not_full_init env opts final conf argv =
       Some r \<and> run_contract env conf argv r \<and>
     (\<forall>c c' made. jp_cmd_count argv (bytes ''-h'') (bytes ''--help'') = 0 \<and>
        collect_cli_args junk opts final worker_defaults = Some (None, c) \<and>
        create_and_normalize_out_dir fs c = Some (None, c', made) \<and>
        mutex_init = 0 \<and> not_empty_init = 0 \<and> not_full_init = 0 \<longrightarrow> rr_started r = (\<not> wk_dry_run c))"
proof (cases "0 < jp_cmd_count argv (bytes ''-h'') (bytes ''--help'')")
  case True
  then show ?thesis by (auto simp: jp_wrk_exec_def display_help_def run_contract_def)
next
  case False
  obtain err ctx where args: "collect_cli_args junk opts final worker_defaults = Some (err, ctx)" "worker_ok ctx"
    using collect_cli_args_ok [OF worker_defaults_ok] by blast
  have no_queue: "wk_queue ctx = None" using args(2) by (simp add: worker_ok_def)
  show ?thesis
  proof (cases err)
    case (Some e)
    with args(1) collect_cli_args_reportable [of junk opts final worker_defaults e ctx] assms(1)
    have "reportable e" by simp
    with Some False args(1) no_queue show ?thesis
      by (simp add: jp_wrk_exec_def jp_queue_destroy_def run_contract_def reportable_def)
  next
    case None
    have "out_dir_fits ctx"
      using collect_cli_args_fits [OF args(1)] assms(1) default_out_dir_fits [of worker_defaults]
      by (simp add: getopt_ok_def worker_defaults_def)
    from finalize_worker_args_cases [OF args(2) this _ _ _ assms(3,4), of mutex_init not_empty_init not_full_init junk fs] assms(2)
    obtain raises ctx' held where fin:
      "finalize_worker_args junk fs sizeof_queue sizeof_block mutex_init not_empty_init not_full_init ctx =
         Some (raises, ctx', held)"
      "jp_queue_destroy (wk_queue ctx') held = []" "wk_dry_run ctx' = wk_dry_run ctx" "list_all reportable raises"
      "raises = [] \<longrightarrow> worker_ready ctx'"
      "raises = [] \<longleftrightarrow> (\<exists>c made. create_and_normalize_out_dir fs ctx = Some (None, c, made)) \<and>
         mutex_init = 0 \<and> not_empty_init = 0 \<and> not_full_init = 0"
      by (simp add: codes_ok_def) (elim exE conjE, rule that)
    note orchestrate_threads_quiet [OF assms(2)]
    moreover have "list_all reportable (fst (snd (orchestrate_threads env)))"
      using assms(2) by (intro orchestrate_threads_reportable) (simp add: codes_ok_def)
    moreover have "raises \<noteq> [] \<Longrightarrow> rs_err (last raises) \<noteq> JP_OK"
      using fin(4) by (simp add: list_all_iff reportable_def)
    ultimately show ?thesis
      using None False args(1) fin
      by (auto simp: jp_wrk_exec_def Let_def display_summary_def log_msg_def run_contract_def split: prod.split)
  qed
qed

text \<open>
  C13: the run command. When no output path among the options has exactly 4096 bytes, \<open>jp_wrk_exec\<close>
  returns and leaves none of the queue's resources held, on every path. The threads are started
  only with a context in range, an output directory and a well-formed, empty, active queue of the
  asked capacity, chunk size and policy, and then their outcome is the result; without them the
  result is success only for the help and for a dry run, and otherwise the code returned is that of
  the last error raised. A run that succeeds has raised nothing. The threads are started whenever no help is
  asked, the options are accepted, the output directory is made and the queue's initialisations
  succeed, unless the run is dry. When the help is not asked, a quiet run prints nothing.
\<close>

theorem run_command_correct:
  assumes "getopt_ok opts final" "codes_ok mutex_init not_empty_init not_full_init env"
    and "unat sizeof_queue < 2 ^ 32" "unat sizeof_block < 2 ^ 32"
  shows "\<exists>r. jp_wrk_exec junk fs sizeof_queue sizeof_block mutex_init not_empty_init not_full_init env opts final conf argv =
       Some r \<and> run_contract env conf argv r \<and>
     (\<forall>c c' made. jp_cmd_count argv (bytes ''-h'') (bytes ''--help'') = 0 \<and>
        collect_cli_args junk opts final worker_defaults = Some (None, c) \<and>
        create_and_normalize_out_dir fs c = Some (None, c', made) \<and>
        mutex_init = 0 \<and> not_empty_init = 0 \<and> not_full_init = 0 \<longrightarrow> rr_started r = (\<not> wk_dry_run c))"
  using assms by (rule run_contract_holds)

definition example_argv :: "cstring list" where
  "example_argv = [bytes ''run'', bytes ''-c4kb'', bytes ''-ologs'']"

definition example_opts :: "getopt_step list" where
  "example_opts = [(of_char CHR ''c'', Some (bytes ''4kb''), 2, example_argv),
                   (of_char CHR ''o'', Some (bytes ''logs''), 3, example_argv)]"

definition example_threads :: thread_env where
  "example_threads = \<lparr>te_create_consumer = 0, te_create_producer = 0, te_create_watcher = 0,
     te_cancel_consumer = 0, te_cancel_producer = 0,
     te_join_consumer = (0, Some JP_OK), te_join_producer = (0, Some JP_OK)\<rparr>"

lemma example_env_ok:
  "getopt_ok example_opts (3, example_argv)" "codes_ok 0 0 0 example_threads"
  "unat (640 :: size_t) < 2 ^ 32" "unat (16 :: size_t) < 2 ^ 32"
  by (simp_all add: getopt_ok_def getopt_step_ok_def example_opts_def example_argv_def bytes_def JP_PATH_MAX_def
      codes_ok_def example_threads_def int32_def)

theorem run_command_correct_witness:
  "\<exists>r c. jp_wrk_exec (\<lambda>_. []) example_fs 640 16 0 0 0 example_threads example_opts (3, example_argv)
         \<lparr>conf_silent = True, conf_no_color = False\<rparr> example_argv = Some r \<and>
       rr_err r = JP_OK \<and> rr_started r \<and> rr_held r = [] \<and> rr_lines r = [] \<and> rr_ctx r = Some c \<and> worker_ready c"
proof -
  let ?c = "worker_defaults\<lparr>wk_chunk_size := 4096, wk_out_dir := Some (bytes ''logs'')\<rparr>"
  have args: "collect_cli_args (\<lambda>_. []) example_opts (3, example_argv) worker_defaults = Some (None, ?c)"
    by (simp add: example_opts_def example_argv_def apply_option_def set_chunk_size_def set_out_dir_def strtoull_def
        digit_value_def is_space_def bytes_def jp_conf_defs Let_def)
  have dir: "create_and_normalize_out_dir example_fs ?c =
      Some (None, ?c\<lparr>wk_out_dir := Some (bytes ''/logs'')\<rparr>, [bytes ''logs''])"
    by (subst create_out_dir_eq)
      (simp_all add: out_dir_of_def strip_path_def path_parents_def example_fs_def bytes_def JP_PATH_MAX_def upt_rec
        out_dir_check_def)
  have "jp_cmd_count example_argv (bytes ''-h'') (bytes ''--help'') = 0"
    by (simp add: jp_cmd_count_def example_argv_def bytes_def)
  with run_command_correct [OF example_env_ok, of "\<lambda>_. []" example_fs "\<lparr>conf_silent = True, conf_no_color = False\<rparr>"
      example_argv] args dir
  show ?thesis
    by (auto simp: worker_defaults_def orchestrate_threads_def example_threads_def join_worker_thread_def Let_def
        run_contract_def)
qed

section \<open>The message hides the path\<close>

text \<open>
  The errors of the output directory show no short path: \<^verbatim>\<open>%128s\<close> pads the path on the left to 128 bytes, and
  the message is cut after 127. Of a path that is at most two bytes longer than the text before the quote nothing
  is kept, so that any two such paths give the same message.
\<close>

theorem dir_error_hides_path:
  assumes "length path \<le> length msg + 2" "length msg \<le> 126"
  shows "kept_message (dir_error line msg path) = msg @ [34] @ replicate (126 - length msg) 32"
proof -
  have "127 - length msg = Suc (126 - length msg)" "126 - length msg \<le> 128 - length path" using assms by simp_all
  then show ?thesis
    using assms(2) by (simp add: kept_message_def dir_error_def raise_defs quoted_def width128_def min_def)
qed

theorem dir_error_hides_path_witness:
  "kept_message (dir_error 226 (bytes ''Could not create the directory: '') (bytes ''/var/log/app'')) =
   bytes ''Could not create the directory: '' @ [34] @ replicate 94 32"
  using dir_error_hides_path [of "bytes ''/var/log/app''" "bytes ''Could not create the directory: ''" 226]
  by (simp add: bytes_def)

section \<open>The summary\<close>

lemma length_summary_fields: "length (summary_fields i fs) = length fs"
  by (induction fs arbitrary: i) simp_all

text \<open>
  The summary. A quiet run prints none; otherwise it has a line for each field, numbered from 1,
  after a title, and ten more lines. The memory estimate it shows, in hundredths of a megabyte, is
  off from the size of the queue's blocks by at most half a hundredth.
\<close>

theorem summary_correct:
  "(if conf_silent conf then display_summary conf ctx = []
    else length (display_summary conf ctx) =
           10 + (if set_fields (wk_fields ctx) = [] then 0 else 1 + length (set_fields (wk_fields ctx)))) \<and>
   2 * \<bar>int (mem_hundredths n) * 1048576 - 100 * int n\<bar> \<le> 1048576"
proof -
  define q r where "q = 100 * n div 1048576" and "r = 100 * n mod 1048576"
  have "100 * n = q * 1048576 + r" unfolding q_def r_def by (rule div_mult_mod_eq [symmetric])
  moreover have "r < 1048576" by (simp add: r_def)
  moreover have "mem_hundredths n = (if 2 * r > 1048576 \<or> 2 * r = 1048576 \<and> odd q then q + 1 else q)"
    by (simp add: mem_hundredths_def BYTES_IN_KB_def q_def r_def Let_def)
  ultimately have "2 * \<bar>int (mem_hundredths n) * 1048576 - 100 * int n\<bar> \<le> 1048576" by auto
  then show ?thesis by (simp add: display_summary_def log_msg_def summary_lines_def length_summary_fields)
qed

end
