(* ===== verification/JP_Main.thy ===== *)
theory JP_Main
  imports JP_Worker_Run
begin

text \<open>
  \<^verbatim>\<open>src/main.c\<close>: the table of commands and \<open>main\<close>. The outside world of the program, with what \<^verbatim>\<open>getopt_long\<close>
  gives for the arguments, is one record. What is raised in the main thread goes into its error context, which
  \<open>main\<close> prints before it returns.
\<close>

section \<open>Definitions\<close>

record run_env =
  env_junk :: "nat \<Rightarrow> buffer"
  env_fs :: file_system
  env_sizeof_queue :: size_t
  env_sizeof_block :: size_t
  env_mutex_init :: int
  env_not_empty_init :: int
  env_not_full_init :: int
  env_threads :: thread_env
  env_getopt :: "cstring list \<Rightarrow> getopt_step list \<times> (nat \<times> cstring list)"
  env_version :: cstring
  env_apple :: bool
  env_strerror :: "int \<Rightarrow> cstring"
  env_mach_error_string :: "int \<Rightarrow> cstring"
  env_stack0 :: buffer \<comment> \<open>the array of \<open>jp_errno_ctx_print\<close> before it is written\<close>

definition run_in :: "run_env \<Rightarrow> jp_conf \<Rightarrow> cstring list \<Rightarrow> run_result option" where
  "run_in env conf argv =
     (case env_getopt env argv of (opts, final) \<Rightarrow>
        jp_wrk_exec (env_junk env) (env_fs env) (env_sizeof_queue env) (env_sizeof_block env)
          (env_mutex_init env) (env_not_empty_init env) (env_not_full_init env) (env_threads env)
          opts final conf argv)"

definition run_handler :: "run_env \<Rightarrow> handler" where
  "run_handler env conf argv = map_option (\<lambda>r. (rr_err r, rr_raised r, rr_lines r)) (run_in env conf argv)"

definition commands :: "run_env \<Rightarrow> jp_cmd list" where
  "commands env =
     [\<lparr>cmd_code = bytes ''run'', cmd_name = bytes ''run'', cmd_handler = run_handler env\<rparr>,
      \<lparr>cmd_code = bytes ''help'', cmd_name = bytes ''help'', cmd_handler = jp_cmd_help\<rparr>,
      \<lparr>cmd_code = bytes ''version'', cmd_name = bytes ''version'', cmd_handler = jp_cmd_version (env_version env)\<rparr>]"

definition dump_errno :: "run_env \<Rightarrow> jp_conf \<Rightarrow> global_errno_ctx \<Rightarrow> cstring option option" where
  "dump_errno env conf =
     jp_errno_ctx_print (env_apple env) (conf_no_color conf) (env_strerror env) (env_mach_error_string env) (env_stack0 env)"

text \<open>
  The exit status, the lines on the standard output and the row on the standard error; \<open>EXIT_FAILURE\<close> is 1.
\<close>

definition main :: "run_env \<Rightarrow> bool \<Rightarrow> cstring option \<Rightarrow> cstring list \<Rightarrow> (int \<times> cstring list \<times> cstring option) option" where
  "main env tty no_color argv =
     (let conf = jp_conf_initialize tty no_color jp_config_default
      in case jp_cmd_exec 2 (commands env) argv conf of (result, conf) \<Rightarrow>
           do {
             (err, raises, ls) \<leftarrow> result;
             ctx \<leftarrow> do_raises raises initial_errno_ctx;
             row \<leftarrow> dump_errno env conf ctx;
             Some (if err \<noteq> JP_OK then 1 else 0, ls, row)
           })"

section \<open>Properties\<close>

lemma find_cmd_commands:
  "find_cmd 2 (commands env) a =
     (if a = bytes ''run'' then Some (run_handler env) else if a = bytes ''help'' then Some jp_cmd_help else None)"
  by (simp add: commands_def numeral_2_eq_2)

text \<open>The row for one error, whatever the rest of the context's array holds.\<close>

definition raised_row :: "run_env \<Rightarrow> jp_conf \<Rightarrow> raised \<Rightarrow> cstring" where
  "raised_row env conf r =
     errno_row (env_apple env) (conf_no_color conf) (env_strerror env) (env_mach_error_string env)
       \<lparr>ctx_line = rs_line r, ctx_sys_err = rs_sys r, ctx_file = rs_file r, ctx_err = rs_err r, ctx_src = rs_src r,
        ctx_stack = kept_message r @ [0]\<rparr> @ [10]"

text \<open>What the program relies on: C strings, an array of 640 bytes, small objects, POSIX error numbers.\<close>

definition env_ok :: "run_env \<Rightarrow> bool" where
  "env_ok env \<longleftrightarrow>
     (\<forall>n. 0 \<notin> set (env_strerror env n) \<and> 0 \<notin> set (env_mach_error_string env n)) \<and>
     length (env_stack0 env) = ERROR_ROW_MAX_LEN \<and>
     unat (env_sizeof_queue env) < 2 ^ 32 \<and> unat (env_sizeof_block env) < 2 ^ 32 \<and>
     codes_ok (env_mutex_init env) (env_not_empty_init env) (env_not_full_init env) (env_threads env)"

lemma kept_message_no_nul: "raised_ok r \<Longrightarrow> 0 \<notin> set (kept_message r)"
  by (auto simp: raised_ok_def kept_message_def split: option.splits dest: in_set_takeD)

lemma errno_row_same:
  assumes "cstr_of (ctx_stack ctx) = cstr_of (ctx_stack ctx')" "0 \<in> set (ctx_stack ctx)" "0 \<in> set (ctx_stack ctx')"
    and "ctx_err ctx = ctx_err ctx'" "ctx_src ctx = ctx_src ctx'" "ctx_sys_err ctx = ctx_sys_err ctx'"
      "ctx_file ctx = ctx_file ctx'" "ctx_line ctx = ctx_line ctx'"
  shows "errno_row apple no_color strerror mach_error_string ctx = errno_row apple no_color strerror mach_error_string ctx'"
proof -
  have "b ! 0 \<noteq> 0 \<longleftrightarrow> cstr_of b \<noteq> []" if "0 \<in> set b" for b using that by (cases b) (auto simp: cstr_of_def)
  with assms show ?thesis by (simp add: errno_row_defs row_head_def row_stack_def row_sys_def row_src_def)
qed

text \<open>The dump after a sequence of raises is the row of the last one.\<close>

lemma dump_after_raises:
  assumes "env_ok env" "list_all reportable raises"
  shows "\<exists>ctx. do_raises raises initial_errno_ctx = Some ctx \<and>
     dump_errno env conf ctx = Some (if raises = [] then None else Some (raised_row env conf (last raises)))"
proof -
  have ok: "list_all raised_ok raises" using assms(2) by (auto simp: list_all_iff reportable_def)
  obtain ctx where ctx: "do_raises raises initial_errno_ctx = Some ctx" "errno_ctx_ok ctx"
    "if raises = [] then ctx = initial_errno_ctx
     else ctx_err ctx = rs_err (last raises) \<and> ctx_src ctx = rs_src (last raises) \<and> ctx_sys_err ctx = rs_sys (last raises) \<and>
          ctx_file ctx = rs_file (last raises) \<and> ctx_line ctx = rs_line (last raises) \<and>
          cstr_of (ctx_stack ctx) = kept_message (last raises)"
    using do_raises_ok [OF initial_errno_ctx_ok ok] by blast
  show ?thesis
  proof (cases "raises = []")
    case True
    with ctx(1,3) show ?thesis by (auto simp: dump_errno_def jp_errno_ctx_print_def initial_errno_ctx_def)
  next
    case False
    then have last: "reportable (last raises)" using assms(2) by (simp add: list_all_iff)
    then have stack: "cstr_of (kept_message (last raises) @ [0]) = kept_message (last raises)"
      using kept_message_no_nul by (intro cstr_of_stop) (auto simp: reportable_def)
    have "ctx_err ctx \<noteq> JP_OK" using False last ctx(3) by (simp add: reportable_def)
    then have "dump_errno env conf ctx = Some (Some (errno_row (env_apple env) (conf_no_color conf) (env_strerror env)
        (env_mach_error_string env) ctx @ [10]))"
      unfolding dump_errno_def using assms(1) by (intro errno_ctx_print_row [OF ctx(2)]) (auto simp: env_ok_def)
    moreover have "errno_row (env_apple env) (conf_no_color conf) (env_strerror env) (env_mach_error_string env) ctx @ [10] =
        raised_row env conf (last raises)"
      unfolding raised_row_def
      by (rule arg_cong [where f = "\<lambda>r. r @ [10]"], rule errno_row_same)
        (use False ctx(2,3) stack in \<open>simp_all add: errno_ctx_ok_def\<close>)
    ultimately show ?thesis using False ctx(1) by simp
  qed
qed

definition conf_of :: "bool \<Rightarrow> cstring option \<Rightarrow> cstring list \<Rightarrow> jp_conf" where
  "conf_of tty no_color argv = init_global_flags argv (jp_conf_initialize tty no_color jp_config_default)"

text \<open>\<open>main\<close> in terms of what the command returns.\<close>

lemma main_result:
  assumes "env_ok env" "fst (jp_cmd_exec 2 (commands env) argv (jp_conf_initialize tty no_color jp_config_default)) = Some (err, raises, ls)"
    and "list_all reportable raises"
  shows "main env tty no_color argv =
     Some (if err \<noteq> JP_OK then 1 else 0, ls,
           if raises = [] then None else Some (raised_row env (conf_of tty no_color argv) (last raises)))"
proof -
  let ?conf = "jp_conf_initialize tty no_color jp_config_default"
  have "snd (jp_cmd_exec 2 (commands env) argv ?conf) = conf_of tty no_color argv"
    by (simp add: jp_cmd_exec_def conf_of_def Let_def split: option.split)
  with assms(2) have "jp_cmd_exec 2 (commands env) argv ?conf = (Some (err, raises, ls), conf_of tty no_color argv)"
    by (metis prod.collapse)
  with dump_after_raises [OF assms(1,3), of "conf_of tty no_color argv"] show ?thesis
    by (auto simp: main_def Let_def)
qed

definition missing_command :: raised where
  "missing_command = JP_ERRNO_RAISE (bytes ''command.c'') 29 JP_EMISSING_CMD"

definition unknown_command :: "cstring \<Rightarrow> raised" where
  "unknown_command cmd =
     JP_ERRNO_RAISEF (bytes ''command.c'') 38 JP_EUNKNOWN_CMD
       (bytes ''Invalid or incomplete command: '' @ quoted (take 32 cmd))"

lemma command_reportable: "reportable missing_command" "0 \<notin> set cmd \<Longrightarrow> reportable (unknown_command cmd)"
  using in_take [of 0 cmd 32]
  by (simp_all add: missing_command_def unknown_command_def reportable_def raised_ok_def raise_defs int32_def quoted_def)
    (simp_all add: bytes_def)

lemma main_cases:
  assumes "env_ok env" "list_all (\<lambda>a. 0 \<notin> set a) argv"
  shows "length argv < 2 \<Longrightarrow>
      main env tty no_color argv = Some (1, [], Some (raised_row env (conf_of tty no_color argv) missing_command))"
    and "argv = prog # cmd # args \<Longrightarrow> cmd = bytes ''help'' \<Longrightarrow> main env tty no_color argv = Some (0, cmd_help_lines, None)"
    and "argv = prog # cmd # args \<Longrightarrow> cmd \<notin> {bytes ''help'', bytes ''run''} \<Longrightarrow>
      main env tty no_color argv = Some (1, [], Some (raised_row env (conf_of tty no_color argv) (unknown_command cmd)))"
    and "argv = prog # bytes ''run'' # args \<Longrightarrow>
      run_in env (conf_of tty no_color argv) (tl argv) = Some r \<Longrightarrow> list_all reportable (rr_raised r) \<Longrightarrow>
      main env tty no_color argv =
        Some (if rr_err r \<noteq> JP_OK then 1 else 0, rr_lines r,
              if rr_raised r = [] then None else Some (raised_row env (conf_of tty no_color argv) (last (rr_raised r))))"
proof -
  let ?exec = "fst (jp_cmd_exec 2 (commands env) argv (jp_conf_initialize tty no_color jp_config_default))"
  have ne: "bytes ''help'' \<noteq> bytes ''run''" by (simp add: bytes_def)
  show "main env tty no_color argv = Some (1, [], Some (raised_row env (conf_of tty no_color argv) missing_command))"
    if "length argv < 2"
    using that main_result [OF assms(1), of argv tty no_color JP_EMISSING_CMD "[missing_command]" "[]"] command_reportable(1)
    by (simp add: jp_cmd_exec_def missing_command_def Let_def)
  show "main env tty no_color argv = Some (0, cmd_help_lines, None)" if "argv = prog # cmd # args" "cmd = bytes ''help''"
    using that ne main_result [OF assms(1), of argv tty no_color JP_OK "[]" cmd_help_lines]
    by (simp add: jp_cmd_exec_def find_cmd_commands jp_cmd_help_def Let_def)
  show "main env tty no_color argv = Some (1, [], Some (raised_row env (conf_of tty no_color argv) (unknown_command cmd)))"
    if "argv = prog # cmd # args" "cmd \<notin> {bytes ''help'', bytes ''run''}"
    using that assms(2) main_result [OF assms(1), of argv tty no_color JP_EUNKNOWN_CMD "[unknown_command cmd]" "[]"]
      command_reportable(2) [of cmd]
    by (simp add: jp_cmd_exec_def find_cmd_commands unknown_command_def Let_def)
  show "main env tty no_color argv =
      Some (if rr_err r \<noteq> JP_OK then 1 else 0, rr_lines r,
            if rr_raised r = [] then None else Some (raised_row env (conf_of tty no_color argv) (last (rr_raised r))))"
    if "argv = prog # bytes ''run'' # args" "run_in env (conf_of tty no_color argv) (tl argv) = Some r"
      "list_all reportable (rr_raised r)"
    using that main_result [OF assms(1), of argv tty no_color "rr_err r" "rr_raised r" "rr_lines r"]
    by (simp add: jp_cmd_exec_def find_cmd_commands run_handler_def conf_of_def Let_def)
qed

text \<open>
  C30: the dispatch. Without a command the program exits with 1, and its only output is the row of
  \<open>JP_EMISSING_CMD\<close> on the standard error. With any first argument other than \<open>run\<close> and \<open>help\<close> it exits with 1 and its only
  output is the row of \<open>JP_EUNKNOWN_CMD\<close> with the first 32 bytes of the argument; this includes \<open>version\<close>,
  which is in the table and in the help, and \<open>--help\<close>, which the error messages recommend. It also includes \<open>-q\<close>,
  \<open>--quiet\<close>, \<open>-C\<close> and \<open>--no-color\<close>: the README writes \<^verbatim>\<open>jpipe [--quiet | -q] [--no-color | -C] <command> [options]\<close>, but
  the command is looked for in the first argument only, so a global option in front of it is an unknown command;
  after the command it works. \<open>help\<close> prints its text and succeeds.
\<close>

theorem main_dispatch:
  assumes "env_ok env" "list_all (\<lambda>a. 0 \<notin> set a) (prog # cmd # args)"
  shows "main env tty no_color [] = Some (1, [], Some (raised_row env (conf_of tty no_color []) missing_command)) \<and>
   main env tty no_color [prog] = Some (1, [], Some (raised_row env (conf_of tty no_color [prog]) missing_command)) \<and>
   (if cmd = bytes ''help'' then main env tty no_color (prog # cmd # args) = Some (0, cmd_help_lines, None)
    else cmd \<noteq> bytes ''run'' \<longrightarrow>
      main env tty no_color (prog # cmd # args) =
        Some (1, [], Some (raised_row env (conf_of tty no_color (prog # cmd # args)) (unknown_command cmd))))"
  using assms(2)
  by (auto simp: main_cases(1) [OF assms(1)] main_cases(2) [OF assms(1)] main_cases(3) [OF assms(1)])

definition example_env :: run_env where
  "example_env =
     \<lparr>env_junk = (\<lambda>_. []), env_fs = example_fs, env_sizeof_queue = 640, env_sizeof_block = 16, env_mutex_init = 0,
      env_not_empty_init = 0, env_not_full_init = 0, env_threads = example_threads,
      env_getopt = (\<lambda>_. (example_opts, (3, example_argv))), env_version = bytes ''1.0'', env_apple = False,
      env_strerror = (\<lambda>_. bytes ''x''), env_mach_error_string = (\<lambda>_. []), env_stack0 = replicate 640 7\<rparr>"

lemma example_env_ok': "env_ok example_env"
  using example_env_ok by (simp add: env_ok_def example_env_def bytes_def ERROR_ROW_MAX_LEN_def ERROR_MSG_MAX_LEN_def)

lemma example_unknown_row:
  "raised_row example_env (conf_of False None [bytes ''jpipe'', bytes ''version'']) (unknown_command (bytes ''version'')) =
   bytes ''[ERROR]: '' @ explain_error JP_EUNKNOWN_CMD @ bytes '' | Invalid or incomplete command: '' @
     quoted (bytes ''version'') @ [10]"
  by (simp add: raised_row_def unknown_command_def errno_row_defs row_head_def row_stack_def tty_red_def tty_rst_def
      conf_of_def init_global_flags_def jp_conf_initialize_def Let_def raise_defs kept_message_def quoted_def bytes_def cstr_of_def)

theorem main_dispatch_witness:
  "main example_env False None [bytes ''jpipe'', bytes ''version''] =
     Some (1, [], Some (bytes ''[ERROR]: '' @ explain_error JP_EUNKNOWN_CMD @
       bytes '' | Invalid or incomplete command: '' @ quoted (bytes ''version'') @ [10]))"
proof -
  have "list_all (\<lambda>a. 0 \<notin> set a) [bytes ''jpipe'', bytes ''version'']"
    "bytes ''version'' \<noteq> bytes ''help''" "bytes ''version'' \<noteq> bytes ''run''" by (simp_all add: bytes_def)
  then show ?thesis
    unfolding example_unknown_row [symmetric]
    using main_dispatch [OF example_env_ok', of "bytes ''jpipe''" "bytes ''version''" "[]" False None] by simp
qed

lemma run_in_contract:
  assumes "env_ok env" "getopt_ok (fst (env_getopt env argv)) (snd (env_getopt env argv))"
  shows "\<exists>r. run_in env conf argv = Some r \<and> run_contract (env_threads env) conf argv r"
  using assms run_contract_holds [of "fst (env_getopt env argv)" "snd (env_getopt env argv)"]
  by (fastforce simp: run_in_def env_ok_def split: prod.split)

text \<open>
  C29: failures are reported. Let no argument of \<open>-o\<close> that \<^verbatim>\<open>getopt_long\<close> gives be of exactly 4096 bytes (such a path makes
  the program read past an array: see \<open>out_dir_overrun\<close> in \<open>JP_Worker_Args\<close>). Then, whatever the arguments are
  otherwise, \<open>main\<close> returns with 0 or 1 and has printed at most one
  row on the standard error. A row is printed only with the exit status 1, and it is the row of an error code. The
  exit status 1 without a row happens only when a thread of \<open>run\<close> was started and joined and returned an error, and
  such a thread has printed its own row (\<open>thread_errors_are_printed\<close> in \<open>JP_Pipeline\<close>).
\<close>

theorem failures_are_reported:
  assumes "env_ok env" "list_all (\<lambda>a. 0 \<notin> set a) argv"
    and "getopt_ok (fst (env_getopt env (tl argv))) (snd (env_getopt env (tl argv)))"
  shows "\<exists>code ls row. main env tty no_color argv = Some (code, ls, row) \<and> (code = 0 \<or> code = 1) \<and>
     (case row of
        Some s \<Rightarrow> code = 1 \<and> (\<exists>r. s = raised_row env (conf_of tty no_color argv) r \<and> rs_err r \<noteq> JP_OK)
      | None \<Rightarrow> code = 1 \<longrightarrow> (\<exists>prog args r. argv = prog # bytes ''run'' # args \<and>
                    run_in env (conf_of tty no_color argv) (tl argv) = Some r \<and> rr_started r) \<and>
                  (\<exists>e. e \<noteq> JP_OK \<and> (te_join_consumer (env_threads env) = (0, Some e) \<or>
                    te_join_producer (env_threads env) = (0, Some e))))"
proof (cases "length argv < 2")
  case True
  with main_cases(1) [OF assms(1,2), of tty no_color] show ?thesis
    by (auto simp: missing_command_def raise_defs intro!: exI [of _ missing_command])
next
  case False
  then obtain prog cmd args where argv: "argv = prog # cmd # args"
    by (cases argv; cases "tl argv") auto
  consider "cmd = bytes ''help''" | "cmd \<notin> {bytes ''help'', bytes ''run''}" | "cmd = bytes ''run''" by blast
  then show ?thesis
  proof cases
    case 1
    with main_cases(2) [OF assms(1,2) argv, of tty no_color] show ?thesis by simp
  next
    case 2
    with main_cases(3) [OF assms(1,2) argv, of tty no_color] show ?thesis
      by (auto simp: unknown_command_def raise_defs intro!: exI [of _ "unknown_command cmd"])
  next
    case 3
    obtain r where r: "run_in env (conf_of tty no_color argv) (tl argv) = Some r"
      "run_contract (env_threads env) (conf_of tty no_color argv) (tl argv) r"
      using run_in_contract [OF assms(1,3)] by blast
    then have rep: "list_all reportable (rr_raised r)" by (simp add: run_contract_def)
    have main: "main env tty no_color argv =
        Some (if rr_err r \<noteq> JP_OK then 1 else 0, rr_lines r,
              if rr_raised r = [] then None else Some (raised_row env (conf_of tty no_color argv) (last (rr_raised r))))"
      using argv 3 r(1) rep by (intro main_cases(4) [OF assms(1,2)]) simp_all
    have "rr_raised r \<noteq> [] \<Longrightarrow> rs_err (last (rr_raised r)) \<noteq> JP_OK \<and> rr_err r \<noteq> JP_OK"
      using rep r(2) by (auto simp: list_all_iff reportable_def run_contract_def)
    moreover have "rr_raised r = [] \<Longrightarrow> rr_err r \<noteq> JP_OK \<Longrightarrow> rr_started r"
      using r(2) by (auto simp: run_contract_def)
    moreover have "\<exists>e. e \<noteq> JP_OK \<and> (te_join_consumer (env_threads env) = (0, Some e) \<or>
        te_join_producer (env_threads env) = (0, Some e))" if "rr_raised r = []" "rr_err r \<noteq> JP_OK"
      using that r(2) orchestrate_threads_unreported [of "env_mutex_init env" "env_not_empty_init env" "env_not_full_init env"
          "env_threads env"] assms(1)
      by (auto simp: run_contract_def env_ok_def)
    ultimately show ?thesis using argv 3 r(1) unfolding main by auto
  qed
qed

theorem failures_are_reported_witness:
  "\<exists>r. main example_env True (Some []) [bytes ''jpipe'', bytes ''-v''] =
     Some (1, [], Some (raised_row example_env (conf_of True (Some []) [bytes ''jpipe'', bytes ''-v'']) r)) \<and> rs_err r \<noteq> JP_OK"
proof -
  let ?argv = "[bytes ''jpipe'', bytes ''-v'']"
  have argv: "list_all (\<lambda>a. 0 \<notin> set a) ?argv" and cmd: "bytes ''-v'' \<notin> {bytes ''help'', bytes ''run''}"
    by (simp_all add: bytes_def)
  have "getopt_ok (fst (env_getopt example_env (tl ?argv))) (snd (env_getopt example_env (tl ?argv)))"
    using example_env_ok(1) by (simp add: example_env_def)
  from failures_are_reported [OF example_env_ok' argv this, of True "Some []"]
    main_cases(3) [OF example_env_ok' argv refl cmd, of True "Some []"]
  show ?thesis by auto
qed

text \<open>
  The global flags. The output is silenced if and only if \<open>-q\<close> or \<open>--quiet\<close> is among the arguments,
  and colours are off if and only if the standard error is no terminal, \<open>NO_COLOR\<close> is set and not
  empty, or \<open>-C\<close> or \<open>--no-color\<close> is among the arguments, as long as no flag is given 256 times or more.
\<close>

theorem global_flags_correct:
  assumes "length argv < 256"
  shows "init_global_flags argv (jp_conf_initialize tty no_color jp_config_default) =
     \<lparr>conf_silent = (bytes ''-q'' \<in> set argv \<or> bytes ''--quiet'' \<in> set argv),
      conf_no_color = (\<not> tty \<or> (\<exists>v. no_color = Some v \<and> v \<noteq> []) \<or>
                       bytes ''-C'' \<in> set argv \<or> bytes ''--no-color'' \<in> set argv)\<rparr>"
proof -
  have "jp_cmd_count argv a b > 0 \<longleftrightarrow> a \<in> set argv \<or> b \<in> set argv" for a b
  proof -
    have "length (filter (\<lambda>x. x = a \<or> x = b) argv) < 256" using assms le_less_trans [OF length_filter_le] by blast
    then have "unat (jp_cmd_count argv a b) = length (filter (\<lambda>x. x = a \<or> x = b) argv)"
      by (simp add: jp_cmd_count_of_nat unat_of_nat)
    then have "jp_cmd_count argv a b > 0 \<longleftrightarrow> filter (\<lambda>x. x = a \<or> x = b) argv \<noteq> []"
      using unat_gt_0 [of "jp_cmd_count argv a b"] by (simp add: word_gt_0)
    then show ?thesis by (auto simp: filter_empty_conv)
  qed
  then show ?thesis
    by (auto simp: init_global_flags_def jp_conf_initialize_def jp_config_default_def Let_def split: option.split)
qed

theorem global_flags_correct_witness:
  "init_global_flags [bytes ''jpipe'', bytes ''run'', bytes ''-q''] (jp_conf_initialize True (Some []) jp_config_default) =
     \<lparr>conf_silent = True, conf_no_color = False\<rparr>"
  using global_flags_correct [of "[bytes ''jpipe'', bytes ''run'', bytes ''-q'']" True "Some []"]
  by (simp add: bytes_def)

end
