(* ===== verification/JP_File.thy ===== *)
theory JP_File
  imports JP_Raise
begin

text \<open>
  \<^verbatim>\<open>src/file.c\<close>: \<open>jp_file_writev\<close>, which writes a vector of buffers to the standard output and goes on
  after interrupted and partial writes. The kernel is a parameter: the list of its answers to the
  successive \<^verbatim>\<open>writev\<close> calls. An answer says how many bytes the kernel is ready to take, of which
  the call takes no more than it has, or that the call fails. When the list ends the call has not
  returned. The vector is the caller's array, which the code advances in place.

  A failed write is raised with the \<^verbatim>\<open>errno\<close> of the call. A write of no bytes is raised too, with whatever
  \<^verbatim>\<open>errno\<close> holds then, as \<^verbatim>\<open>writev\<close> did not set it: that value is the parameter \<open>stale\<close>.
\<close>

section \<open>The system interface\<close>

datatype sys_write = Accepts nat | Write_Fails sys_error

section \<open>Data\<close>

record iovec =
  iov_obj :: nat \<comment> \<open>the object \<^verbatim>\<open>iov_base\<close> points into\<close>
  iov_off :: nat \<comment> \<open>and where\<close>
  iov_len :: nat

definition iov_bytes :: "buffer list \<Rightarrow> iovec \<Rightarrow> byte list" where
  "iov_bytes mem v = take (iov_len v) (drop (iov_off v) (mem ! iov_obj v))"

definition iov_total :: "buffer list \<Rightarrow> iovec list \<Rightarrow> byte list" where
  "iov_total mem iov = concat (map (iov_bytes mem) iov)"

section \<open>Writing\<close>

text \<open>
  The inner loop: \<open>pos\<close> is where \<open>iov\<close> points in the caller's array, \<open>count\<close> the number of elements
  from there. The result is the new position, count and rest of \<open>status\<close>.
\<close>

fun iov_skip :: "iovec list \<Rightarrow> nat \<Rightarrow> nat \<Rightarrow> nat \<Rightarrow> nat \<times> nat \<times> nat" where
  "iov_skip iov pos 0 status = (pos, 0, status)"
| "iov_skip iov pos (Suc count) status =
     (if status \<ge> iov_len (iov ! pos)
      then iov_skip iov (pos + 1) count (status - iov_len (iov ! pos))
      else (pos, Suc count, status))"

text \<open>\<^verbatim>\<open>iov[0].iov_base += status; iov[0].iov_len -= status\<close>.\<close>

definition iov_advance :: "nat \<Rightarrow> iovec \<Rightarrow> iovec" where
  "iov_advance status v = v\<lparr>iov_off := iov_off v + status, iov_len := iov_len v - status\<rparr>"

text \<open>
  The result is the error or \<open>JP_OK\<close> (\<^const>\<open>None\<close> when the call has not returned), the bytes that
  have reached the standard output, the caller's array, the kernel's further answers, and what was raised.
\<close>

definition write_raise :: "int \<Rightarrow> int \<Rightarrow> raised" where
  "write_raise line code = JP_ERRNO_RAISE_POSIX (bytes ''file.c'') line JP_EWRITE_FAILED code"

fun writev_loop ::
  "32 word \<Rightarrow> buffer list \<Rightarrow> iovec list \<Rightarrow> nat \<Rightarrow> nat \<Rightarrow> sys_write list
     \<Rightarrow> jp_errno option \<times> byte list \<times> iovec list \<times> sys_write list \<times> raised list"
where
  "writev_loop stale mem iov pos count [] = (if count = 0 then Some JP_OK else None, [], iov, [], [])"
| "writev_loop stale mem iov pos count (k # ks) =
     (if count = 0 then (Some JP_OK, [], iov, k # ks, [])
      else case k of
        Write_Fails e \<Rightarrow>
          if e = EINTR then writev_loop stale mem iov pos count ks
          else (Some JP_EWRITE_FAILED, [], iov, ks, [write_raise 14 (sys_code e)])
      | Accepts n \<Rightarrow>
          let requested = iov_total mem (take count (drop pos iov));
              status = min n (length requested)
          in if status = 0 then (Some JP_EWRITE_FAILED, [], iov, ks, [write_raise 18 (sint stale)])
             else case iov_skip iov pos count status of (pos', count', status') \<Rightarrow>
               let iov' = (if count' > 0 \<and> status' > 0
                           then iov[pos' := iov_advance status' (iov ! pos')] else iov)
               in case writev_loop stale mem iov' pos' count' ks of (err, out, iov'', ks', rs) \<Rightarrow>
                    (err, take status requested @ out, iov'', ks', rs))"

definition jp_file_writev ::
  "32 word \<Rightarrow> buffer list \<Rightarrow> iovec list \<Rightarrow> nat \<Rightarrow> sys_write list
     \<Rightarrow> jp_errno option \<times> byte list \<times> iovec list \<times> sys_write list \<times> raised list"
where
  "jp_file_writev stale mem iov count ks = writev_loop stale mem iov 0 count ks"

text \<open>What has been raised goes with the error that is returned.\<close>

definition write_raises :: "jp_errno option \<Rightarrow> raised list \<Rightarrow> bool" where
  "write_raises err rs \<longleftrightarrow>
     (if err = Some JP_EWRITE_FAILED then \<exists>r. rs = [r] \<and> posix_failure JP_EWRITE_FAILED r
      else rs = [] \<and> (err = None \<or> err = Some JP_OK))"

lemma write_raise_failure [simp]:
  "posix_failure JP_EWRITE_FAILED (write_raise line code) \<longleftrightarrow> int32 line \<and> int32 code"
  by (simp add: write_raise_def bytes_def)

lemma write_raises_simps [simp]:
  "write_raises None rs \<longleftrightarrow> rs = []" "write_raises (Some JP_OK) rs \<longleftrightarrow> rs = []"
  "write_raises (Some JP_EWRITE_FAILED) [r] \<longleftrightarrow> posix_failure JP_EWRITE_FAILED r"
  by (simp_all add: write_raises_def)

section \<open>Every byte once\<close>

definition iov_ok :: "buffer list \<Rightarrow> iovec \<Rightarrow> bool" where
  "iov_ok mem v \<longleftrightarrow> iov_off v + iov_len v \<le> length (mem ! iov_obj v)"

lemma length_iov_bytes [simp]: "iov_ok mem v \<Longrightarrow> length (iov_bytes mem v) = iov_len v"
  by (simp add: iov_ok_def iov_bytes_def)

lemma iov_total_simps [simp]:
  "iov_total mem [] = []" "iov_total mem (v # vs) = iov_bytes mem v @ iov_total mem vs"
  by (simp_all add: iov_total_def)

lemma iov_advance_bytes:
  "s \<le> iov_len v \<Longrightarrow> iov_bytes mem (iov_advance s v) = drop s (iov_bytes mem v)"
  by (simp add: iov_bytes_def iov_advance_def drop_take add.commute)

lemma iov_advance_ok: "iov_ok mem v \<Longrightarrow> s \<le> iov_len v \<Longrightarrow> iov_ok mem (iov_advance s v)"
  by (simp add: iov_ok_def iov_advance_def)

text \<open>
  After a write of \<open>status\<close> bytes the elements that are left, the first one advanced, hold exactly
  the bytes that were not written.
\<close>

definition iov_left :: "iovec list \<Rightarrow> nat \<Rightarrow> nat \<Rightarrow> nat \<Rightarrow> iovec list \<times> nat \<times> nat" where
  "iov_left iov pos count status =
     (case iov_skip iov pos count status of (pos', count', status') \<Rightarrow>
        (if count' > 0 \<and> status' > 0 then iov[pos' := iov_advance status' (iov ! pos')] else iov, pos', count'))"

lemma iov_left_total:
  assumes "pos + count = length iov" "list_all (iov_ok mem) iov"
    and "status \<le> length (iov_total mem (drop pos iov))"
    and "iov_left iov pos count status = (iov', pos', count')"
  shows "iov_total mem (drop pos' iov') = drop status (iov_total mem (drop pos iov)) \<and>
         pos' + count' = length iov' \<and> list_all (iov_ok mem) iov' \<and> length iov' = length iov"
  using assms
proof (induction iov pos count status rule: iov_skip.induct)
  case (1 iov pos status)
  then show ?case by (auto simp: iov_left_def)
next
  case (2 iov pos count status)
  let ?v = "iov ! pos"
  have pos: "pos < length iov" and ok: "iov_ok mem ?v"
    using "2.prems"(1,2) by (simp_all add: list_all_length)
  have drop: "drop pos iov = ?v # drop (Suc pos) iov" using pos by (simp add: Cons_nth_drop_Suc)
  show ?case
  proof (cases "status \<ge> iov_len ?v")
    case True
    then have "iov_left iov pos (Suc count) status = iov_left iov (pos + 1) count (status - iov_len ?v)"
      by (simp add: iov_left_def)
    with "2.IH" [OF True] "2.prems" True ok show ?thesis by (simp add: drop)
  next
    case False
    then have iov': "iov' = (if status > 0 then iov[pos := iov_advance status ?v] else iov)"
      "pos' = pos" "count' = Suc count"
      using "2.prems"(4) by (auto simp: iov_left_def)
    have "drop pos (iov[pos := iov_advance status ?v]) = iov_advance status ?v # drop (Suc pos) iov"
      using pos by (simp add: drop_update_swap flip: Cons_nth_drop_Suc)
    with False ok "2.prems"(1,2) pos show ?thesis
      by (auto simp: iov' drop iov_advance_bytes list_all_length nth_list_update intro: iov_advance_ok)
  qed
qed

lemma writev_loop_accepts:
  assumes "pos + count = length iov" "count \<noteq> 0" "min n (length (iov_total mem (drop pos iov))) \<noteq> 0"
    and "iov_left iov pos count (min n (length (iov_total mem (drop pos iov)))) = (iov1, pos1, count1)"
  shows "writev_loop stale mem iov pos count (Accepts n # ks) =
     (case writev_loop stale mem iov1 pos1 count1 ks of (err, out, iov2, ks', rs) \<Rightarrow>
        (err, take n (iov_total mem (drop pos iov)) @ out, iov2, ks', rs))"
proof -
  have "take count (drop pos iov) = drop pos iov" using assms(1) by simp
  with assms(2-4) show ?thesis
    by (auto simp: Let_def iov_left_def split: prod.splits)
      (auto simp: min_def split: if_splits)
qed

lemma writev_loop_out:
  assumes "pos + count = length iov" "list_all (iov_ok mem) iov"
    and "writev_loop stale mem iov pos count ks = (err, out, iov', ks', rs)"
  shows "\<exists>rest. iov_total mem (drop pos iov) = out @ rest \<and> (err = Some JP_OK \<longrightarrow> rest = []) \<and>
           (err = None \<or> err = Some JP_OK \<or> err = Some JP_EWRITE_FAILED) \<and> write_raises err rs"
  using assms
proof (induction ks arbitrary: iov pos count out)
  case Nil
  then show ?case by (auto split: if_splits)
next
  case (Cons k ks)
  let ?all = "iov_total mem (drop pos iov)"
  have req: "take count (drop pos iov) = drop pos iov" using Cons.prems(1) by simp
  show ?case
  proof (cases "count = 0")
    case True
    with Cons.prems show ?thesis by auto
  next
    case count: False
    show ?thesis
    proof (cases k)
      case (Write_Fails e)
      with Cons count show ?thesis by (cases "e = EINTR") auto
    next
      case (Accepts n)
      let ?status = "min n (length ?all)"
      show ?thesis
      proof (cases "?status = 0")
        case True
        with Cons.prems count Accepts req show ?thesis by (auto simp: Let_def)
      next
        case False
        obtain iov1 pos1 count1 where left: "iov_left iov pos count ?status = (iov1, pos1, count1)"
          by (metis prod_cases3)
        obtain out1 where run: "writev_loop stale mem iov1 pos1 count1 ks = (err, out1, iov', ks', rs)"
          and out: "out = take ?status ?all @ out1"
          using Cons.prems(3) writev_loop_accepts [OF Cons.prems(1) count False left, of stale ks]
          by (auto simp: Accepts min_def split: prod.splits if_splits)
        note l = iov_left_total [OF Cons.prems(1,2) _ left]
        then obtain rest where "iov_total mem (drop pos1 iov1) = out1 @ rest"
          "err = Some JP_OK \<longrightarrow> rest = []" "err = None \<or> err = Some JP_OK \<or> err = Some JP_EWRITE_FAILED"
          "write_raises err rs"
          using Cons.IH [of pos1 count1 iov1 out1] run by auto
        moreover have "?all = take ?status ?all @ iov_total mem (drop pos1 iov1)" using l by simp
        ultimately show ?thesis unfolding out by (metis append_assoc)
      qed
    qed
  qed
qed

text \<open>What is returned and raised goes together for any array.\<close>

lemma writev_loop_raises:
  "writev_loop stale mem iov pos count ks = (err, out, iov', ks', rs) \<Longrightarrow> write_raises err rs"
proof (induction ks arbitrary: iov pos count out)
  case Nil
  then show ?case by (auto split: if_splits)
next
  case (Cons k ks)
  show ?case
  proof (cases "count = 0")
    case True
    with Cons.prems show ?thesis by auto
  next
    case count: False
    then show ?thesis
      using Cons.prems by (cases k) (auto simp: Let_def split: if_splits prod.splits intro: Cons.IH)
  qed
qed

section \<open>It returns\<close>

text \<open>The answers of a kernel that makes progress: interruptions, and writes of at least one byte.\<close>

definition progressing :: "sys_write \<Rightarrow> bool" where
  "progressing k \<longleftrightarrow> k = Write_Fails EINTR \<or> (\<exists>n > 0. k = Accepts n)"

fun accepts_count :: "sys_write list \<Rightarrow> nat" where
  "accepts_count [] = 0"
| "accepts_count (Accepts n # ks) = Suc (accepts_count ks)"
| "accepts_count (Write_Fails e # ks) = accepts_count ks"

lemma iov_left_nonempty:
  assumes "pos + count = length iov" "list_all (iov_ok mem) iov"
    and "status \<le> length (iov_total mem (drop pos iov))"
    and "iov_left iov pos count status = (iov', pos', count')" "0 < count'"
  shows "iov_total mem (drop pos' iov') \<noteq> []"
  using assms
proof (induction iov pos count status rule: iov_skip.induct)
  case (1 iov pos status)
  then show ?case by (simp add: iov_left_def)
next
  case (2 iov pos count status)
  let ?v = "iov ! pos"
  have pos: "pos < length iov" and ok: "iov_ok mem ?v"
    using "2.prems"(1,2) by (simp_all add: list_all_length)
  have drop: "drop pos iov = ?v # drop (Suc pos) iov" using pos by (simp add: Cons_nth_drop_Suc)
  show ?case
  proof (cases "status \<ge> iov_len ?v")
    case True
    then have "iov_left iov pos (Suc count) status = iov_left iov (pos + 1) count (status - iov_len ?v)"
      by (simp add: iov_left_def)
    with "2.IH" [OF True] "2.prems" True ok show ?thesis by (simp add: drop)
  next
    case False
    then have "length (drop status (iov_total mem (drop pos iov))) > 0" using ok by (simp add: drop)
    with iov_left_total [OF "2.prems"(1-4)] show ?thesis by fastforce
  qed
qed

lemma writev_loop_returns:
  assumes "pos + count = length iov" "list_all (iov_ok mem) iov" "list_all progressing ks"
    and "count = 0 \<or> iov_total mem (drop pos iov) \<noteq> []"
    and "length (iov_total mem (drop pos iov)) \<le> accepts_count ks"
  shows "fst (writev_loop stale mem iov pos count ks) = Some JP_OK"
  using assms
proof (induction ks arbitrary: iov pos count)
  case Nil
  then show ?case by auto
next
  case (Cons k ks)
  let ?all = "iov_total mem (drop pos iov)"
  have req: "take count (drop pos iov) = drop pos iov" using Cons.prems(1) by simp
  show ?case
  proof (cases "count = 0")
    case True
    then show ?thesis by simp
  next
    case count: False
    show ?thesis
    proof (cases k)
      case (Write_Fails e)
      with Cons count show ?thesis by (simp add: progressing_def)
    next
      case (Accepts n)
      let ?status = "min n (length ?all)"
      have pos: "?status > 0" using Cons.prems(3,4) count Accepts by (auto simp: progressing_def)
      obtain iov1 pos1 count1 where left: "iov_left iov pos count ?status = (iov1, pos1, count1)"
        by (metis prod_cases3)
      have run: "fst (writev_loop stale mem iov pos count (k # ks)) = fst (writev_loop stale mem iov1 pos1 count1 ks)"
        using writev_loop_accepts [OF Cons.prems(1) count _ left, of stale ks] pos
        by (simp add: Accepts split: prod.splits)
      note l = iov_left_total [OF Cons.prems(1,2) _ left]
      have "count1 = 0 \<or> iov_total mem (drop pos1 iov1) \<noteq> []"
      proof (cases "count1 = 0")
        case False
        then have "iov_total mem (drop pos1 iov1) \<noteq> []"
          using iov_left_nonempty [OF Cons.prems(1,2) _ left] by simp
        then show ?thesis by simp
      qed simp
      moreover have "length (iov_total mem (drop pos1 iov1)) \<le> accepts_count ks"
        using l Cons.prems(5) Accepts pos by (auto simp: min_def split: if_splits)
      ultimately show ?thesis
        using Cons.IH [of pos1 count1 iov1] Cons.prems(3) l run by simp
    qed
  qed
qed

section \<open>The caller's array\<close>

lemma iov_skip_all:
  "pos + count = length iov \<Longrightarrow> list_all (iov_ok mem) iov \<Longrightarrow>
   status = length (iov_total mem (drop pos iov)) \<Longrightarrow> iov_skip iov pos count status = (length iov, 0, 0)"
proof (induction iov pos count status rule: iov_skip.induct)
  case (1 iov pos status)
  then show ?case by simp
next
  case (2 iov pos count status)
  have "drop pos iov = iov ! pos # drop (Suc pos) iov" using "2.prems"(1) by (simp add: Cons_nth_drop_Suc)
  moreover have "iov_ok mem (iov ! pos)" using "2.prems"(1,2) by (simp add: list_all_length)
  ultimately show ?case using "2.IH" "2.prems" by simp
qed

lemma jp_file_writev_one_call:
  assumes "list_all (iov_ok mem) iov" "iov_total mem iov \<noteq> []" "length (iov_total mem iov) \<le> n"
  shows "jp_file_writev stale mem iov (length iov) (Accepts n # ks) = (Some JP_OK, iov_total mem iov, iov, ks, [])"
proof -
  let ?all = "iov_total mem iov"
  have ne: "length iov \<noteq> 0" using assms(2) by auto
  have n: "min n (length ?all) = length ?all" using assms(3) by simp
  have left: "iov_left iov 0 (length iov) (min n (length ?all)) = (iov, length iov, 0)"
    using iov_skip_all [of 0 "length iov" iov mem] assms(1) by (simp add: iov_left_def n)
  have "writev_loop stale mem iov 0 (length iov) (Accepts n # ks) =
      (case writev_loop stale mem iov (length iov) 0 ks of (err, out, iov2, ks', rs) \<Rightarrow> (err, take n ?all @ out, iov2, ks', rs))"
    using writev_loop_accepts [of 0 "length iov" iov n mem iov "length iov" 0 stale ks] left ne n assms(2) by simp
  moreover have "writev_loop stale mem iov (length iov) 0 ks = (Some JP_OK, [], iov, ks, [])" by (cases ks) simp_all
  ultimately show ?thesis using assms(3) by (simp add: jp_file_writev_def)
qed

text \<open>
  A kernel that writes all or nothing leaves the array as it was: \<open>serves\<close> is how many calls it serves before it
  fails, and what is raised then.
\<close>

definition whole :: "nat \<Rightarrow> sys_write \<Rightarrow> bool" where
  "whole m k \<longleftrightarrow> (case k of Accepts n \<Rightarrow> n = 0 \<or> m \<le> n | Write_Fails e \<Rightarrow> True)"

fun serves :: "32 word \<Rightarrow> sys_write list \<Rightarrow> nat \<times> raised option" where
  "serves stale [] = (0, None)"
| "serves stale (Accepts n # ks) =
     (if n = 0 then (0, Some (write_raise 18 (sint stale))) else case serves stale ks of (k, f) \<Rightarrow> (Suc k, f))"
| "serves stale (Write_Fails e # ks) =
     (if e = EINTR then serves stale ks else (0, Some (write_raise 14 (sys_code e))))"

lemma serves_failure: "serves stale ks = (k, Some r) \<Longrightarrow> posix_failure JP_EWRITE_FAILED r"
  by (induction stale ks arbitrary: k rule: serves.induct) (auto split: if_splits prod.splits)

lemma jp_file_writev_whole:
  assumes "list_all (iov_ok mem) iov" "iov_total mem iov \<noteq> []"
    and "list_all (whole m) ks" "length (iov_total mem iov) \<le> m" "serves stale ks = (k, f)"
  shows "\<exists>ks'. list_all (whole m) ks' \<and> jp_file_writev stale mem iov (length iov) ks =
     (case k of
        Suc n \<Rightarrow> (Some JP_OK, iov_total mem iov, iov, ks', [])
      | 0 \<Rightarrow> (case f of None \<Rightarrow> (None, [], iov, ks', []) | Some r \<Rightarrow> (Some JP_EWRITE_FAILED, [], iov, ks', [r]))) \<and>
     (case k of Suc n \<Rightarrow> serves stale ks' = (n, f) | 0 \<Rightarrow> True)"
  using assms(3,5)
proof (induction ks)
  case Nil
  have "iov \<noteq> []" using assms(2) by auto
  with Nil show ?case by (auto simp: jp_file_writev_def)
next
  case (Cons a ks)
  have ne: "length iov \<noteq> 0" using assms(2) by auto
  show ?case
  proof (cases a)
    case (Write_Fails e)
    with Cons ne show ?thesis by (auto simp: jp_file_writev_def)
  next
    case (Accepts n)
    show ?thesis
    proof (cases "n = 0")
      case True
      with Accepts Cons.prems ne show ?thesis by (auto simp: jp_file_writev_def)
    next
      case False
      then have "length (iov_total mem iov) \<le> n" using Cons.prems(1) assms(4) Accepts by (simp add: whole_def)
      from jp_file_writev_one_call [OF assms(1,2) this] False Cons.prems Accepts show ?thesis
        by (auto split: prod.splits)
    qed
  qed
qed

text \<open>A kernel that takes everything at once, interruptions aside.\<close>

definition takes_all :: "nat \<Rightarrow> sys_write \<Rightarrow> bool" where
  "takes_all m k \<longleftrightarrow> k = Write_Fails EINTR \<or> (\<exists>n \<ge> m. k = Accepts n)"

lemma takes_all_whole:
  assumes "list_all (takes_all m) ks" "0 < m"
  shows "list_all (whole m) ks" "serves stale ks = (accepts_count ks, None)"
  using assms by (induction ks) (auto simp: takes_all_def whole_def)

text \<open>The answers that end a write with an error, and what is raised.\<close>

definition fails_with :: "32 word \<Rightarrow> sys_write \<Rightarrow> raised option" where
  "fails_with stale k =
     (case k of
        Accepts n \<Rightarrow> if n = 0 then Some (write_raise 18 (sint stale)) else None
      | Write_Fails e \<Rightarrow> if e = EINTR then None else Some (write_raise 14 (sys_code e)))"

lemma serves_then_fails:
  assumes "list_all (takes_all m) ks" "0 < m" "fails_with stale z = Some x"
  shows "list_all (whole m) (ks @ [z])" "serves stale (ks @ [z]) = (accepts_count ks, Some x)"
proof -
  have z: "serves stale [z] = (0, Some x)" "whole m z"
    using assms(3) by (auto simp: fails_with_def whole_def split: sys_write.splits if_splits)
  show "list_all (whole m) (ks @ [z])" using takes_all_whole [OF assms(1,2)] z(2) by simp
  show "serves stale (ks @ [z]) = (accepts_count ks, Some x)"
    using assms(1,2) z(1) by (induction ks) (auto simp: takes_all_def)
qed

text \<open>A kernel that takes part of the first element leaves that element advanced.\<close>

lemma jp_file_writev_partial:
  assumes "list_all (iov_ok mem) (v # vs)" "0 < n" "n < iov_len v"
    and "length (iov_total mem (v # vs)) \<le> m" "0 < m"
  shows "jp_file_writev stale mem (v # vs) (length (v # vs)) [Accepts n, Accepts m] =
           (Some JP_OK, iov_total mem (v # vs), iov_advance n v # vs, [], []) \<and>
         jp_file_writev stale mem (iov_advance n v # vs) (length (v # vs)) [Accepts m] =
           (Some JP_OK, drop n (iov_total mem (v # vs)), iov_advance n v # vs, [], [])"
proof -
  let ?iov = "v # vs" and ?iov1 = "iov_advance n v # vs"
  let ?all = "iov_total mem ?iov"
  have ok: "iov_ok mem v" using assms(1) by simp
  have total1: "iov_total mem ?iov1 = drop n ?all"
    using assms(3) ok by (simp add: iov_advance_bytes)
  have ok1: "list_all (iov_ok mem) ?iov1" using assms(1,3) iov_advance_ok [OF ok, of n] by simp
  have long: "n < length ?all" using assms(3) ok by simp
  have left: "iov_left ?iov 0 (length ?iov) (min n (length ?all)) = (?iov1, 0, length ?iov)"
    using assms(2,3) long by (simp add: iov_left_def)
  have "jp_file_writev stale mem ?iov1 (length ?iov1) [Accepts m] = (Some JP_OK, drop n ?all, ?iov1, [], [])"
    using jp_file_writev_one_call [OF ok1, of m stale "[]"] assms(4) long
    unfolding total1 by (simp del: iov_total_simps)
  note second = this
  have "jp_file_writev stale mem ?iov (length ?iov) [Accepts n, Accepts m] = (Some JP_OK, ?all, ?iov1, [], [])"
    using writev_loop_accepts [of 0 "length ?iov" ?iov n mem ?iov1 0 "length ?iov" stale "[Accepts m]"] left long assms(2) second
    by (simp add: jp_file_writev_def del: iov_total_simps)
  with second show ?thesis by simp
qed

section \<open>Properties\<close>

text \<open>
  C14: Whatever the kernel answers, interruptions and partial writes included, \<open>jp_file_writev\<close> writes
  the bytes of the vector in order and no byte twice: what has reached the output is an initial
  part of the bytes of the vector, and all of them when it returns success. The only error it
  returns is \<open>JP_EWRITE_FAILED\<close>, and it has raised that error once, with a code of the system, exactly when it
  returns it.
\<close>

theorem writev_writes_every_byte_once:
  assumes "list_all (iov_ok mem) iov" "jp_file_writev stale mem iov (length iov) ks = (err, out, iov', ks', rs)"
  shows "\<exists>rest. iov_total mem iov = out @ rest \<and> (err = Some JP_OK \<longrightarrow> rest = []) \<and>
           (err = None \<or> err = Some JP_OK \<or> err = Some JP_EWRITE_FAILED) \<and> write_raises err rs"
  using writev_loop_out [of 0 "length iov" iov mem stale ks] assms by (simp add: jp_file_writev_def)

theorem writev_writes_every_byte_once_witness:
  "jp_file_writev 0 [[1, 2, 3], [4, 5]] [\<lparr>iov_obj = 0, iov_off = 0, iov_len = 3\<rparr>, \<lparr>iov_obj = 1, iov_off = 0, iov_len = 2\<rparr>] 2
     [Accepts 1, Write_Fails EINTR, Accepts 3, Accepts 9] =
     (Some JP_OK, [1, 2, 3, 4, 5],
      [\<lparr>iov_obj = 0, iov_off = 1, iov_len = 2\<rparr>, \<lparr>iov_obj = 1, iov_off = 1, iov_len = 1\<rparr>], [], []) \<and>
   (\<exists>rest. [1, 2, 3, 4, 5 :: byte] = [1, 2, 3, 4, 5] @ rest)"
proof -
  let ?mem = "[[1, 2, 3], [4, 5 :: byte]]"
  let ?iov = "[\<lparr>iov_obj = 0, iov_off = 0, iov_len = 3\<rparr>, \<lparr>iov_obj = 1, iov_off = 0, iov_len = 2\<rparr>]"
  have run: "jp_file_writev 0 ?mem ?iov (length ?iov) [Accepts 1, Write_Fails EINTR, Accepts 3, Accepts 9] =
     (Some JP_OK, [1, 2, 3, 4, 5],
      [\<lparr>iov_obj = 0, iov_off = 1, iov_len = 2\<rparr>, \<lparr>iov_obj = 1, iov_off = 1, iov_len = 1\<rparr>], [], [])"
    by code_simp
  have "list_all (iov_ok ?mem) ?iov" by (simp add: iov_ok_def)
  from writev_writes_every_byte_once [OF this run] run show ?thesis
    by (simp add: iov_total_def iov_bytes_def numeral_2_eq_2)
qed

text \<open>
  C31: \<open>jp_file_writev\<close> returns success under every kernel that makes progress: when each answer is an
  interruption or takes at least one byte, and there are as many of the latter as there are bytes to
  write, the call returns \<open>JP_OK\<close>.
\<close>

theorem writev_returns:
  assumes "list_all (iov_ok mem) iov" "iov_total mem iov \<noteq> []" "list_all progressing ks"
    and "length (iov_total mem iov) \<le> accepts_count ks"
  shows "fst (jp_file_writev stale mem iov (length iov) ks) = Some JP_OK"
  using writev_loop_returns [of 0 "length iov" iov mem ks stale] assms by (simp add: jp_file_writev_def)

theorem writev_returns_witness:
  "fst (jp_file_writev 0 [[1, 2]] [\<lparr>iov_obj = 0, iov_off = 0, iov_len = 2\<rparr>] 1
          [Accepts 1, Write_Fails EINTR, Accepts 1]) = Some JP_OK"
  using writev_returns [of "[[1, 2]]" "[\<lparr>iov_obj = 0, iov_off = 0, iov_len = 2\<rparr>]"
      "[Accepts 1, Write_Fails EINTR, Accepts 1]"]
  by (simp add: iov_ok_def iov_total_def iov_bytes_def progressing_def)

text \<open>
  A partial write spoils the caller's array. When the kernel takes only \<open>n\<close> bytes of the first
  element at first and the rest in a second call, the call succeeds, but the first element of the
  array the caller keeps has lost its first \<open>n\<close> bytes: the same array written again, by a kernel
  that takes everything, gives the text without them.
\<close>

theorem writev_partial_write_spoils_array:
  assumes "list_all (iov_ok mem) (v # vs)" "0 < n" "n < iov_len v"
    and "length (iov_total mem (v # vs)) \<le> m" "0 < m"
  shows "jp_file_writev stale mem (v # vs) (length (v # vs)) [Accepts n, Accepts m] =
           (Some JP_OK, iov_total mem (v # vs), iov_advance n v # vs, [], []) \<and>
         jp_file_writev stale mem (iov_advance n v # vs) (length (v # vs)) [Accepts m] =
           (Some JP_OK, drop n (iov_total mem (v # vs)), iov_advance n v # vs, [], [])"
  by (rule jp_file_writev_partial [OF assms])

theorem writev_partial_write_spoils_array_witness:
  "jp_file_writev 0 [[1, 2]] [\<lparr>iov_obj = 0, iov_off = 1, iov_len = 1\<rparr>] 1 [Accepts 9] =
     (Some JP_OK, [2], [\<lparr>iov_obj = 0, iov_off = 1, iov_len = 1\<rparr>], [], [])"
  using writev_partial_write_spoils_array [of "[[1, 2]]" "\<lparr>iov_obj = 0, iov_off = 0, iov_len = 2\<rparr>" "[]" 1 9]
  by (simp add: iov_ok_def iov_total_def iov_bytes_def iov_advance_def)

end
