(* ===== verification/JP_Poller.thy ===== *)
theory JP_Poller
  imports JP_File
begin

text \<open>
  \<^verbatim>\<open>include/jp_poller.h\<close> with its two implementations, \<^verbatim>\<open>src/poller/epoll.c\<close> for Linux and
  \<^verbatim>\<open>src/poller/kqueue.c\<close> for macOS. The system calls are arguments: functions from what the code asks
  for to what it is answered. What the reader
  relies on is the contract \<open>poller\<close>: the answers of creating, registering and waiting, and that
  destroying a poller closes the descriptor that creating it opened; both implementations keep it.
\<close>

section \<open>Data\<close>

text \<open>A system call that returns a value or \<open>-1\<close> with \<open>errno\<close>.\<close>

type_synonym 'a syscall = "sys_error + 'a"

record epoll_poller =
  ep_fd :: int
  ep_timeout :: int

record kqueue_poller =
  kq_fd :: int
  kq_sec :: int
  kq_nsec :: int

text \<open>What the pollers ask for: the one operation and the flags that they use of each interface.\<close>

datatype epoll_op = EPOLL_CTL_ADD
datatype epoll_flag = EPOLLIN | EPOLLET

record epoll_event =
  ev_events :: "epoll_flag list"
  ev_fd :: int

datatype kevent_filter = EVFILT_READ
datatype kevent_flag = EV_ADD | EV_ENABLE | EV_CLEAR

record kevent =
  ke_ident :: int
  ke_filter :: kevent_filter
  ke_flags :: "kevent_flag list"

text \<open>What \<open>kevent\<close> reports for the one event: an error event carries its code.\<close>

datatype kq_event = Kq_Ready | Kq_Error "64 word"

section \<open>epoll\<close>

text \<open>The result is the poller or null, and what was raised and stored through \<open>err\<close> (\<^const>\<open>None\<close>: nothing).\<close>

definition epoll_raise :: "int \<Rightarrow> sys_error \<Rightarrow> raised" where
  "epoll_raise line e = JP_ERRNO_RAISE_POSIX (bytes ''epoll.c'') line JP_EREAD_FAILED (sys_code e)"

definition epoll_create :: "int syscall \<Rightarrow> int \<Rightarrow> epoll_poller option \<times> raised option" where
  "epoll_create epoll_create1 timeout =
     (case epoll_create1 of
        Inl e \<Rightarrow> (None, Some (epoll_raise 19 e))
      | Inr fd \<Rightarrow> (Some \<lparr>ep_fd = fd, ep_timeout = timeout\<rparr>, None))"

definition epoll_poll ::
  "(int \<Rightarrow> epoll_op \<Rightarrow> int \<Rightarrow> epoll_event \<Rightarrow> unit syscall) \<Rightarrow> epoll_poller \<Rightarrow> int \<Rightarrow> raised option"
where
  "epoll_poll epoll_ctl poller fd =
     (let ev = \<lparr>ev_events = [EPOLLIN, EPOLLET], ev_fd = fd\<rparr>
      in case epoll_ctl (ep_fd poller) EPOLL_CTL_ADD fd ev of
           Inl e \<Rightarrow> Some (epoll_raise 34 e)
         | Inr _ \<Rightarrow> None)"

text \<open>\<open>sys\<close> is one system call: it takes the descriptor, how many events there is room for, and the timeout.\<close>

definition epoll_wait :: "(int \<Rightarrow> nat \<Rightarrow> int \<Rightarrow> nat syscall) \<Rightarrow> epoll_poller \<Rightarrow> answer" where
  "epoll_wait sys poller =
     (case sys (ep_fd poller) 1 (ep_timeout poller) of
        Inr n \<Rightarrow> if n = 0 then Inr JP_ETRYAGAIN else Inr JP_OK
      | Inl e \<Rightarrow> if e = EINTR \<or> jp_errno_eagain e then Inr JP_ETRYAGAIN else Inl (epoll_raise 47 e))"

text \<open>The descriptors that are closed.\<close>

definition epoll_destroy :: "epoll_poller option \<Rightarrow> int list" where
  "epoll_destroy poller =
     (case poller of None \<Rightarrow> [] | Some p \<Rightarrow> if ep_fd p \<ge> 0 then [ep_fd p] else [])"

section \<open>kqueue\<close>

unbundle bit_operations_syntax

text \<open>
  C division and remainder truncate; the timeouts of the program are positive. The code of an error event is
  converted to an \<^verbatim>\<open>int\<close>.
\<close>

definition kqueue_raise :: "int \<Rightarrow> int \<Rightarrow> raised" where
  "kqueue_raise line code = JP_ERRNO_RAISE_POSIX (bytes ''kqueue.c'') line JP_EREAD_FAILED code"

definition kqueue_create :: "int syscall \<Rightarrow> nat \<Rightarrow> kqueue_poller option \<times> raised option" where
  "kqueue_create kqueue timeout =
     (case kqueue of
        Inl e \<Rightarrow> (None, Some (kqueue_raise 19 (sys_code e)))
      | Inr fd \<Rightarrow> (Some \<lparr>kq_fd = fd, kq_sec = int timeout div 1000, kq_nsec = int timeout mod 1000 * 1000000\<rparr>, None))"

text \<open>\<open>getfl\<close> and \<open>setfl\<close> are the two calls of \<^verbatim>\<open>fcntl\<close>; \<open>o_nonblock\<close> is the system's value of \<^verbatim>\<open>O_NONBLOCK\<close>.\<close>

definition kqueue_poll ::
  "32 word \<Rightarrow> (int \<Rightarrow> (32 word) syscall) \<Rightarrow> (int \<Rightarrow> 32 word \<Rightarrow> unit syscall) \<Rightarrow> (int \<Rightarrow> kevent \<Rightarrow> unit syscall)
     \<Rightarrow> kqueue_poller \<Rightarrow> int \<Rightarrow> raised option"
where
  "kqueue_poll o_nonblock getfl setfl kevent poller fd =
     (case getfl fd of
        Inl e \<Rightarrow> Some (kqueue_raise 35 (sys_code e))
      | Inr flags \<Rightarrow>
          (case setfl fd (flags OR o_nonblock) of
             Inl e \<Rightarrow> Some (kqueue_raise 35 (sys_code e))
           | Inr _ \<Rightarrow>
               let event = \<lparr>ke_ident = fd, ke_filter = EVFILT_READ, ke_flags = [EV_ADD, EV_ENABLE, EV_CLEAR]\<rparr>
               in (case kevent (kq_fd poller) event of
                     Inl e \<Rightarrow> Some (kqueue_raise 42 (sys_code e))
                   | Inr _ \<Rightarrow> None)))"

text \<open>\<open>sys\<close> is one system call: it takes the descriptor, how many events there is room for, and the timeout.\<close>

definition kqueue_wait :: "(int \<Rightarrow> nat \<Rightarrow> int \<times> int \<Rightarrow> kq_event option syscall) \<Rightarrow> kqueue_poller \<Rightarrow> answer" where
  "kqueue_wait sys poller =
     (case sys (kq_fd poller) 1 (kq_sec poller, kq_nsec poller) of
        Inr None \<Rightarrow> Inr JP_ETRYAGAIN
      | Inl e \<Rightarrow> if e = EINTR \<or> jp_errno_eagain e then Inr JP_ETRYAGAIN else Inl (kqueue_raise 55 (sys_code e))
      | Inr (Some (Kq_Error code)) \<Rightarrow> Inl (kqueue_raise 59 (sint (ucast code :: 32 word)))
      | Inr (Some Kq_Ready) \<Rightarrow> Inr JP_OK)"

definition kqueue_destroy :: "kqueue_poller option \<Rightarrow> int list" where
  "kqueue_destroy poller =
     (case poller of None \<Rightarrow> [] | Some p \<Rightarrow> if kq_fd p \<ge> 0 then [kq_fd p] else [])"

section \<open>The contract\<close>

abbreviation read_failure :: "raised \<Rightarrow> bool" where
  "read_failure \<equiv> posix_failure JP_EREAD_FAILED"

text \<open>The answers to a wait: ready, not yet, or an error that has been raised.\<close>

definition wait_answer :: "answer \<Rightarrow> bool" where
  "wait_answer a \<longleftrightarrow> (case a of Inl r \<Rightarrow> read_failure r | Inr err \<Rightarrow> err = JP_OK \<or> err = JP_ETRYAGAIN)"

locale poller =
  fixes create :: "int syscall \<Rightarrow> 'p option \<times> raised option"
    and poll :: "'r \<Rightarrow> raised option"
    and wait :: "'w \<Rightarrow> answer"
    and destroy :: "'p option \<Rightarrow> int list"
  assumes create_codes: "snd (create r) = None \<longleftrightarrow> fst (create r) \<noteq> None"
    and create_error: "pred_option read_failure (snd (create r))"
    and poll_error: "pred_option read_failure (poll a)"
    and wait_in: "wait_answer (wait w)"
    and destroy_closes: "0 \<le> fd \<Longrightarrow> destroy (fst (create (Inr fd))) = [fd]"
    and destroy_null: "destroy None = []"
begin

lemma waits_in: "list_all wait_answer (map wait ws)"
  using wait_in by (simp add: list_all_iff)

end

lemma poller_raises [simp]:
  "read_failure (epoll_raise line e) \<longleftrightarrow> int32 line" "read_failure (kqueue_raise line code) \<longleftrightarrow> int32 line \<and> int32 code"
  by (simp_all add: epoll_raise_def kqueue_raise_def bytes_def)

interpretation epoll: poller "\<lambda>r. epoll_create r 100" "\<lambda>(ctl, p, fd). epoll_poll ctl p fd" "\<lambda>(sys, p). epoll_wait sys p"
  epoll_destroy
  by unfold_locales
    (auto simp: epoll_create_def epoll_poll_def epoll_wait_def epoll_destroy_def wait_answer_def Let_def split: sum.splits if_splits)

interpretation kqueue: poller "\<lambda>r. kqueue_create r 100" "\<lambda>(n, g, s, k, p, fd). kqueue_poll n g s k p fd"
  "\<lambda>(sys, p). kqueue_wait sys p" kqueue_destroy
  by unfold_locales
    (auto simp: kqueue_create_def kqueue_poll_def kqueue_wait_def kqueue_destroy_def wait_answer_def Let_def
      split: sum.splits option.splits kq_event.splits if_splits)

end
