(* ===== verification/JP_Reader.thy ===== *)
theory JP_Reader
  imports JP_Queue JP_Poller
begin

text \<open>
  \<^verbatim>\<open>include/jp_reader.h\<close> and \<^verbatim>\<open>src/reader.c\<close>: \<open>jp_reader_consume\<close>, the loop of the reader thread. It
  waits for input, asks the queue for a block, reads into the block until it is full or there is no
  more input for now, and commits it; when the queue says that messages should be dropped, it reads
  into a scratch buffer and throws the bytes away.

  The answers of the poller, of \<open>jp_queue_push_uncommitted\<close> and of \<^verbatim>\<open>read\<close> are arguments. A \<^verbatim>\<open>read\<close> gets
  at most what it asks for of the bytes that are available, and the rest stays available. When a
  list of answers ends, the call has not returned. Following the pointer \<open>block\<close> while it is null is
  undefined behaviour: the result is \<^const>\<open>None\<close>.
\<close>

section \<open>Data\<close>

record jp_reader_ctx =
  rd_chunk_size :: nat
  rd_input_stream :: int

datatype sys_read = Gives "byte list" | End_Of_Input | Read_Fails sys_error

record reader_state =
  rd_block :: "byte list option" \<comment> \<open>the bytes of the block, or a null pointer\<close>
  rd_queue_err :: jp_errno
  rd_pushes :: "jp_errno list"
  rd_reads :: "sys_read list"
  rd_committed :: "byte list list"
  rd_dropped :: "byte list"
  rd_finalized :: bool
  rd_raised :: "raised list" \<comment> \<open>what the thread has raised\<close>

text \<open>How the inner loop is left: \<^verbatim>\<open>break\<close>, or \<^verbatim>\<open>goto clean_up\<close>, perhaps with a new error.\<close>

datatype inner_exit = Break | Clean_Up "jp_errno option" | Pending

section \<open>Operations\<close>

definition sys_read_call :: "nat \<Rightarrow> sys_read list \<Rightarrow> (byte list syscall \<times> sys_read list) option" where
  "sys_read_call n rs =
     (case rs of
        [] \<Rightarrow> None
      | Gives bs # rs' \<Rightarrow> Some (Inr (take n bs), if length bs \<le> n then rs' else Gives (drop n bs) # rs')
      | End_Of_Input # rs' \<Rightarrow> Some (Inr [], rs')
      | Read_Fails e # rs' \<Rightarrow> Some (Inl e, rs'))"

text \<open>\<open>if (queue_err == 0 && block->length > 0) jp_queue_push_commit(ctx.queue)\<close>.\<close>

definition commit_partial :: "reader_state \<Rightarrow> (bool \<times> reader_state) option" where
  "commit_partial st =
     (if rd_queue_err st = JP_OK
      then (case rd_block st of
              None \<Rightarrow> None
            | Some b \<Rightarrow> Some (if length b > 0 then (True, st\<lparr>rd_committed := rd_committed st @ [b]\<rparr>) else (False, st)))
      else Some (False, st))"

text \<open>What follows the \<^verbatim>\<open>read\<close> when it got nothing: \<^const>\<open>None\<close> for \<^verbatim>\<open>continue\<close>.\<close>

definition after_no_data :: "byte list syscall \<Rightarrow> reader_state \<Rightarrow> (inner_exit option \<times> reader_state) option" where
  "after_no_data r st =
     (case r of
        Inr _ \<Rightarrow>
          (case commit_partial st of None \<Rightarrow> None | Some (_, st') \<Rightarrow> Some (Some (Clean_Up None), st'))
      | Inl e \<Rightarrow>
          if e = EINTR then Some (None, st)
          else if jp_errno_eagain e then
            (case commit_partial st of
               None \<Rightarrow> None
             | Some (committed, st') \<Rightarrow> Some (Some Break, if committed then st'\<lparr>rd_block := None\<rparr> else st'))
          else Some (Some (Clean_Up (Some JP_EREAD_FAILED)),
                     st\<lparr>rd_raised := rd_raised st @
                          [JP_ERRNO_RAISE_POSIX (bytes ''reader.c'') 78 JP_EREAD_FAILED (sys_code e)]\<rparr>))"

text \<open>\<open>block == NULL\<close>: ask the queue for a block. The flag says that the queue is shutting down.\<close>

definition ask_block :: "reader_state \<Rightarrow> (bool \<times> reader_state) option" where
  "ask_block st =
     (case rd_block st of
        Some _ \<Rightarrow> Some (False, st)
      | None \<Rightarrow>
          (case rd_pushes st of
             [] \<Rightarrow> None
           | err # pushes \<Rightarrow>
               Some (err = JP_ESHUTTING_DOWN,
                     st\<lparr>rd_pushes := pushes, rd_queue_err := err,
                        rd_block := (if err = JP_OK then Some [] else None)\<rparr>)))"

text \<open>One pass of the inner loop; \<^const>\<open>None\<close> in the first component is another pass.\<close>

definition inner_pass :: "nat \<Rightarrow> reader_state \<Rightarrow> (inner_exit option \<times> reader_state) option" where
  "inner_pass chunk_size st0 =
     (case ask_block st0 of
        None \<Rightarrow> Some (Some Pending, st0)
      | Some (True, st) \<Rightarrow> Some (Some (Clean_Up None), st)
      | Some (False, st) \<Rightarrow>
          if rd_queue_err st = JP_EMSG_SHOULD_DROP then
            (case sys_read_call chunk_size (rd_reads st) of
               None \<Rightarrow> Some (Some Pending, st)
             | Some (r, reads) \<Rightarrow>
                 let st = st\<lparr>rd_reads := reads\<rparr>
                 in (case r of
                       Inr bs \<Rightarrow> if bs \<noteq> [] then Some (None, st\<lparr>rd_dropped := rd_dropped st @ bs\<rparr>)
                                 else after_no_data r st
                     | Inl e \<Rightarrow> after_no_data r st))
          else
            (case rd_block st of
               None \<Rightarrow> None
             | Some b \<Rightarrow>
                 (case sys_read_call (chunk_size - length b) (rd_reads st) of
                    None \<Rightarrow> Some (Some Pending, st)
                  | Some (r, reads) \<Rightarrow>
                      let st = st\<lparr>rd_reads := reads\<rparr>
                      in (case r of
                            Inr bs \<Rightarrow>
                              if bs \<noteq> [] then
                                (if length (b @ bs) = chunk_size
                                 then Some (None, st\<lparr>rd_committed := rd_committed st @ [b @ bs], rd_block := None\<rparr>)
                                 else Some (None, st\<lparr>rd_block := Some (b @ bs)\<rparr>))
                              else after_no_data r st
                          | Inl e \<Rightarrow> after_no_data r st))))"

text \<open>A pass that is followed by another has taken an answer or bytes from the input.\<close>

fun reads_size :: "sys_read list \<Rightarrow> nat" where
  "reads_size [] = 0"
| "reads_size (Gives bs # rs) = Suc (length bs) + reads_size rs"
| "reads_size (End_Of_Input # rs) = Suc (reads_size rs)"
| "reads_size (Read_Fails e # rs) = Suc (reads_size rs)"

lemma sys_read_call_size:
  "sys_read_call n rs = Some (r, rs') \<Longrightarrow> (\<forall>bs. r = Inr bs \<longrightarrow> bs \<noteq> []) \<Longrightarrow> reads_size rs' < reads_size rs"
  by (auto simp: sys_read_call_def split: list.splits sys_read.splits if_splits)

lemma commit_partial_reads: "commit_partial st = Some (c, st') \<Longrightarrow> rd_reads st' = rd_reads st"
  by (auto simp: commit_partial_def split: if_splits option.splits)

lemma ask_block_reads: "ask_block st = Some (b, st') \<Longrightarrow> rd_reads st' = rd_reads st"
  by (auto simp: ask_block_def split: option.splits list.splits)

lemma after_no_data_continue: "after_no_data r st = Some (None, st') \<Longrightarrow> r = Inl EINTR \<and> st' = st"
  by (auto simp: after_no_data_def split: sum.splits if_splits option.splits)

lemma inner_pass_call:
  assumes "inner_pass c st = Some (None, st')"
  obtains n r where "sys_read_call n (rd_reads st) = Some (r, rd_reads st')" "\<forall>bs. r = Inr bs \<longrightarrow> bs \<noteq> []"
proof -
  obtain st1 where st1: "ask_block st = Some (False, st1)"
    using assms by (auto simp: inner_pass_def split: option.splits prod.splits bool.splits)
  obtain n r reads where "sys_read_call n (rd_reads st1) = Some (r, reads)"
    "rd_reads st' = reads" "\<forall>bs. r = Inr bs \<longrightarrow> bs \<noteq> []"
    using assms st1
    by (auto simp: inner_pass_def Let_def split: option.splits prod.splits sum.splits if_splits
        dest!: after_no_data_continue)
  with ask_block_reads [OF st1] show thesis by (intro that [of n r]) simp_all
qed

lemma inner_pass_continue:
  "inner_pass c st = Some (None, st') \<Longrightarrow> reads_size (rd_reads st') < reads_size (rd_reads st)"
  by (erule inner_pass_call) (rule sys_read_call_size)

function reader_inner :: "nat \<Rightarrow> reader_state \<Rightarrow> (inner_exit \<times> reader_state) option" where
  "reader_inner chunk_size st =
     (case inner_pass chunk_size st of
        None \<Rightarrow> None
      | Some (Some e, st') \<Rightarrow> Some (e, st')
      | Some (None, st') \<Rightarrow> reader_inner chunk_size st')"
  by pat_completeness auto

termination reader_inner
  by (relation "measure (\<lambda>(c, st). reads_size (rd_reads st))") (auto dest: inner_pass_continue)

declare reader_inner.simps [simp del]

text \<open>A call that raised has left its error with the thread.\<close>

definition note_raised :: "raised option \<Rightarrow> reader_state \<Rightarrow> reader_state" where
  "note_raised r st = (case r of None \<Rightarrow> st | Some x \<Rightarrow> st\<lparr>rd_raised := rd_raised st @ [x]\<rparr>)"

text \<open>The outer loop over the answers of \<open>jp_poller_wait\<close>; the result is \<open>err\<close> at \<open>clean_up\<close>.\<close>

fun reader_outer :: "nat \<Rightarrow> answer list \<Rightarrow> reader_state \<Rightarrow> (jp_errno option \<times> reader_state) option" where
  "reader_outer chunk_size [] st = Some (None, st)"
| "reader_outer chunk_size (a # polls) st0 =
     (let err = answer_code a;
          st = note_raised (case a of Inl r \<Rightarrow> Some r | Inr _ \<Rightarrow> None) st0
      in if err = JP_EREAD_FAILED then Some (Some err, st)
         else if err = JP_ETRYAGAIN then reader_outer chunk_size polls st
         else (case reader_inner chunk_size st of
                 None \<Rightarrow> None
               | Some (Pending, st') \<Rightarrow> Some (None, st')
               | Some (Break, st') \<Rightarrow> reader_outer chunk_size polls st'
               | Some (Clean_Up e, st') \<Rightarrow> Some (Some (case e of None \<Rightarrow> err | Some e' \<Rightarrow> e'), st')))"

definition reader_start :: "jp_errno list \<Rightarrow> sys_read list \<Rightarrow> reader_state" where
  "reader_start pushes reads =
     \<lparr>rd_block = None, rd_queue_err = JP_OK, rd_pushes = pushes, rd_reads = reads, rd_committed = [],
      rd_dropped = [], rd_finalized = False, rd_raised = []\<rparr>"

definition reader_clean_up :: "jp_errno \<Rightarrow> reader_state \<Rightarrow> jp_errno option \<times> reader_state" where
  "reader_clean_up err st =
     (Some (if err = JP_OK \<or> jp_queue_is_graceful_err err then JP_OK else err), st\<lparr>rd_finalized := True\<rparr>)"

text \<open>\<open>create\<close> and \<open>poll\<close> are what \<open>jp_poller_create\<close> and \<open>jp_poller_poll\<close> raised.\<close>

definition jp_reader_consume ::
  "raised option \<Rightarrow> raised option \<Rightarrow> jp_reader_ctx \<Rightarrow> answer list \<Rightarrow> jp_errno list \<Rightarrow> sys_read list
     \<Rightarrow> (jp_errno option \<times> reader_state) option"
where
  "jp_reader_consume create poll ctx polls pushes reads =
     (let st = note_raised create (reader_start pushes reads)
      in if raised_code create \<noteq> JP_OK then Some (reader_clean_up (raised_code create) st)
         else do {
           buffer \<leftarrow> new_zeroed 1 (rd_chunk_size ctx);
           let st = note_raised poll st;
           if raised_code poll \<noteq> JP_OK then Some (reader_clean_up (raised_code poll) st)
           else (case reader_outer (rd_chunk_size ctx) polls st of
                   None \<Rightarrow> None
                 | Some (None, st') \<Rightarrow> Some (None, st')
                 | Some (Some err, st') \<Rightarrow> Some (reader_clean_up err st'))
         })"

section \<open>Invariant\<close>

fun read_bytes :: "sys_read list \<Rightarrow> byte list" where
  "read_bytes [] = []"
| "read_bytes (Gives bs # rs) = bs @ read_bytes rs"
| "read_bytes (End_Of_Input # rs) = read_bytes rs"
| "read_bytes (Read_Fails e # rs) = read_bytes rs"

definition push_codes :: "jp_errno set" where
  "push_codes = {JP_OK, JP_ESHUTTING_DOWN, JP_EMSG_SHOULD_DROP}"

definition current :: "reader_state \<Rightarrow> byte list" where
  "current st = (case rd_block st of None \<Rightarrow> [] | Some b \<Rightarrow> b)"

text \<open>
  The bytes taken from the input are the bytes kept and the bytes dropped, each in the order of the
  input; \<open>kept\<close> is what has been committed and then what the block holds.
\<close>

definition accounts :: "sys_read list \<Rightarrow> byte list \<Rightarrow> reader_state \<Rightarrow> bool" where
  "accounts reads kept st \<longleftrightarrow>
     (\<exists>used. read_bytes reads = used @ read_bytes (rd_reads st) \<and> used \<in> shuffles kept (rd_dropped st))"

definition blocks_fit :: "nat \<Rightarrow> reader_state \<Rightarrow> bool" where
  "blocks_fit c st \<longleftrightarrow> list_all (\<lambda>b. 0 < length b \<and> length b \<le> c) (rd_committed st)"

definition reader_inv :: "nat \<Rightarrow> sys_read list \<Rightarrow> reader_state \<Rightarrow> bool" where
  "reader_inv c reads st \<longleftrightarrow>
     accounts reads (concat (rd_committed st) @ current st) st \<and> blocks_fit c st \<and> length (current st) < c \<and>
     (rd_block st = None \<or> rd_queue_err st = JP_OK) \<and> list_all (\<lambda>e. e \<in> push_codes) (rd_pushes st) \<and>
     rd_raised st = []"

lemma sys_read_call_bytes:
  assumes "sys_read_call n (rd_reads st) = Some (r, rs)" "accounts reads kept st"
  shows "\<exists>used. read_bytes reads = used @ (case r of Inl e \<Rightarrow> [] | Inr bs \<Rightarrow> bs) @ read_bytes rs \<and>
           used \<in> shuffles kept (rd_dropped st) \<and> (case r of Inl e \<Rightarrow> True | Inr bs \<Rightarrow> length bs \<le> n)"
  using assms
  by (auto simp: sys_read_call_def accounts_def split: list.splits sys_read.splits if_splits)

lemma ask_block_inv:
  assumes "reader_inv c reads st" "ask_block st = Some (s, st')"
  shows "reader_inv c reads st'" "s \<Longrightarrow> rd_block st' = None"
    "\<not> s \<Longrightarrow> rd_queue_err st' = JP_EMSG_SHOULD_DROP \<and> rd_block st' = None \<or>
           rd_queue_err st' = JP_OK \<and> (\<exists>b. rd_block st' = Some b)"
  using assms
  by (auto simp: reader_inv_def ask_block_def accounts_def current_def blocks_fit_def push_codes_def
      split: option.splits list.splits if_splits)

text \<open>What holds of the way the inner loop, or a pass of it, is left.\<close>

definition exit_ok :: "nat \<Rightarrow> sys_read list \<Rightarrow> inner_exit \<Rightarrow> reader_state \<Rightarrow> bool" where
  "exit_ok c reads e st \<longleftrightarrow>
     (case e of
        Clean_Up x \<Rightarrow> blocks_fit c st \<and>
          (x = None \<and> accounts reads (concat (rd_committed st)) st \<and> rd_raised st = [] \<or>
           x = Some JP_EREAD_FAILED \<and> accounts reads (concat (rd_committed st) @ current st) st \<and>
           length (current st) < c \<and> (\<exists>r. rd_raised st = [r] \<and> read_failure r))
      | _ \<Rightarrow> reader_inv c reads st)"

text \<open>A pass that got no bytes, with the block or the scratch buffer at hand.\<close>

lemma after_no_data_exit:
  assumes "reader_inv c reads st" "rd_queue_err st = JP_EMSG_SHOULD_DROP \<or> rd_block st \<noteq> None"
  shows "\<exists>e st'. after_no_data r st = Some (e, st') \<and>
           (case e of None \<Rightarrow> reader_inv c reads st' | Some x \<Rightarrow> exit_ok c reads x st')"
  using assms
  by (auto simp: after_no_data_def commit_partial_def reader_inv_def accounts_def current_def blocks_fit_def
      exit_ok_def bytes_def split: sum.split option.split)

lemma inner_pass_inv:
  assumes inv: "reader_inv c reads st"
  shows "\<exists>e st'. inner_pass c st = Some (e, st') \<and>
           (case e of None \<Rightarrow> reader_inv c reads st' | Some x \<Rightarrow> exit_ok c reads x st')"
proof (cases "ask_block st")
  case None
  with inv show ?thesis by (simp add: inner_pass_def exit_ok_def)
next
  case (Some a)
  obtain s st1 where a: "ask_block st = Some (s, st1)" using Some by (cases a) simp
  note ask = ask_block_inv [OF inv a]
  show ?thesis
  proof (cases s)
    case True
    with ask(1,2) a show ?thesis
      by (auto simp: inner_pass_def exit_ok_def reader_inv_def current_def)
  next
    case False
    let ?n = "if rd_queue_err st1 = JP_EMSG_SHOULD_DROP then c else c - length (current st1)"
    show ?thesis
    proof (cases "sys_read_call ?n (rd_reads st1)")
      case None
      with ask(1,3) a False show ?thesis
        by (auto simp: inner_pass_def exit_ok_def current_def split: if_splits)
    next
      case (Some x)
      then obtain r rs where call: "sys_read_call ?n (rd_reads st1) = Some (r, rs)" by (cases x) simp
      have acc: "accounts reads (concat (rd_committed st1) @ current st1) st1" "blocks_fit c st1"
        "length (current st1) < c" "rd_block st1 = None \<or> rd_queue_err st1 = JP_OK"
        "list_all (\<lambda>e. e \<in> push_codes) (rd_pushes st1)" "rd_raised st1 = []"
        using ask(1) by (simp_all add: reader_inv_def)
      from sys_read_call_bytes [OF call acc(1)] obtain used where
        used: "read_bytes reads = used @ (case r of Inl e \<Rightarrow> [] | Inr bs \<Rightarrow> bs) @ read_bytes rs"
          "used \<in> shuffles (concat (rd_committed st1) @ current st1) (rd_dropped st1)"
          "case r of Inl e \<Rightarrow> True | Inr bs \<Rightarrow> length bs \<le> ?n"
        by blast
      let ?st = "st1\<lparr>rd_reads := rs\<rparr>"
      show ?thesis
      proof (cases "\<exists>bs. r = Inr bs \<and> bs \<noteq> []")
        case no_data: False
        then have "(case r of Inl e \<Rightarrow> [] | Inr bs \<Rightarrow> bs) = []" by (cases r) auto
        with used(1,2) have "accounts reads (concat (rd_committed ?st) @ current ?st) ?st"
          by (simp add: accounts_def current_def)
        then have "reader_inv c reads ?st"
          using acc(2-6) by (simp add: reader_inv_def current_def blocks_fit_def)
        from after_no_data_exit [OF this, of r] obtain e st' where
          e: "after_no_data r ?st = Some (e, st')" "case e of None \<Rightarrow> reader_inv c reads st' | Some x \<Rightarrow> exit_ok c reads x st'"
          using ask(3) [OF False] by auto
        have "inner_pass c st = after_no_data r ?st"
        proof (cases r)
          case (Inl x)
          with a False call ask(3) [OF False] show ?thesis by (auto simp: inner_pass_def current_def Let_def)
        next
          case (Inr bs)
          with no_data have "bs = []" by blast
          with Inr a False call ask(3) [OF False] show ?thesis by (auto simp: inner_pass_def current_def Let_def)
        qed
        with e show ?thesis by simp
      next
        case True
        then obtain bs where r: "r = Inr bs" "bs \<noteq> []" by blast
        show ?thesis
        proof (cases "rd_queue_err st1 = JP_EMSG_SHOULD_DROP")
          case drop: True
          have "reader_inv c reads (?st\<lparr>rd_dropped := rd_dropped st1 @ bs\<rparr>)"
            using acc used(1) shuffles_append_dropped [OF used(2), of bs]
            by (auto simp: r reader_inv_def accounts_def current_def blocks_fit_def intro!: exI [of _ "used @ bs"])
          with drop a False call r show ?thesis by (simp add: inner_pass_def Let_def)
        next
          case nodrop: False
          then obtain b where b: "rd_block st1 = Some b" "rd_queue_err st1 = JP_OK" using ask(3) [OF False] by auto
          then have cur: "current st1 = b" by (simp add: current_def)
          have fits: "length b + length bs \<le> c" using used(3) acc(3) nodrop by (simp add: r cur)
          have "used @ bs \<in> shuffles (concat (rd_committed st1) @ b @ bs) (rd_dropped st1)"
            using shuffles_append_left [OF used(2), of bs] by (simp add: cur)
          note sh = this
          have "reader_inv c reads (?st\<lparr>rd_committed := rd_committed st1 @ [b @ bs], rd_block := None\<rparr>)"
            "length b + length bs \<noteq> c \<Longrightarrow> reader_inv c reads (?st\<lparr>rd_block := Some (b @ bs)\<rparr>)"
            using acc used(1) sh r fits b(2) cur
            by (auto simp: reader_inv_def accounts_def current_def blocks_fit_def intro!: exI [of _ "used @ bs"])
          with nodrop a False call r b show ?thesis by (simp add: inner_pass_def Let_def cur)
        qed
      qed
    qed
  qed
qed

lemma reader_inner_inv:
  "reader_inv c reads st \<Longrightarrow> \<exists>e st'. reader_inner c st = Some (e, st') \<and> exit_ok c reads e st'"
proof (induction c st rule: reader_inner.induct)
  case (1 c st)
  obtain e st' where p: "inner_pass c st = Some (e, st')"
    "case e of None \<Rightarrow> reader_inv c reads st' | Some x \<Rightarrow> exit_ok c reads x st'"
    using inner_pass_inv [OF "1.prems"] by blast
  show ?case
  proof (cases e)
    case None
    with "1.IH" [OF p(1)] p show ?thesis by (simp add: reader_inner.simps [of c st])
  next
    case (Some x)
    with p show ?thesis by (simp add: reader_inner.simps [of c st])
  qed
qed

definition read_raises :: "jp_errno option \<Rightarrow> raised list \<Rightarrow> bool" where
  "read_raises err rs \<longleftrightarrow>
     (if err = Some JP_EREAD_FAILED then \<exists>r. rs = [r] \<and> read_failure r else rs = [])"

lemma read_raises_simps [simp]:
  "read_raises None rs \<longleftrightarrow> rs = []" "read_raises (Some JP_OK) rs \<longleftrightarrow> rs = []"
  "read_raises (Some JP_EREAD_FAILED) rs \<longleftrightarrow> (\<exists>r. rs = [r] \<and> read_failure r)"
  by (simp_all add: read_raises_def)

text \<open>
  What the reader has read and not handed on when it stops: nothing when it returns success, and otherwise what its
  block holds.
\<close>

definition kept_back :: "jp_errno option \<Rightarrow> reader_state \<Rightarrow> byte list" where
  "kept_back err st = (if err = Some JP_OK then [] else current st)"

lemma kept_back_simps [simp]:
  "kept_back None st = current st" "kept_back (Some JP_OK) st = []" "kept_back (Some JP_EREAD_FAILED) st = current st"
  by (simp_all add: kept_back_def)

definition outcome_ok :: "nat \<Rightarrow> sys_read list \<Rightarrow> jp_errno option \<Rightarrow> reader_state \<Rightarrow> bool" where
  "outcome_ok c reads err st \<longleftrightarrow> blocks_fit c st \<and>
     (err = None \<or> err = Some JP_OK \<or> err = Some JP_EREAD_FAILED) \<and>
     accounts reads (concat (rd_committed st) @ kept_back err st) st \<and> length (kept_back err st) < c \<and>
     read_raises err (rd_raised st)"

lemma reader_outer_inv:
  "reader_inv c reads st \<Longrightarrow> list_all wait_answer polls \<Longrightarrow>
   \<exists>err st'. reader_outer c polls st = Some (err, st') \<and> outcome_ok c reads err st'"
proof (induction polls arbitrary: st)
  case Nil
  then show ?case by (simp add: outcome_ok_def reader_inv_def)
next
  case (Cons p polls)
  consider r where "p = Inl r" "read_failure r" | "p = Inr JP_ETRYAGAIN" | (ready) "p = Inr JP_OK"
    using Cons.prems(2) by (cases p) (auto simp: wait_answer_def)
  then show ?case
  proof cases
    case ready
    obtain e st1 where e: "reader_inner c st = Some (e, st1)" "exit_ok c reads e st1"
      using reader_inner_inv [OF Cons.prems(1)] by blast
    then show ?thesis
      using Cons ready by (cases e) (auto simp: exit_ok_def outcome_ok_def reader_inv_def note_raised_def)
  next
    case 1
    then have "outcome_ok c reads (Some JP_EREAD_FAILED) (st\<lparr>rd_raised := [r]\<rparr>)"
      using Cons.prems(1) by (simp add: outcome_ok_def reader_inv_def accounts_def blocks_fit_def current_def)
    with 1 Cons.prems(1) show ?thesis by (simp add: note_raised_def reader_inv_def posix_failure_err)
  next
    case 2
    with Cons show ?thesis by (simp add: note_raised_def)
  qed
qed

lemma reader_start_inv:
  "0 < c \<Longrightarrow> list_all (\<lambda>e. e \<in> push_codes) pushes \<Longrightarrow> reader_inv c reads (reader_start pushes reads)"
  by (simp add: reader_inv_def reader_start_def accounts_def current_def blocks_fit_def)

section \<open>At the end of the input\<close>

text \<open>An input that goes on until it ends: bytes, interruptions, and pauses.\<close>

definition good_read :: "sys_read \<Rightarrow> bool" where
  "good_read r \<longleftrightarrow> (case r of Gives bs \<Rightarrow> bs \<noteq> [] | End_Of_Input \<Rightarrow> False | Read_Fails e \<Rightarrow> e = EINTR \<or> jp_errno_eagain e)"

fun pauses :: "sys_read list \<Rightarrow> nat" where
  "pauses [] = 0"
| "pauses (r # rs) = (case r of Read_Fails e \<Rightarrow> if e \<noteq> EINTR \<and> jp_errno_eagain e then 1 else 0 | _ \<Rightarrow> 0) + pauses rs"

definition good_state :: "reader_state \<Rightarrow> bool" where
  "good_state st \<longleftrightarrow>
     rd_queue_err st = JP_OK \<and> rd_dropped st = [] \<and> list_all (\<lambda>e. e = JP_OK) (rd_pushes st) \<and>
     reads_size (rd_reads st) \<le> length (rd_pushes st) \<and>
     (\<exists>gs. rd_reads st = gs @ [End_Of_Input] \<and> list_all good_read gs)"

lemma reads_size_end: "0 < reads_size (gs @ [End_Of_Input])"
  by (induction gs rule: reads_size.induct) auto

lemma ask_block_good:
  assumes "good_state st" "length (current st) < c"
  shows "\<exists>st1 b. ask_block st = Some (False, st1) \<and> rd_block st1 = Some b \<and> length b < c \<and> rd_queue_err st1 = JP_OK \<and>
           rd_dropped st1 = [] \<and> list_all (\<lambda>e. e = JP_OK) (rd_pushes st1) \<and>
           reads_size (rd_reads st1) \<le> Suc (length (rd_pushes st1)) \<and> rd_reads st1 = rd_reads st"
proof (cases "rd_block st")
  case (Some b)
  with assms show ?thesis by (auto simp: ask_block_def good_state_def current_def)
next
  case None
  have "rd_pushes st \<noteq> []" using assms(1) reads_size_end by (auto simp: good_state_def) (metis less_numeral_extra(3))
  then obtain p ps where "rd_pushes st = p # ps" by (cases "rd_pushes st") auto
  with assms None show ?thesis by (auto simp: ask_block_def good_state_def current_def)
qed

lemma inner_pass_good:
  assumes good: "good_state st" and cur: "length (current st) < c"
  shows "\<exists>e st'. inner_pass c st = Some (e, st') \<and>
           (e = None \<and> good_state st' \<and> pauses (rd_reads st') = pauses (rd_reads st) \<or>
            e = Some Break \<and> good_state st' \<and> Suc (pauses (rd_reads st')) = pauses (rd_reads st) \<or>
            e = Some (Clean_Up None) \<and> rd_reads st' = [] \<and> rd_dropped st' = [])"
proof -
  obtain st1 b where st1: "ask_block st = Some (False, st1)" "rd_block st1 = Some b" "length b < c"
    "rd_queue_err st1 = JP_OK" "rd_dropped st1 = []" "list_all (\<lambda>e. e = JP_OK) (rd_pushes st1)"
    "reads_size (rd_reads st1) \<le> Suc (length (rd_pushes st1))" "rd_reads st1 = rd_reads st"
    using ask_block_good [OF good cur] by blast
  obtain gs where gs: "rd_reads st = gs @ [End_Of_Input]" "list_all good_read gs"
    using good by (auto simp: good_state_def)
  show ?thesis
  proof (cases gs)
    case Nil
    with st1 gs show ?thesis
      by (auto simp: inner_pass_def sys_read_call_def Let_def after_no_data_def commit_partial_def)
  next
    case (Cons g gs')
    show ?thesis
    proof (cases g)
      case (Gives bs)
      let ?n = "c - length b"
      let ?rs = "if length bs \<le> ?n then gs' @ [End_Of_Input] else Gives (drop ?n bs) # gs' @ [End_Of_Input]"
      have bs: "bs \<noteq> []" "take ?n bs \<noteq> []" using gs(2) Cons Gives st1(3) by (auto simp: good_read_def)
      have call: "sys_read_call ?n (rd_reads st1) = Some (Inr (take ?n bs), ?rs)"
        by (simp add: sys_read_call_def st1(8) gs Cons Gives)
      have "reads_size ?rs < reads_size (rd_reads st1)"
        using bs st1(3) by (auto simp: st1(8) gs Cons Gives)
      moreover have "\<exists>hs. ?rs = hs @ [End_Of_Input] \<and> list_all good_read hs"
      proof (cases "length bs \<le> ?n")
        case True
        with gs(2) Cons show ?thesis by auto
      next
        case False
        then have "list_all good_read (Gives (drop ?n bs) # gs')" using gs(2) Cons by (simp add: good_read_def)
        with False show ?thesis by (intro exI [of _ "Gives (drop ?n bs) # gs'"]) simp
      qed
      moreover have "pauses ?rs = pauses (rd_reads st)" by (simp add: gs Cons Gives)
      ultimately show ?thesis
        using st1 call bs by (auto simp: inner_pass_def Let_def good_state_def)
    next
      case End_Of_Input
      with gs(2) Cons show ?thesis by (simp add: good_read_def)
    next
      case (Read_Fails e)
      with st1 gs Cons show ?thesis
        by (auto simp: inner_pass_def Let_def sys_read_call_def after_no_data_def commit_partial_def good_state_def
            good_read_def)
    qed
  qed
qed

lemma reader_inner_good:
  "good_state st \<Longrightarrow> reader_inv c reads st \<Longrightarrow>
   \<exists>e st'. reader_inner c st = Some (e, st') \<and>
     (e = Break \<and> good_state st' \<and> reader_inv c reads st' \<and> Suc (pauses (rd_reads st')) = pauses (rd_reads st) \<or>
      e = Clean_Up None \<and> read_bytes reads = concat (rd_committed st') \<and> blocks_fit c st')"
proof (induction c st rule: reader_inner.induct)
  case (1 c st)
  have cur: "length (current st) < c" using "1.prems"(2) by (simp add: reader_inv_def)
  obtain e st' where p: "inner_pass c st = Some (e, st')"
    "e = None \<and> good_state st' \<and> pauses (rd_reads st') = pauses (rd_reads st) \<or>
     e = Some Break \<and> good_state st' \<and> Suc (pauses (rd_reads st')) = pauses (rd_reads st) \<or>
     e = Some (Clean_Up None) \<and> rd_reads st' = [] \<and> rd_dropped st' = []"
    using inner_pass_good [OF "1.prems"(1) cur] by blast
  have inv: "case e of None \<Rightarrow> reader_inv c reads st' | Some x \<Rightarrow> exit_ok c reads x st'"
    using inner_pass_inv [OF "1.prems"(2)] p(1) by simp
  from p(2) show ?case
  proof (elim disjE conjE)
    assume "e = None" "good_state st'" "pauses (rd_reads st') = pauses (rd_reads st)"
    with "1.IH" [OF p(1) _ refl] inv p(1) show ?thesis by (simp add: reader_inner.simps [of c st])
  next
    assume "e = Some Break" "good_state st'" "Suc (pauses (rd_reads st')) = pauses (rd_reads st)"
    with inv p(1) show ?thesis by (simp add: reader_inner.simps [of c st] exit_ok_def)
  next
    assume "e = Some (Clean_Up None)" "rd_reads st' = []" "rd_dropped st' = []"
    with inv p(1) show ?thesis by (simp add: reader_inner.simps [of c st] exit_ok_def accounts_def)
  qed
qed

lemma reader_outer_good:
  "good_state st \<Longrightarrow> reader_inv c reads st \<Longrightarrow> list_all (\<lambda>a. a = Inr JP_OK \<or> a = Inr JP_ETRYAGAIN) polls \<Longrightarrow>
   pauses (rd_reads st) < count_list polls (Inr JP_OK) \<Longrightarrow>
   \<exists>st'. reader_outer c polls st = Some (Some JP_OK, st') \<and> read_bytes reads = concat (rd_committed st') \<and> blocks_fit c st'"
proof (induction polls arbitrary: st)
  case Nil
  then show ?case by simp
next
  case (Cons p polls)
  show ?case
  proof (cases "p = Inr JP_ETRYAGAIN")
    case True
    with Cons show ?thesis by (simp add: note_raised_def)
  next
    case False
    then have p: "p = Inr JP_OK" using Cons.prems(3) by simp
    obtain e st' where e: "reader_inner c st = Some (e, st')"
      "e = Break \<and> good_state st' \<and> reader_inv c reads st' \<and> Suc (pauses (rd_reads st')) = pauses (rd_reads st) \<or>
       e = Clean_Up None \<and> read_bytes reads = concat (rd_committed st') \<and> blocks_fit c st'"
      using reader_inner_good [OF Cons.prems(1,2)] by blast
    from e(2) show ?thesis
    proof (elim disjE conjE)
      assume "e = Break" "good_state st'" "reader_inv c reads st'" "Suc (pauses (rd_reads st')) = pauses (rd_reads st)"
      with Cons.IH [of st'] Cons.prems(3,4) e(1) p show ?thesis by (simp add: note_raised_def)
    next
      assume "e = Clean_Up None" "read_bytes reads = concat (rd_committed st')" "blocks_fit c st'"
      with e(1) p show ?thesis by (simp add: note_raised_def)
    qed
  qed
qed

section \<open>Over any poller\<close>

text \<open>What every implementation of the poller gives the reader.\<close>

lemma reader_returns:
  assumes "0 < rd_chunk_size ctx" "list_all wait_answer polls" "list_all (\<lambda>e. e \<in> push_codes) pushes"
    and "pred_option read_failure create" "pred_option read_failure poll"
  shows "\<exists>err st. jp_reader_consume create poll ctx polls pushes reads = Some (err, st) \<and>
     (err = None \<or> (err = Some JP_OK \<or> err = Some JP_EREAD_FAILED) \<and> rd_finalized st) \<and>
     read_raises err (rd_raised st) \<and>
     (create \<noteq> None \<or> poll \<noteq> None \<longrightarrow> err = Some JP_EREAD_FAILED \<and> rd_committed st = [] \<and> rd_reads st = reads)"
proof -
  obtain err st where o: "reader_outer (rd_chunk_size ctx) polls (reader_start pushes reads) = Some (err, st)"
    "outcome_ok (rd_chunk_size ctx) reads err st"
    using reader_outer_inv [OF reader_start_inv [OF assms(1,3)] assms(2)] by blast
  have none: ?thesis if "create = None" "poll = None"
    using o that assms(1)
    by (cases err)
      (auto simp: jp_reader_consume_def Let_def reader_clean_up_def outcome_ok_def jp_queue_is_graceful_err_def
        raised_code_def note_raised_def)
  have ?thesis if "create = Some r \<or> create = None \<and> poll = Some r" for r
    using that assms(1,4,5)
    by (auto simp: jp_reader_consume_def Let_def reader_clean_up_def reader_start_def jp_queue_is_graceful_err_def
        raised_code_def note_raised_def posix_failure_err)
  with none show ?thesis by (cases create; cases poll) blast+
qed

lemma reader_accounts:
  assumes "0 < rd_chunk_size ctx" "list_all wait_answer polls" "list_all (\<lambda>e. e \<in> push_codes) pushes"
  shows "\<exists>err st. jp_reader_consume None None ctx polls pushes reads = Some (err, st) \<and>
           list_all (\<lambda>b. 0 < length b \<and> length b \<le> rd_chunk_size ctx) (rd_committed st) \<and>
           (err = None \<or> (err = Some JP_OK \<or> err = Some JP_EREAD_FAILED) \<and> rd_finalized st) \<and>
           read_raises err (rd_raised st) \<and>
           (\<exists>used. read_bytes reads = used @ read_bytes (rd_reads st) \<and>
              used \<in> shuffles (concat (rd_committed st) @ kept_back err st) (rd_dropped st)) \<and>
           length (kept_back err st) < rd_chunk_size ctx"
proof -
  obtain err st where o: "reader_outer (rd_chunk_size ctx) polls (reader_start pushes reads) = Some (err, st)"
    "outcome_ok (rd_chunk_size ctx) reads err st"
    using reader_outer_inv [OF reader_start_inv [OF assms(1,3)] assms(2)] by blast
  then show ?thesis
    using assms(1)
    by (cases err)
      (auto simp: jp_reader_consume_def Let_def reader_clean_up_def outcome_ok_def accounts_def blocks_fit_def
        jp_queue_is_graceful_err_def raised_code_def note_raised_def current_def)
qed

context poller
begin

lemma reader_over_poller:
  assumes "0 < rd_chunk_size ctx" "list_all (\<lambda>e. e \<in> push_codes) pushes"
  shows "\<exists>err st. jp_reader_consume (snd (create r)) (poll a) ctx (map wait ws) pushes reads = Some (err, st) \<and>
     (err = None \<or> (err = Some JP_OK \<or> err = Some JP_EREAD_FAILED) \<and> rd_finalized st) \<and>
     read_raises err (rd_raised st) \<and>
     (fst (create r) = None \<or> poll a \<noteq> None \<longrightarrow>
        err = Some JP_EREAD_FAILED \<and> rd_committed st = [] \<and> rd_reads st = reads)"
  using reader_returns [OF assms(1) waits_in assms(2) create_error [of r] poll_error [of a], of ws reads]
  by (simp only: create_codes not_not)

end

section \<open>Properties\<close>

text \<open>
  C9: Whatever the poller, the queue and the input answer, as their contracts allow, the reader never
  follows a null block pointer, and every block it commits holds between one byte and the chunk size.
  The bytes it took from the input are those it committed and those it dropped, each in the order
  of the input and none twice, and nothing more when it ends without an error. When it ends with an error, or has
  not ended, there are also the bytes that its block holds, after those committed, and they are fewer than a chunk.
  It returns success or \<open>JP_EREAD_FAILED\<close>, and then it has finalised the queue; and it has raised
  the error once, with the code of the system call that failed, exactly when it returns it.
\<close>

theorem reader_accounts_for_every_byte:
  assumes "0 < rd_chunk_size ctx" "list_all wait_answer polls" "list_all (\<lambda>e. e \<in> push_codes) pushes"
  shows "\<exists>err st. jp_reader_consume None None ctx polls pushes reads = Some (err, st) \<and>
           list_all (\<lambda>b. 0 < length b \<and> length b \<le> rd_chunk_size ctx) (rd_committed st) \<and>
           (err = None \<or> (err = Some JP_OK \<or> err = Some JP_EREAD_FAILED) \<and> rd_finalized st) \<and>
           read_raises err (rd_raised st) \<and>
           (\<exists>used. read_bytes reads = used @ read_bytes (rd_reads st) \<and>
              used \<in> shuffles (concat (rd_committed st) @ (if err = Some JP_OK then [] else current st)) (rd_dropped st)) \<and>
           length (if err = Some JP_OK then [] else current st) < rd_chunk_size ctx"
  unfolding kept_back_def [symmetric] by (rule reader_accounts [OF assms])

theorem reader_accounts_for_every_byte_witness:
  "\<exists>st used. jp_reader_consume None None \<lparr>rd_chunk_size = 2, rd_input_stream = 0\<rparr> [Inr JP_OK]
       [JP_OK, JP_OK] [Gives [1, 2, 3], Read_Fails (Errno 5)] = Some (Some JP_EREAD_FAILED, st) \<and>
     rd_committed st = [[1, 2]] \<and> current st = [3] \<and> length (current st) < 2 \<and>
     read_bytes [Gives [1, 2, 3], Read_Fails (Errno 5)] = used @ read_bytes (rd_reads st) \<and>
     used \<in> shuffles (concat (rd_committed st) @ current st) (rd_dropped st)"
proof -
  let ?ctx = "\<lparr>rd_chunk_size = 2, rd_input_stream = 0\<rparr>" and ?reads = "[Gives [1, 2, 3], Read_Fails (Errno 5)]"
  have hyps: "0 < rd_chunk_size ?ctx" "list_all wait_answer [Inr JP_OK]" "list_all (\<lambda>e. e \<in> push_codes) [JP_OK, JP_OK]"
    by (simp_all add: wait_answer_def push_codes_def)
  obtain st where st: "jp_reader_consume None None ?ctx [Inr JP_OK] [JP_OK, JP_OK] ?reads = Some (Some JP_EREAD_FAILED, st)"
    "rd_committed st = [[1, 2]]" "current st = [3]"
    by (simp add: jp_reader_consume_def raised_code_def note_raised_def Let_def reader_start_def reader_inner.simps
        inner_pass_def ask_block_def sys_read_call_def after_no_data_def jp_errno_eagain_def reader_clean_up_def
        jp_queue_is_graceful_err_def current_def)
  from reader_accounts_for_every_byte [OF hyps, of ?reads] st show ?thesis by (intro exI [of _ st]) auto
qed

text \<open>
  C35: Over either poller, epoll or kqueue, and whatever the system calls answer, the reader never
  follows a null block pointer, and when it returns, it returns success or \<open>JP_EREAD_FAILED\<close> and has
  finalised the queue. It returns the error exactly when it has raised it, once, with the code of a failed
  system call. When the poller cannot be created or the input cannot be registered with it,
  the reader returns \<open>JP_EREAD_FAILED\<close> without reading or committing anything.
\<close>

theorem reader_over_both_pollers:
  assumes "0 < rd_chunk_size ctx" "list_all (\<lambda>e. e \<in> push_codes) pushes"
  shows "(\<exists>err st. jp_reader_consume (snd (epoll_create r 100)) (epoll_poll ctl p (rd_input_stream ctx)) ctx
            (map (\<lambda>sys. epoll_wait sys p) ws) pushes reads = Some (err, st) \<and>
          (err = None \<or> (err = Some JP_OK \<or> err = Some JP_EREAD_FAILED) \<and> rd_finalized st) \<and>
          read_raises err (rd_raised st) \<and>
          (fst (epoll_create r 100) = None \<or> epoll_poll ctl p (rd_input_stream ctx) \<noteq> None \<longrightarrow>
             err = Some JP_EREAD_FAILED \<and> rd_committed st = [] \<and> rd_reads st = reads)) \<and>
         (\<exists>err st. jp_reader_consume (snd (kqueue_create r 100)) (kqueue_poll n g f k p' (rd_input_stream ctx)) ctx
            (map (\<lambda>sys. kqueue_wait sys p') ws') pushes reads = Some (err, st) \<and>
          (err = None \<or> (err = Some JP_OK \<or> err = Some JP_EREAD_FAILED) \<and> rd_finalized st) \<and>
          read_raises err (rd_raised st) \<and>
          (fst (kqueue_create r 100) = None \<or> kqueue_poll n g f k p' (rd_input_stream ctx) \<noteq> None \<longrightarrow>
             err = Some JP_EREAD_FAILED \<and> rd_committed st = [] \<and> rd_reads st = reads))"
  using epoll.reader_over_poller [OF assms, of r "(ctl, p, rd_input_stream ctx)" "map (\<lambda>sys. (sys, p)) ws" reads]
    kqueue.reader_over_poller [OF assms, of r "(n, g, f, k, p', rd_input_stream ctx)" "map (\<lambda>sys. (sys, p')) ws'" reads]
  by (simp add: comp_def)

theorem reader_over_both_pollers_witness:
  "\<exists>st. jp_reader_consume (snd (epoll_create (Inr 5) 100)) (epoll_poll (\<lambda>_ _ _ _. Inl (Errno 1)) \<lparr>ep_fd = 5, ep_timeout = 100\<rparr> 0)
          \<lparr>rd_chunk_size = 2, rd_input_stream = 0\<rparr> (map (\<lambda>sys. epoll_wait sys \<lparr>ep_fd = 5, ep_timeout = 100\<rparr>) [\<lambda>_ _ _. Inr 1])
          [JP_OK] [Gives [1]] = Some (Some JP_EREAD_FAILED, st) \<and> rd_finalized st \<and> (\<exists>r. rd_raised st = [r])"
proof -
  let ?p = "\<lparr>ep_fd = 5, ep_timeout = 100\<rparr>" and ?q = "\<lparr>kq_fd = 5, kq_sec = 0, kq_nsec = 100000000\<rparr>"
  have "0 < rd_chunk_size \<lparr>rd_chunk_size = 2, rd_input_stream = 0\<rparr>" "list_all (\<lambda>e. e \<in> push_codes) [JP_OK]"
    by (simp_all add: push_codes_def)
  from reader_over_both_pollers [OF this, of "Inr 5" "\<lambda>_ _ _ _. Inl (Errno 1)" ?p "[\<lambda>_ _ _. Inr 1]" "[Gives [1]]"
      4 "\<lambda>_. Inr 0" "\<lambda>_ _. Inr ()" "\<lambda>_ _. Inr ()" ?q "[]"]
  show ?thesis by (auto simp: epoll_poll_def)
qed

lemma reader_end_of_input:
  assumes "0 < rd_chunk_size ctx" "list_all good_read gs"
    and "list_all (\<lambda>e. e = JP_OK) pushes" "reads_size (gs @ [End_Of_Input]) \<le> length pushes"
    and "list_all (\<lambda>a. a = Inr JP_OK \<or> a = Inr JP_ETRYAGAIN) polls" "pauses gs < count_list polls (Inr JP_OK)"
  shows "\<exists>st. jp_reader_consume None None ctx polls pushes (gs @ [End_Of_Input]) = Some (Some JP_OK, st) \<and>
              concat (rd_committed st) = read_bytes gs \<and> rd_finalized st \<and>
              list_all (\<lambda>b. 0 < length b \<and> length b \<le> rd_chunk_size ctx) (rd_committed st)"
proof -
  let ?reads = "gs @ [End_Of_Input]"
  have app: "pauses ?reads = pauses gs" "read_bytes ?reads = read_bytes gs"
  proof -
    show "pauses ?reads = pauses gs" by (induction gs) auto
    show "read_bytes ?reads = read_bytes gs" by (induction gs rule: read_bytes.induct) auto
  qed
  have "good_state (reader_start pushes ?reads)"
    using assms(2-4) by (auto simp: good_state_def reader_start_def)
  moreover have "reader_inv (rd_chunk_size ctx) ?reads (reader_start pushes ?reads)"
    using assms(1,3) by (intro reader_start_inv) (auto simp: push_codes_def list_all_iff)
  moreover have "pauses (rd_reads (reader_start pushes ?reads)) < count_list polls (Inr JP_OK)"
    using assms(6) app(1) by (simp add: reader_start_def)
  ultimately obtain st where
    "reader_outer (rd_chunk_size ctx) polls (reader_start pushes ?reads) = Some (Some JP_OK, st)"
    "read_bytes ?reads = concat (rd_committed st)" "blocks_fit (rd_chunk_size ctx) st"
    using reader_outer_good [OF _ _ assms(5)] by blast
  with app(2) assms(1) show ?thesis
    by (auto simp: jp_reader_consume_def Let_def reader_clean_up_def blocks_fit_def raised_code_def note_raised_def)
qed

text \<open>
  When the queue accepts every block and the input ends, nothing is lost: for every division of the
  input into reads, with interruptions, pauses and poller timeouts in between, the reader returns
  success, and the blocks it has committed are together exactly the input.
\<close>

theorem reader_delivers_the_input:
  assumes "0 < rd_chunk_size ctx" "list_all good_read gs"
    and "list_all (\<lambda>e. e = JP_OK) pushes" "reads_size (gs @ [End_Of_Input]) \<le> length pushes"
    and "list_all (\<lambda>a. a = Inr JP_OK \<or> a = Inr JP_ETRYAGAIN) polls" "pauses gs < count_list polls (Inr JP_OK)"
  shows "\<exists>st. jp_reader_consume None None ctx polls pushes (gs @ [End_Of_Input]) = Some (Some JP_OK, st) \<and>
              concat (rd_committed st) = read_bytes gs \<and> rd_finalized st \<and>
              list_all (\<lambda>b. 0 < length b \<and> length b \<le> rd_chunk_size ctx) (rd_committed st)"
  by (rule reader_end_of_input [OF assms])

theorem reader_delivers_the_input_witness:
  "\<exists>st. jp_reader_consume None None \<lparr>rd_chunk_size = 2, rd_input_stream = 0\<rparr> [Inr JP_ETRYAGAIN, Inr JP_OK, Inr JP_OK]
          (replicate 9 JP_OK) [Gives [1, 2, 3], Read_Fails EAGAIN, Gives [4], End_Of_Input] = Some (Some JP_OK, st) \<and>
        concat (rd_committed st) = [1, 2, 3, 4]"
proof -
  have "list_all good_read [Gives [1, 2, 3], Read_Fails EAGAIN, Gives [4]]"
    by (simp add: good_read_def jp_errno_eagain_def)
  from reader_delivers_the_input [OF _ this, of "\<lparr>rd_chunk_size = 2, rd_input_stream = 0\<rparr>" "replicate 9 JP_OK"
      "[Inr JP_ETRYAGAIN, Inr JP_OK, Inr JP_OK]"]
  show ?thesis by (auto simp: jp_errno_eagain_def list_all_iff)
qed

text \<open>
  While the poller times out, the reader never looks at the queue: after any number of timeouts it
  has not returned and has asked for no block, whatever the queue would answer. A queue that was
  finalised by a signal is therefore not noticed while the input is idle.
\<close>

theorem reader_ignores_shutdown_while_idle:
  assumes "0 < rd_chunk_size ctx"
  shows "jp_reader_consume None None ctx (replicate n (Inr JP_ETRYAGAIN)) pushes reads =
     Some (None, reader_start pushes reads)"
proof -
  have "reader_outer c (replicate n (Inr JP_ETRYAGAIN)) st = Some (None, st)" for c st
    by (induction n) (simp_all add: note_raised_def)
  then show ?thesis
    using assms by (simp add: jp_reader_consume_def Let_def raised_code_def note_raised_def)
qed

end
