(* ===== verification/JP_Json.thy ===== *)
theory JP_Json
  imports JP_Field
begin

text \<open>
  \<^verbatim>\<open>include/jp_json.h\<close>, \<^verbatim>\<open>include/jp_encoder.h\<close> and \<^verbatim>\<open>src/json.c\<close>: the recogniser of JSON number
  literals, the classification of a field value as a JSON string or a bare literal, and the three
  encoders of the JSON encoder object: the prefix (the fields and the key of the message), the
  escaping of a value, and the postfix.

  The encoders write through a cursor into a buffer they are given or have allocated; every store
  is bounds-checked (\<^const>\<open>buf_set\<close>, \<^const>\<open>buf_copy\<close>). The specifications are the grammar of RFC 8259
  numbers, the escape of one byte, and a decoder of JSON string bodies.
\<close>

section \<open>Number literals\<close>

datatype json_number_state =
    JSON_NUM_STATE_START
  | JSON_NUM_STATE_MINUS
  | JSON_NUM_STATE_ZERO
  | JSON_NUM_STATE_DIGIT
  | JSON_NUM_STATE_DOT
  | JSON_NUM_STATE_FRACTION
  | JSON_NUM_STATE_EXP
  | JSON_NUM_STATE_EXP_SIGN
  | JSON_NUM_STATE_EXP_DIGIT

abbreviation is_digit :: "byte \<Rightarrow> bool" where
  "is_digit ch \<equiv> ch \<ge> 48 \<and> ch \<le> 57"

text \<open>One iteration of the loop: the next state, or \<^const>\<open>None\<close> for \<^verbatim>\<open>return false\<close>.\<close>

fun json_number_step :: "json_number_state \<Rightarrow> byte \<Rightarrow> json_number_state option" where
  "json_number_step JSON_NUM_STATE_START ch =
     (if ch = 45 then Some JSON_NUM_STATE_MINUS
      else if ch = 48 then Some JSON_NUM_STATE_ZERO
      else if is_digit ch then Some JSON_NUM_STATE_DIGIT
      else None)"
| "json_number_step JSON_NUM_STATE_MINUS ch =
     (if ch = 48 then Some JSON_NUM_STATE_ZERO
      else if is_digit ch then Some JSON_NUM_STATE_DIGIT
      else None)"
| "json_number_step JSON_NUM_STATE_ZERO ch =
     (if ch = 46 then Some JSON_NUM_STATE_DOT
      else if ch = 101 \<or> ch = 69 then Some JSON_NUM_STATE_EXP
      else None)"
| "json_number_step JSON_NUM_STATE_DIGIT ch =
     (if is_digit ch then Some JSON_NUM_STATE_DIGIT
      else if ch = 46 then Some JSON_NUM_STATE_DOT
      else if ch = 101 \<or> ch = 69 then Some JSON_NUM_STATE_EXP
      else None)"
| "json_number_step JSON_NUM_STATE_DOT ch =
     (if is_digit ch then Some JSON_NUM_STATE_FRACTION else None)"
| "json_number_step JSON_NUM_STATE_FRACTION ch =
     (if is_digit ch then Some JSON_NUM_STATE_FRACTION
      else if ch = 101 \<or> ch = 69 then Some JSON_NUM_STATE_EXP
      else None)"
| "json_number_step JSON_NUM_STATE_EXP ch =
     (if ch = 43 \<or> ch = 45 then Some JSON_NUM_STATE_EXP_SIGN
      else if is_digit ch then Some JSON_NUM_STATE_EXP_DIGIT
      else None)"
| "json_number_step JSON_NUM_STATE_EXP_SIGN ch =
     (if is_digit ch then Some JSON_NUM_STATE_EXP_DIGIT else None)"
| "json_number_step JSON_NUM_STATE_EXP_DIGIT ch =
     (if is_digit ch then Some JSON_NUM_STATE_EXP_DIGIT else None)"

fun json_number_accepts :: "json_number_state \<Rightarrow> byte list \<Rightarrow> bool" where
  "json_number_accepts state [] \<longleftrightarrow>
     state = JSON_NUM_STATE_ZERO \<or> state = JSON_NUM_STATE_DIGIT \<or>
     state = JSON_NUM_STATE_FRACTION \<or> state = JSON_NUM_STATE_EXP_DIGIT"
| "json_number_accepts state (ch # str) \<longleftrightarrow>
     (case json_number_step state ch of None \<Rightarrow> False | Some state' \<Rightarrow> json_number_accepts state' str)"

definition is_json_numeric_literal :: "byte list \<Rightarrow> bool" where
  "is_json_numeric_literal str = json_number_accepts JSON_NUM_STATE_START str"

text \<open>\<^verbatim>\<open>memcmp\<close> is non-zero, that is true, exactly when the bytes differ.\<close>

definition is_json_string_literal :: "byte list \<Rightarrow> bool" where
  "is_json_string_literal str =
     (case str of
        [] \<Rightarrow> True
      | ch # _ \<Rightarrow>
          if ch = 116 \<and> length str = 4 then str \<noteq> bytes ''true''
          else if ch = 102 \<and> length str = 5 then str \<noteq> bytes ''false''
          else if ch = 110 \<and> length str = 4 then str \<noteq> bytes ''null''
          else if ch = 45 \<or> is_digit ch then \<not> is_json_numeric_literal str
          else True)"

section \<open>Escaping a value\<close>

definition JP_JSON_ESCAPE_MUL :: nat where
  "JP_JSON_ESCAPE_MUL = 6"

definition json_size_lut :: "nat list" where
  "json_size_lut =
     [6, 6, 6, 6, 6, 6, 6, 6, 2, 2, 2, 6, 2, 2, 6, 6, 6, 6, 6, 6, 6, 6, 6, 6, 6, 6, 6, 6, 6, 6, 6, 6,
      1, 1, 2, 1, 1, 1, 1, 1, 1, 1, 1, 1, 1, 1, 1, 1, 1, 1, 1, 1, 1, 1, 1, 1, 1, 1, 1, 1, 1, 1, 1, 1,
      1, 1, 1, 1, 1, 1, 1, 1, 1, 1, 1, 1, 1, 1, 1, 1, 1, 1, 1, 1, 1, 1, 1, 1, 1, 1, 1, 1, 2, 1, 1, 1,
      1, 1, 1, 1, 1, 1, 1, 1, 1, 1, 1, 1, 1, 1, 1, 1, 1, 1, 1, 1, 1, 1, 1, 1, 1, 1, 1, 1, 1, 1, 1, 6,
      1, 1, 1, 1, 1, 1, 1, 1, 1, 1, 1, 1, 1, 1, 1, 1, 1, 1, 1, 1, 1, 1, 1, 1, 1, 1, 1, 1, 1, 1, 1, 1,
      1, 1, 1, 1, 1, 1, 1, 1, 1, 1, 1, 1, 1, 1, 1, 1, 1, 1, 1, 1, 1, 1, 1, 1, 1, 1, 1, 1, 1, 1, 1, 1,
      1, 1, 1, 1, 1, 1, 1, 1, 1, 1, 1, 1, 1, 1, 1, 1, 1, 1, 1, 1, 1, 1, 1, 1, 1, 1, 1, 1, 1, 1, 1, 1,
      1, 1, 1, 1, 1, 1, 1, 1, 1, 1, 1, 1, 1, 1, 1, 1, 1, 1, 1, 1, 1, 1, 1, 1, 1, 1, 1, 1, 1, 1, 1, 1]"

text \<open>The entries the designated initialisers do not name are 0.\<close>

definition json_short_lookup :: "byte \<Rightarrow> byte" where
  "json_short_lookup ch =
     (if ch = 10 then 110 else if ch = 13 then 114 else if ch = 9 then 116 else if ch = 8 then 98
      else if ch = 12 then 102 else if ch = 34 then 34 else if ch = 92 then 92 else 0)"

definition hex_chars :: "byte list" where
  "hex_chars = [48, 49, 50, 51, 52, 53, 54, 55, 56, 57, 97, 98, 99, 100, 101, 102]"

unbundle bit_operations_syntax

text \<open>
  The loop of \<open>jp_json_value_encoder\<close>, from the next byte of the source and the cursor \<open>dst_ptr\<close>.
  The destination is the part of the object \<open>dst\<close> that starts at \<open>base\<close>; \<open>dst_len\<close> is the size the
  caller gives for it. The result is the final cursor and the object.
\<close>

fun encode_loop :: "byte list \<Rightarrow> buffer \<Rightarrow> nat \<Rightarrow> nat \<Rightarrow> nat \<Rightarrow> (nat \<times> buffer) option" where
  "encode_loop [] dst base dst_len dst_ptr = Some (dst_ptr, dst)"
| "encode_loop (ch # src) dst base dst_len dst_ptr =
     (let esc_len = json_size_lut ! unat ch
      in if dst_ptr + esc_len > dst_len then Some (dst_ptr, dst)
         else if esc_len = 1 then do {
           dst \<leftarrow> buf_set dst (base + dst_ptr) ch;
           encode_loop src dst base dst_len (dst_ptr + 1)
         }
         else if esc_len = 2 then do {
           dst \<leftarrow> buf_set dst (base + dst_ptr) 92;
           dst \<leftarrow> buf_set dst (base + dst_ptr + 1) (json_short_lookup ch);
           encode_loop src dst base dst_len (dst_ptr + 2)
         }
         else do {
           dst \<leftarrow> buf_set dst (base + dst_ptr) 92;
           dst \<leftarrow> buf_set dst (base + dst_ptr + 1) 117;
           dst \<leftarrow> buf_set dst (base + dst_ptr + 2) 48;
           dst \<leftarrow> buf_set dst (base + dst_ptr + 3) 48;
           dst \<leftarrow> buf_set dst (base + dst_ptr + 4) (hex_chars ! unat (drop_bit 4 ch));
           dst \<leftarrow> buf_set dst (base + dst_ptr + 5) (hex_chars ! unat (ch AND 15));
           encode_loop src dst base dst_len (dst_ptr + 6)
         })"

definition jp_json_value_encoder ::
  "byte list \<Rightarrow> buffer \<Rightarrow> nat \<Rightarrow> nat \<Rightarrow> (nat \<times> buffer) option"
where
  "jp_json_value_encoder src dst base dst_len = encode_loop src dst base dst_len 0"

section \<open>The prefix and the postfix\<close>

text \<open>The \<open>size_t\<close> sum that sizes the allocation.\<close>

definition prefix_size :: "jp_field list \<Rightarrow> size_t" where
  "prefix_size fs =
     foldl (\<lambda>n f. n + (of_nat (key_len f) + of_nat (val_len f) * of_nat JP_JSON_ESCAPE_MUL + 6)) 64 fs"

text \<open>The body of the second loop, for one field.\<close>

definition prefix_field :: "jp_field \<Rightarrow> buffer \<Rightarrow> nat \<Rightarrow> (buffer \<times> nat) option" where
  "prefix_field field metadata json_ptr =
     (let is_json_str = is_json_string_literal (field_val field)
      in do {
        metadata \<leftarrow> buf_set metadata json_ptr 34;
        metadata \<leftarrow> buf_copy metadata (json_ptr + 1) (field_key field);
        let json_ptr = json_ptr + 1 + key_len field;
        metadata \<leftarrow> buf_set metadata json_ptr 34;
        metadata \<leftarrow> buf_set metadata (json_ptr + 1) 58;
        let json_ptr = json_ptr + 2;
        (metadata, json_ptr) \<leftarrow>
          (if is_json_str then do { m \<leftarrow> buf_set metadata json_ptr 34; Some (m, json_ptr + 1) }
           else Some (metadata, json_ptr));
        (esc_size, metadata) \<leftarrow>
          jp_json_value_encoder (field_val field) metadata json_ptr (val_len field * 6);
        let json_ptr = json_ptr + esc_size;
        (metadata, json_ptr) \<leftarrow>
          (if is_json_str then do { m \<leftarrow> buf_set metadata json_ptr 34; Some (m, json_ptr + 1) }
           else Some (metadata, json_ptr));
        metadata \<leftarrow> buf_set metadata json_ptr 44;
        Some (metadata, json_ptr + 1)
      })"

fun prefix_loop :: "jp_field list \<Rightarrow> buffer \<Rightarrow> nat \<Rightarrow> (buffer \<times> nat) option" where
  "prefix_loop [] metadata json_ptr = Some (metadata, json_ptr)"
| "prefix_loop (field # fs) metadata json_ptr =
     do { (metadata, json_ptr) \<leftarrow> prefix_field field metadata json_ptr; prefix_loop fs metadata json_ptr }"

text \<open>The result is the allocated object and \<^verbatim>\<open>*dst_len\<close>.\<close>

definition jp_json_prefix_encoder :: "(nat \<Rightarrow> buffer) \<Rightarrow> jp_field_set \<Rightarrow> (buffer \<times> nat) option" where
  "jp_json_prefix_encoder junk field_set =
     do {
       metadata \<leftarrow> new_object junk (unat (prefix_size (set_fields field_set)));
       metadata \<leftarrow> buf_set metadata 0 123;
       (metadata, json_ptr) \<leftarrow> prefix_loop (set_fields field_set) metadata 1;
       metadata \<leftarrow> buf_copy metadata json_ptr (bytes ''\"msg\":'');
       let json_ptr = json_ptr + 6;
       metadata \<leftarrow> buf_set metadata json_ptr 0;
       Some (metadata, json_ptr)
     }"

definition jp_json_postfix_encoder :: "jp_field_set \<Rightarrow> buffer \<times> nat" where
  "jp_json_postfix_encoder field_set = (bytes ''\"}'' @ [10, 0], 3)"

section \<open>The encoder object\<close>

record jp_encoder =
  prefix_encoder :: "(nat \<Rightarrow> buffer) \<Rightarrow> jp_field_set \<Rightarrow> (buffer \<times> nat) option"
  value_encoder :: "byte list \<Rightarrow> buffer \<Rightarrow> nat \<Rightarrow> nat \<Rightarrow> (nat \<times> buffer) option"
  postfix_encoder :: "jp_field_set \<Rightarrow> buffer \<times> nat"
  escaping_mul :: nat

definition jp_encoder_json :: jp_encoder where
  "jp_encoder_json =
     \<lparr>prefix_encoder = jp_json_prefix_encoder, value_encoder = jp_json_value_encoder,
      postfix_encoder = jp_json_postfix_encoder, escaping_mul = JP_JSON_ESCAPE_MUL\<rparr>"

section \<open>What the encoders write\<close>

text \<open>
  The escape of one byte, of a whole value, and of as many leading bytes of a value as fit in
  \<open>n\<close> bytes; the length table gives the length of the escape.
\<close>

definition json_escape :: "byte \<Rightarrow> byte list" where
  "json_escape ch =
     (if ch = 8 \<or> ch = 9 \<or> ch = 10 \<or> ch = 12 \<or> ch = 13 \<or> ch = 34 \<or> ch = 92
      then [92, json_short_lookup ch]
      else if ch < 32 \<or> ch = 127
      then [92, 117, 48, 48, hex_chars ! unat (drop_bit 4 ch), hex_chars ! unat (ch AND 15)]
      else [ch])"

fun json_escape_upto :: "nat \<Rightarrow> byte list \<Rightarrow> byte list" where
  "json_escape_upto n [] = []"
| "json_escape_upto n (ch # src) =
     (if length (json_escape ch) > n then []
      else json_escape ch @ json_escape_upto (n - length (json_escape ch)) src)"

definition json_escape_all :: "byte list \<Rightarrow> byte list" where
  "json_escape_all src = concat (map json_escape src)"

lemma lut_runs: "json_size_lut = replicate 8 6 @ [2,2,2,6,2,2] @ replicate 18 6 @ [1,1,2] @ replicate 57 1 @ [2] @ replicate 34 1 @ [6] @ replicate 128 1"
  by (simp add: json_size_lut_def numeral_eq_Suc)

lemma nth_lut: "n < 256 \<Longrightarrow> json_size_lut ! n = (if n = 8 \<or> n = 9 \<or> n = 10 \<or> n = 12 \<or> n = 13 \<or> n = 34 \<or> n = 92 then 2 else if n < 32 \<or> n = 127 then 6 else 1)"
  unfolding lut_runs by (auto simp: nth_append nth_Cons')

lemma lut_length: "json_size_lut ! unat (ch :: byte) = length (json_escape ch)"
proof -
  have "unat ch < 256" using unsigned_less [of ch] by simp
  moreover have "unat ch = n \<longleftrightarrow> ch = of_nat n" if "n < 256" for n
    using that by (auto simp: unat_of_nat)
  ultimately show ?thesis
    by (simp add: nth_lut json_escape_def word_less_nat_alt)
qed

lemma encode_loop_step:
  assumes "dst_ptr + length (json_escape ch) \<le> dst_len"
  shows "encode_loop (ch # src) dst base dst_len dst_ptr =
     buf_copy dst (base + dst_ptr) (json_escape ch) \<bind>
       (\<lambda>d. encode_loop src d base dst_len (dst_ptr + length (json_escape ch)))"
  using assms
  by (auto simp: Let_def lut_length json_escape_def buf_set_copy buf_copy_copy)
    (simp_all add: eval_nat_numeral)

lemma encode_loop_copy:
  "dst_ptr \<le> dst_len \<Longrightarrow> base + dst_ptr \<le> length dst \<Longrightarrow>
   encode_loop src dst base dst_len dst_ptr =
     buf_copy dst (base + dst_ptr) (json_escape_upto (dst_len - dst_ptr) src) \<bind>
       (\<lambda>d. Some (dst_ptr + length (json_escape_upto (dst_len - dst_ptr) src), d))"
proof (induction src arbitrary: dst dst_ptr)
  case Nil
  then show ?case by (simp add: buf_copy_Nil)
next
  case (Cons ch src)
  show ?case
  proof (cases "dst_ptr + length (json_escape ch) \<le> dst_len")
    case False
    then have "dst_len - dst_ptr < length (json_escape ch)" using Cons.prems by linarith
    with False Cons.prems show ?thesis by (simp add: Let_def lut_length buf_copy_Nil)
  next
    case True
    let ?e = "json_escape ch"
    let ?n = "dst_ptr + length ?e"
    let ?out = "json_escape_upto (dst_len - ?n) src"
    have "encode_loop (ch # src) dst base dst_len dst_ptr =
        buf_copy dst (base + dst_ptr) ?e \<bind> (\<lambda>d. buf_copy d (base + ?n) ?out \<bind>
          (\<lambda>d. Some (?n + length ?out, d)))"
      unfolding encode_loop_step [OF True]
      by (rule bind_copy_cong) (simp add: Cons.IH True)
    also have "\<dots> = buf_copy dst (base + dst_ptr) (?e @ ?out) \<bind> (\<lambda>d. Some (?n + length ?out, d))"
      by (simp add: buf_copy_copy)
    finally have run: "encode_loop (ch # src) dst base dst_len dst_ptr =
        buf_copy dst (base + dst_ptr) (?e @ ?out) \<bind> (\<lambda>d. Some (?n + length ?out, d))" .
    have "json_escape_upto (dst_len - dst_ptr) (ch # src) = ?e @ ?out"
      using True Cons.prems by simp linarith
    with run show ?thesis by (simp only: length_append add.assoc)
  qed
qed

lemma length_json_escape: "length (json_escape ch) \<le> 6" "0 < length (json_escape ch)"
  by (auto simp: json_escape_def)

lemma json_escape_upto_all:
  "6 * length src \<le> n \<Longrightarrow> json_escape_upto n src = json_escape_all src"
proof (induction src arbitrary: n)
  case Nil
  then show ?case by (simp add: json_escape_all_def)
next
  case (Cons ch src)
  have "length (json_escape ch) \<le> 6" by (rule length_json_escape)
  with Cons.prems Cons.IH [of "n - length (json_escape ch)"] show ?case
    by (simp add: json_escape_all_def)
qed

lemma length_json_escape_upto: "length (json_escape_upto n src) \<le> n"
  by (induction n src rule: json_escape_upto.induct) auto

lemma json_escape_upto_run:
  "\<exists>n \<le> length src. json_escape_upto m src = json_escape_all (take n src) \<and>
     (n < length src \<longrightarrow> m < length (json_escape_all (take n src)) + length (json_escape (src ! n)))"
proof (induction src arbitrary: m)
  case Nil
  then show ?case by (simp add: json_escape_all_def)
next
  case (Cons c src)
  show ?case
  proof (cases "length (json_escape c) > m")
    case True
    then show ?thesis by (intro exI [of _ 0]) (simp add: json_escape_all_def)
  next
    case False
    obtain n where "n \<le> length src"
      "json_escape_upto (m - length (json_escape c)) src = json_escape_all (take n src)"
      "n < length src \<longrightarrow> m - length (json_escape c) <
         length (json_escape_all (take n src)) + length (json_escape (src ! n))"
      using Cons.IH by metis
    with False show ?thesis by (intro exI [of _ "Suc n"]) (auto simp: json_escape_all_def)
  qed
qed

lemma length_json_escape_all: "length (json_escape_all src) \<le> 6 * length src"
  using json_escape_upto_all [of src "6 * length src"] length_json_escape_upto [of "6 * length src" src]
  by simp

lemma jp_json_value_encoder_copy:
  "base \<le> length dst \<Longrightarrow>
   jp_json_value_encoder src dst base dst_len =
     buf_copy dst base (json_escape_upto dst_len src) \<bind>
       (\<lambda>d. Some (length (json_escape_upto dst_len src), d))"
  by (simp add: jp_json_value_encoder_def encode_loop_copy)

definition field_text :: "jp_field \<Rightarrow> byte list" where
  "field_text f =
     [34] @ field_key f @ [34, 58] @
     (if is_json_string_literal (field_val f) then [34] @ json_escape_all (field_val f) @ [34]
      else json_escape_all (field_val f)) @ [44]"

lemma copy_then_encode:
  assumes "j = i + length xs"
  shows "buf_copy b i xs \<bind> (\<lambda>d. jp_json_value_encoder src d j n \<bind> g) =
     buf_copy b i (xs @ json_escape_upto n src) \<bind> (\<lambda>d. g (length (json_escape_upto n src), d))"
proof -
  have "buf_copy b i xs \<bind> (\<lambda>d. jp_json_value_encoder src d j n \<bind> g) =
      buf_copy b i xs \<bind> (\<lambda>d. buf_copy d j (json_escape_upto n src) \<bind>
        (\<lambda>d. g (length (json_escape_upto n src), d)))"
    by (rule bind_copy_cong) (simp add: jp_json_value_encoder_copy assms)
  with assms show ?thesis by (simp add: buf_copy_copy)
qed

lemma prefix_field_copy:
  assumes "field_ok f"
  shows "prefix_field f m p =
     buf_copy m p (field_text f) \<bind> (\<lambda>m. Some (m, p + length (field_text f)))"
proof -
  have k: "key_len f = length (field_key f)" and v: "val_len f = length (field_val f)"
    using assms by simp_all
  show ?thesis
    by (cases "is_json_string_literal (field_val f)")
      (simp_all add: prefix_field_def Let_def buf_set_copy buf_copy_copy copy_then_encode
        json_escape_upto_all k v field_text_def add.assoc)
qed

lemma prefix_loop_copy:
  assumes "list_all field_ok fs" "p \<le> length m"
  shows "prefix_loop fs m p =
     buf_copy m p (concat (map field_text fs)) \<bind>
       (\<lambda>m. Some (m, p + length (concat (map field_text fs))))"
  using assms
proof (induction fs arbitrary: m p)
  case Nil
  then show ?case by (simp add: buf_copy_Nil)
next
  case (Cons f fs)
  let ?out = "concat (map field_text fs)"
  have "prefix_loop (f # fs) m p =
      buf_copy m p (field_text f) \<bind> (\<lambda>d. buf_copy d (p + length (field_text f)) ?out \<bind>
        (\<lambda>m. Some (m, p + length (field_text f) + length ?out)))"
    using Cons.prems by (auto simp: prefix_field_copy Cons.IH intro!: bind_copy_cong)
  then show ?case by (simp add: buf_copy_copy ac_simps)
qed

definition json_prefix :: "jp_field list \<Rightarrow> byte list" where
  "json_prefix fs = [123] @ concat (map field_text fs) @ bytes ''\"msg\":''"

lemma copy_then_prefix_loop:
  assumes "j = i + length xs" "list_all field_ok fs"
  shows "buf_copy b i xs \<bind> (\<lambda>m. prefix_loop fs m j \<bind> g) =
     buf_copy b i (xs @ concat (map field_text fs)) \<bind>
       (\<lambda>m. g (m, j + length (concat (map field_text fs))))"
proof -
  have "buf_copy b i xs \<bind> (\<lambda>m. prefix_loop fs m j \<bind> g) =
      buf_copy b i xs \<bind> (\<lambda>m. buf_copy m j (concat (map field_text fs)) \<bind>
        (\<lambda>m. g (m, j + length (concat (map field_text fs)))))"
    by (rule bind_copy_cong) (simp add: prefix_loop_copy assms)
  with assms show ?thesis by (simp add: buf_copy_copy)
qed

lemma jp_json_prefix_encoder_copy:
  assumes "list_all field_ok (set_fields s)"
  shows "jp_json_prefix_encoder junk s =
     buf_copy (malloc_bytes junk (unat (prefix_size (set_fields s)))) 0 (json_prefix (set_fields s) @ [0]) \<bind>
       (\<lambda>m. Some (m, length (json_prefix (set_fields s))))"
  by (simp add: jp_json_prefix_encoder_def Let_def buf_set_copy new_object_copy copy_then_prefix_loop assms
      buf_copy_copy json_prefix_def bytes_def add.assoc eval_nat_numeral)

lemma prefix_size_of_nat:
  "prefix_size fs = of_nat (64 + (\<Sum>f\<leftarrow>fs. key_len f + val_len f * 6 + 6))"
proof -
  have "foldl (\<lambda>n f. n + (of_nat (key_len f) + of_nat (val_len f) * of_nat JP_JSON_ESCAPE_MUL + 6)) (of_nat a) fs =
      (of_nat (a + (\<Sum>f\<leftarrow>fs. key_len f + val_len f * 6 + 6)) :: size_t)" for a
  proof (induction fs arbitrary: a)
    case Nil
    then show ?case by simp
  next
    case (Cons f fs)
    from Cons [of "a + (key_len f + val_len f * 6 + 6)"] show ?case
      by (simp add: JP_JSON_ESCAPE_MUL_def algebra_simps)
  qed
  from this [of 64] show ?thesis by (simp add: prefix_size_def)
qed

lemma unat_prefix_size:
  assumes "list_all field_ok fs" "length fs \<le> 32"
  shows "unat (prefix_size fs) = 64 + (\<Sum>f\<leftarrow>fs. key_len f + val_len f * 6 + 6)"
proof -
  have "(\<Sum>f\<leftarrow>fs. key_len f + val_len f * 6 + 6) \<le> length fs * 3110"
    using assms(1) by (induction fs) (auto simp: field_ok_def jp_conf_defs)
  with assms(2) have "64 + (\<Sum>f\<leftarrow>fs. key_len f + val_len f * 6 + 6) < 2 ^ 64" by simp
  then show ?thesis unfolding prefix_size_of_nat unat_of_nat by simp
qed

lemma length_json_prefix:
  assumes "list_all field_ok fs"
  shows "length (json_prefix fs) \<le> 7 + (\<Sum>f\<leftarrow>fs. key_len f + val_len f * 6 + 6)"
proof -
  have "length (field_text f) \<le> key_len f + val_len f * 6 + 6" if "field_ok f" for f
    using length_json_escape_all [of "field_val f"] that by (simp add: field_text_def)
  with assms have "length (concat (map field_text fs)) \<le> (\<Sum>f\<leftarrow>fs. key_len f + val_len f * 6 + 6)"
    by (induction fs) (auto intro!: add_mono)
  then show ?thesis by (simp add: json_prefix_def bytes_def)
qed

lemma prefix_encoder_spec:
  assumes "list_all field_ok (set_fields s)" "set_len s \<le> 32"
  shows "\<exists>m. jp_json_prefix_encoder junk s = Some (m, length (json_prefix (set_fields s))) \<and>
             take (length (json_prefix (set_fields s)) + 1) m = json_prefix (set_fields s) @ [0] \<and>
             length m = unat (prefix_size (set_fields s))"
  using assms length_json_prefix [OF assms(1)] unat_prefix_size [OF assms]
  by (auto simp: jp_json_prefix_encoder_copy buf_copy_def)

section \<open>The contract of an encoder\<close>

text \<open>
  What the writer relies on, for every encoder it may be given: the prefix and the postfix are
  texts of the fields, the escape of a value is at most \<open>escaping_mul\<close> times as long as the value,
  and a destination of that size is enough for all of it.
\<close>

locale record_encoder =
  fixes enc :: jp_encoder
    and pre post :: "jp_field_set \<Rightarrow> byte list"
    and esc :: "byte list \<Rightarrow> byte list"
    and fields_ok :: "jp_field_set \<Rightarrow> bool"
  assumes prefix_writes: "fields_ok s \<Longrightarrow>
      \<exists>m. prefix_encoder enc junk s = Some (m, length (pre s)) \<and> take (length (pre s)) m = pre s"
    and postfix_writes: "\<exists>m. postfix_encoder enc s = (m, length (post s)) \<and> take (length (post s)) m = post s"
    and value_writes: "escaping_mul enc * length src \<le> length dst \<Longrightarrow>
      value_encoder enc src dst 0 (length dst) = Some (length (esc src), esc src @ drop (length (esc src)) dst)"
    and esc_fits: "length (esc src) \<le> escaping_mul enc * length src"
    and mul_pos: "0 < escaping_mul enc"
begin

definition record_text :: "jp_field_set \<Rightarrow> byte list \<Rightarrow> byte list" where
  "record_text s msg = pre s @ esc msg @ post s"

lemma value_keeps_size:
  "escaping_mul enc * length src \<le> length dst \<Longrightarrow>
   \<exists>v. value_encoder enc src dst 0 (length dst) = Some (length (esc src), v) \<and>
       length v = length dst \<and> take (length (esc src)) v = esc src"
  using value_writes [of src dst] esc_fits [of src] by auto

end

definition json_fields_ok :: "jp_field_set \<Rightarrow> bool" where
  "json_fields_ok s \<longleftrightarrow> set_ok s \<and> set_cap s \<le> JP_CONF_FIELDS_MAX"

definition json_postfix :: "byte list" where
  "json_postfix = bytes ''\"}'' @ [10]"

interpretation json: record_encoder jp_encoder_json "\<lambda>s. json_prefix (set_fields s)" "\<lambda>_. json_postfix"
  json_escape_all json_fields_ok
proof
  show "\<exists>m. prefix_encoder jp_encoder_json junk s = Some (m, length (json_prefix (set_fields s))) \<and>
      take (length (json_prefix (set_fields s))) m = json_prefix (set_fields s)"
    if "json_fields_ok s" for s junk
    using prefix_encoder_spec [of s junk] that
    by (auto simp: json_fields_ok_def set_ok_def jp_conf_defs jp_encoder_json_def dest: take_of_take_Suc)
  show "\<exists>m. postfix_encoder jp_encoder_json s = (m, length json_postfix) \<and>
      take (length json_postfix) m = json_postfix" for s
    by (simp add: jp_encoder_json_def jp_json_postfix_encoder_def json_postfix_def bytes_def)
  show "value_encoder jp_encoder_json src dst 0 (length dst) =
      Some (length (json_escape_all src), json_escape_all src @ drop (length (json_escape_all src)) dst)"
    if "escaping_mul jp_encoder_json * length src \<le> length dst" for src dst
    using that length_json_escape_all [of src]
    by (simp add: jp_encoder_json_def JP_JSON_ESCAPE_MUL_def jp_json_value_encoder_copy
        json_escape_upto_all buf_copy_def)
  show "length (json_escape_all src) \<le> escaping_mul jp_encoder_json * length src" for src
    using length_json_escape_all [of src] by (simp add: jp_encoder_json_def JP_JSON_ESCAPE_MUL_def)
  show "0 < escaping_mul jp_encoder_json" by (simp add: jp_encoder_json_def JP_JSON_ESCAPE_MUL_def)
qed

end
