(* ===== verification/JP_Json_Text.thy ===== *)
theory JP_Json_Text
  imports JP_Json
begin

text \<open>
  The texts of \<^verbatim>\<open>src/json.c\<close> read as JSON. The grammar of RFC 8259 numbers and the equivalence of
  the number automaton with it; a decoder of JSON string bodies and the round trip of the escaping
  through it; a reader of the members of an object and the round trip of the prefix through it; a
  scanner of the quotes of a text, which shows what the records lack.
\<close>

section \<open>The grammar of numbers\<close>

definition digits :: "byte list \<Rightarrow> bool" where
  "digits ds \<longleftrightarrow> list_all is_digit ds"

definition rfc_int :: "byte list \<Rightarrow> bool" where
  "rfc_int s \<longleftrightarrow> s = [48] \<or> (\<exists>d ds. s = d # ds \<and> is_digit d \<and> d \<noteq> 48 \<and> digits ds)"

definition rfc_frac :: "byte list \<Rightarrow> bool" where
  "rfc_frac s \<longleftrightarrow> (\<exists>ds. s = 46 # ds \<and> ds \<noteq> [] \<and> digits ds)"

definition rfc_exp :: "byte list \<Rightarrow> bool" where
  "rfc_exp s \<longleftrightarrow> (\<exists>e sign ds. s = e # sign @ ds \<and> (e = 101 \<or> e = 69) \<and>
                   (sign = [] \<or> sign = [43] \<or> sign = [45]) \<and> ds \<noteq> [] \<and> digits ds)"

definition rfc_number :: "byte list \<Rightarrow> bool" where
  "rfc_number s \<longleftrightarrow> (\<exists>m i f e. s = m @ i @ f @ e \<and> (m = [] \<or> m = [45]) \<and> rfc_int i \<and>
                     (f = [] \<or> rfc_frac f) \<and> (e = [] \<or> rfc_exp e))"

lemma digits_simps [simp]: "digits []" "digits (d # ds) \<longleftrightarrow> is_digit d \<and> digits ds"
  by (auto simp: digits_def)

text \<open>The suffixes of the grammar, by their first byte.\<close>

definition digits_then :: "(byte list \<Rightarrow> bool) \<Rightarrow> byte list \<Rightarrow> bool" where
  "digits_then P s \<longleftrightarrow> (\<exists>ds e. s = ds @ e \<and> digits ds \<and> P e)"

definition opt_exp :: "byte list \<Rightarrow> bool" where
  "opt_exp s \<longleftrightarrow> s = [] \<or> rfc_exp s"

definition opt_frac_exp :: "byte list \<Rightarrow> bool" where
  "opt_frac_exp s \<longleftrightarrow> (\<exists>f e. s = f @ e \<and> (f = [] \<or> rfc_frac f) \<and> opt_exp e)"

definition exp_tail :: "byte list \<Rightarrow> bool" where
  "exp_tail s \<longleftrightarrow> (\<exists>sign ds. s = sign @ ds \<and> (sign = [] \<or> sign = [43] \<or> sign = [45]) \<and> ds \<noteq> [] \<and> digits ds)"

lemma digits_then_Nil [simp]: "digits_then P [] \<longleftrightarrow> P []"
  by (simp add: digits_then_def)

lemma digits_then_Cons [simp]:
  "digits_then P (c # s) \<longleftrightarrow> P (c # s) \<or> is_digit c \<and> digits_then P s"
proof
  assume "digits_then P (c # s)"
  then obtain ds e where d: "c # s = ds @ e" "digits ds" "P e" by (auto simp: digits_then_def)
  show "P (c # s) \<or> is_digit c \<and> digits_then P s"
  proof (cases ds)
    case Nil
    with d show ?thesis by simp
  next
    case (Cons x xs)
    with d have "c = x" "s = xs @ e" "is_digit c" "digits xs" by simp_all
    with d(3) show ?thesis unfolding digits_then_def by blast
  qed
next
  assume r: "P (c # s) \<or> is_digit c \<and> digits_then P s"
  show "digits_then P (c # s)"
  proof (cases "P (c # s)")
    case True
    then show ?thesis unfolding digits_then_def by (intro exI [of _ "[]"] exI [of _ "c # s"]) simp
  next
    case False
    with r obtain ds e where "s = ds @ e" "digits ds" "P e" "is_digit c"
      by (auto simp: digits_then_def)
    then show ?thesis unfolding digits_then_def by (intro exI [of _ "c # ds"] exI [of _ e]) simp
  qed
qed

lemma exp_tail_iff:
  "exp_tail s \<longleftrightarrow> s \<noteq> [] \<and> digits s \<or> (\<exists>c t. s = c # t \<and> (c = 43 \<or> c = 45) \<and> t \<noteq> [] \<and> digits t)"
proof
  assume "exp_tail s"
  then obtain sign ds where s: "s = sign @ ds" and sign: "sign = [] \<or> sign = [43] \<or> sign = [45]"
    and ds: "ds \<noteq> []" "digits ds"
    unfolding exp_tail_def by blast
  from sign show "s \<noteq> [] \<and> digits s \<or> (\<exists>c t. s = c # t \<and> (c = 43 \<or> c = 45) \<and> t \<noteq> [] \<and> digits t)"
    using s ds by (elim disjE) simp_all
next
  assume "s \<noteq> [] \<and> digits s \<or> (\<exists>c t. s = c # t \<and> (c = 43 \<or> c = 45) \<and> t \<noteq> [] \<and> digits t)"
  then show "exp_tail s"
  proof
    assume "s \<noteq> [] \<and> digits s"
    then show ?thesis unfolding exp_tail_def by (intro exI [of _ "[]"] exI [of _ s]) simp
  next
    assume "\<exists>c t. s = c # t \<and> (c = 43 \<or> c = 45) \<and> t \<noteq> [] \<and> digits t"
    then obtain c t where "s = c # t" "c = 43 \<or> c = 45" "t \<noteq> []" "digits t" by blast
    then show ?thesis unfolding exp_tail_def by (intro exI [of _ "[c]"] exI [of _ t]) simp
  qed
qed

lemma exp_tail_simps [simp]:
  "\<not> exp_tail []"
  "exp_tail (c # s) \<longleftrightarrow> is_digit c \<and> digits s \<or> (c = 43 \<or> c = 45) \<and> s \<noteq> [] \<and> digits s"
  by (simp_all add: exp_tail_iff)

lemma opt_exp_simps [simp]:
  "opt_exp []"
  "opt_exp (c # s) \<longleftrightarrow> (c = 101 \<or> c = 69) \<and> exp_tail s"
  by (auto simp: opt_exp_def rfc_exp_def exp_tail_def)

lemma digits_then_ne:
  "(\<exists>ds e. s = ds @ e \<and> ds \<noteq> [] \<and> digits ds \<and> P e) \<longleftrightarrow>
   s \<noteq> [] \<and> is_digit (hd s) \<and> digits_then P (tl s)"
proof
  assume "\<exists>ds e. s = ds @ e \<and> ds \<noteq> [] \<and> digits ds \<and> P e"
  then obtain d ds e where "s = (d # ds) @ e" "digits (d # ds)" "P e" by (metis list.exhaust)
  then show "s \<noteq> [] \<and> is_digit (hd s) \<and> digits_then P (tl s)"
    by (auto simp: digits_then_def)
next
  assume r: "s \<noteq> [] \<and> is_digit (hd s) \<and> digits_then P (tl s)"
  then obtain ds e where "tl s = ds @ e" "digits ds" "P e" by (auto simp: digits_then_def)
  with r have "s = (hd s # ds) @ e" "digits (hd s # ds)" by (cases s, simp_all)+
  with \<open>P e\<close> show "\<exists>ds e. s = ds @ e \<and> ds \<noteq> [] \<and> digits ds \<and> P e" by blast
qed

lemma opt_frac_exp_iff:
  "opt_frac_exp s \<longleftrightarrow>
     opt_exp s \<or> (\<exists>t. s = 46 # t \<and> (\<exists>ds e. t = ds @ e \<and> ds \<noteq> [] \<and> digits ds \<and> opt_exp e))"
proof -
  have "opt_frac_exp s \<longleftrightarrow> (\<exists>e. s = [] @ e \<and> opt_exp e) \<or>
      (\<exists>ds e. s = (46 # ds) @ e \<and> ds \<noteq> [] \<and> digits ds \<and> opt_exp e)"
    unfolding opt_frac_exp_def rfc_frac_def by blast
  then show ?thesis by (simp only: append_Nil append_Cons) blast
qed

lemma opt_frac_exp_simps [simp]:
  "opt_frac_exp []"
  "opt_frac_exp (c # s) \<longleftrightarrow> opt_exp (c # s) \<or> c = 46 \<and> s \<noteq> [] \<and> is_digit (hd s) \<and> digits_then opt_exp (tl s)"
  unfolding opt_frac_exp_iff digits_then_ne by simp_all

lemma accepts_exp_digit: "json_number_accepts JSON_NUM_STATE_EXP_DIGIT s \<longleftrightarrow> digits s"
  by (induction s) auto

lemma accepts_exp_sign: "json_number_accepts JSON_NUM_STATE_EXP_SIGN s \<longleftrightarrow> s \<noteq> [] \<and> digits s"
  by (cases s) (auto simp: accepts_exp_digit)

lemma accepts_exp: "json_number_accepts JSON_NUM_STATE_EXP s \<longleftrightarrow> exp_tail s"
  by (cases s) (auto simp: accepts_exp_digit accepts_exp_sign)

lemma accepts_fraction: "json_number_accepts JSON_NUM_STATE_FRACTION s \<longleftrightarrow> digits_then opt_exp s"
  by (induction s) (auto simp: accepts_exp)

lemma accepts_dot:
  "json_number_accepts JSON_NUM_STATE_DOT s \<longleftrightarrow> s \<noteq> [] \<and> is_digit (hd s) \<and> digits_then opt_exp (tl s)"
  by (cases s) (auto simp: accepts_fraction)

lemma accepts_zero: "json_number_accepts JSON_NUM_STATE_ZERO s \<longleftrightarrow> opt_frac_exp s"
  by (cases s) (auto simp: accepts_dot accepts_exp)

lemma accepts_digit: "json_number_accepts JSON_NUM_STATE_DIGIT s \<longleftrightarrow> digits_then opt_frac_exp s"
  by (induction s) (auto simp: accepts_dot accepts_exp)

definition rfc_unsigned :: "byte list \<Rightarrow> bool" where
  "rfc_unsigned s \<longleftrightarrow> (\<exists>i t. s = i @ t \<and> rfc_int i \<and> opt_frac_exp t)"

lemma rfc_unsigned_simps [simp]:
  "\<not> rfc_unsigned []"
  "rfc_unsigned (c # s) \<longleftrightarrow> c = 48 \<and> opt_frac_exp s \<or> c \<noteq> 48 \<and> is_digit c \<and> digits_then opt_frac_exp s"
proof -
  show "\<not> rfc_unsigned []" by (auto simp: rfc_unsigned_def rfc_int_def)
  have "rfc_unsigned (c # s) \<longleftrightarrow>
      (\<exists>t. c # s = [48] @ t \<and> opt_frac_exp t) \<or>
      (\<exists>d ds t. c # s = (d # ds) @ t \<and> is_digit d \<and> d \<noteq> 48 \<and> digits ds \<and> opt_frac_exp t)"
    unfolding rfc_unsigned_def rfc_int_def by blast
  then show "rfc_unsigned (c # s) \<longleftrightarrow>
      c = 48 \<and> opt_frac_exp s \<or> c \<noteq> 48 \<and> is_digit c \<and> digits_then opt_frac_exp s"
    by (auto simp: digits_then_def)
qed

lemma rfc_number_unsigned:
  "rfc_number s \<longleftrightarrow> rfc_unsigned s \<or> (\<exists>t. s = 45 # t \<and> rfc_unsigned t)"
proof -
  have "rfc_number s \<longleftrightarrow> (\<exists>u. s = [] @ u \<and> rfc_unsigned u) \<or> (\<exists>u. s = [45] @ u \<and> rfc_unsigned u)"
    unfolding rfc_number_def rfc_unsigned_def opt_frac_exp_def opt_exp_def by blast
  then show ?thesis by simp
qed

lemma accepts_minus: "json_number_accepts JSON_NUM_STATE_MINUS s \<longleftrightarrow> rfc_unsigned s"
  by (cases s) (auto simp: accepts_zero accepts_digit)

lemma accepts_rfc_number: "is_json_numeric_literal s \<longleftrightarrow> rfc_number s"
  unfolding is_json_numeric_literal_def rfc_number_unsigned
  by (cases s) (auto simp: accepts_zero accepts_digit accepts_minus)

section \<open>Decoding string bodies\<close>

fun json_hex_digit :: "byte \<Rightarrow> nat option" where
  "json_hex_digit c =
     (if 48 \<le> c \<and> c \<le> 57 then Some (unat c - 48)
      else if 97 \<le> c \<and> c \<le> 102 then Some (unat c - 87)
      else if 65 \<le> c \<and> c \<le> 70 then Some (unat c - 55)
      else None)"

definition json_hex4 :: "byte \<Rightarrow> byte \<Rightarrow> byte \<Rightarrow> byte \<Rightarrow> nat option" where
  "json_hex4 a b c d =
     do { a \<leftarrow> json_hex_digit a; b \<leftarrow> json_hex_digit b; c \<leftarrow> json_hex_digit c; d \<leftarrow> json_hex_digit d;
          Some (((a * 16 + b) * 16 + c) * 16 + d) }"

definition utf8 :: "nat \<Rightarrow> byte list option" where
  "utf8 n =
     (if n < 128 then Some [of_nat n]
      else if n < 2048 then Some [of_nat (192 + n div 64), of_nat (128 + n mod 64)]
      else if 55296 \<le> n \<and> n < 57344 then None
      else if n < 65536
      then Some [of_nat (224 + n div 4096), of_nat (128 + n div 64 mod 64), of_nat (128 + n mod 64)]
      else None)"

definition json_short_escape :: "byte \<Rightarrow> byte option" where
  "json_short_escape c =
     map_of [(34, 34), (92, 92), (47, 47), (98, 8), (102, 12), (110, 10), (114, 13), (116, 9)] c"

fun json_string_body :: "byte list \<Rightarrow> (byte list \<times> byte list) option" where
  "json_string_body [] = None"
| "json_string_body (c # cs) =
     (if c = 34 then Some ([], cs)
      else if c < 32 then None
      else if c = 92 then
        (case cs of
           [] \<Rightarrow> None
         | e # es \<Rightarrow>
             if e = 117 then
               (case es of
                  a # b # x # y # rest \<Rightarrow>
                    do { n \<leftarrow> json_hex4 a b x y; u \<leftarrow> utf8 n; (s, r) \<leftarrow> json_string_body rest; Some (u @ s, r) }
                | _ \<Rightarrow> None)
             else do { d \<leftarrow> json_short_escape e; (s, r) \<leftarrow> json_string_body es; Some (d # s, r) })
      else do { (s, r) \<leftarrow> json_string_body cs; Some (c # s, r) })"

lemma hex4_of_control:
  assumes "ch < 32 \<or> ch = 127"
  shows "json_hex4 48 48 (hex_chars ! unat (drop_bit 4 ch)) (hex_chars ! unat (ch AND 15)) = Some (unat (ch :: byte))"
proof -
  have all: "list_all (\<lambda>n. json_hex4 48 48 (hex_chars ! unat (drop_bit 4 (of_nat n :: byte)))
      (hex_chars ! unat (of_nat n AND 15 :: byte)) = Some n) (127 # [0..<32])"
    by code_simp
  have "unat ch \<in> set (127 # [0..<32])"
    using assms by (auto simp: word_less_nat_alt)
  with all have "json_hex4 48 48 (hex_chars ! unat (drop_bit 4 (of_nat (unat ch) :: byte)))
      (hex_chars ! unat (of_nat (unat ch) AND 15 :: byte)) = Some (unat ch)"
    unfolding list_all_iff by blast
  then show ?thesis by simp
qed

lemma json_string_body_escape:
  "json_string_body (json_escape ch @ rest) =
     json_string_body rest \<bind> (\<lambda>(s, r). Some (ch # s, r))"
proof -
  consider (short) "ch = 8 \<or> ch = 9 \<or> ch = 10 \<or> ch = 12 \<or> ch = 13 \<or> ch = 34 \<or> ch = 92"
    | (control) "ch < 32 \<or> ch = 127" "\<not> (ch = 8 \<or> ch = 9 \<or> ch = 10 \<or> ch = 12 \<or> ch = 13 \<or> ch = 34 \<or> ch = 92)"
    | (plain) "\<not> (ch < 32 \<or> ch = 127)" "\<not> (ch = 8 \<or> ch = 9 \<or> ch = 10 \<or> ch = 12 \<or> ch = 13 \<or> ch = 34 \<or> ch = 92)"
    by blast
  then show ?thesis
  proof cases
    case short
    then show ?thesis
      by (auto simp: json_escape_def json_short_lookup_def json_short_escape_def)
  next
    case control
    then have "unat ch < 128" by (auto simp: word_less_nat_alt)
    then have "utf8 (unat ch) = Some [ch]" by (simp add: utf8_def)
    with control show ?thesis
      by (simp add: json_escape_def hex4_of_control)
  next
    case plain
    then show ?thesis by (simp add: json_escape_def)
  qed
qed

lemma json_string_body_all:
  "json_string_body (json_escape_all src @ 34 # rest) = Some (src, rest)"
  by (induction src) (simp_all add: json_escape_all_def json_string_body_escape)
section \<open>Bare literals\<close>

text \<open>The bytes of a number or of \<open>true\<close>, \<open>false\<close>, \<open>null\<close>: none of them is escaped or a delimiter.\<close>

definition plain_byte :: "byte \<Rightarrow> bool" where
  "plain_byte c \<longleftrightarrow> c > 32 \<and> c < 127 \<and> c \<noteq> 34 \<and> c \<noteq> 92 \<and> c \<noteq> 44"

lemma json_number_step_plain: "json_number_step st c = Some st' \<Longrightarrow> plain_byte c"
proof (induction st c rule: json_number_step.induct)
qed (auto simp: plain_byte_def word_less_nat_alt word_le_nat_alt split: if_splits)

lemma json_number_accepts_plain: "json_number_accepts st s \<Longrightarrow> list_all plain_byte s"
  by (induction s arbitrary: st) (auto dest: json_number_step_plain split: option.splits)

lemma string_literal_cases:
  "is_json_string_literal s \<longleftrightarrow>
     \<not> (s = bytes ''true'' \<or> s = bytes ''false'' \<or> s = bytes ''null'' \<or> is_json_numeric_literal s)"
proof (cases s)
  case Nil
  then show ?thesis by (simp add: is_json_string_literal_def is_json_numeric_literal_def bytes_def)
next
  case (Cons c cs)
  have "c = 45 \<or> is_digit c" if "is_json_numeric_literal (c # cs)"
    using that by (auto simp: is_json_numeric_literal_def split: if_splits)
  with Cons show ?thesis
    by (auto simp: is_json_string_literal_def bytes_def)
qed

lemma bare_plain: "\<not> is_json_string_literal s \<Longrightarrow> list_all plain_byte s \<and> s \<noteq> []"
  by (auto simp: string_literal_cases is_json_numeric_literal_def bytes_def plain_byte_def
      dest: json_number_accepts_plain)

lemma json_escape_plain: "plain_byte c \<Longrightarrow> json_escape c = [c]"
  by (auto simp: plain_byte_def json_escape_def)

lemma json_escape_all_plain: "list_all plain_byte s \<Longrightarrow> json_escape_all s = s"
  by (induction s) (simp_all add: json_escape_all_def json_escape_plain)

section \<open>Reading the members of an object\<close>

text \<open>
  A member is a string key, a colon and a value, which is a string or a bare literal up to the
  comma. The reader stops before the member whose key is given.
\<close>

datatype json_value = JString "byte list" | JBare "byte list"

definition json_member :: "byte list \<Rightarrow> ((byte list \<times> json_value) \<times> byte list) option" where
  "json_member s =
     (case s of
        q # s1 \<Rightarrow>
          if q \<noteq> 34 then None
          else do {
            (k, s2) \<leftarrow> json_string_body s1;
            (case s2 of
               col # v # s3 \<Rightarrow>
                 if col \<noteq> 58 then None
                 else if v = 34 then do {
                   (x, s4) \<leftarrow> json_string_body s3;
                   (case s4 of c # s5 \<Rightarrow> if c = 44 then Some ((k, JString x), s5) else None | [] \<Rightarrow> None)
                 }
                 else (case dropWhile (\<lambda>c. c \<noteq> 44) (v # s3) of
                         c # s5 \<Rightarrow> Some ((k, JBare (takeWhile (\<lambda>c. c \<noteq> 44) (v # s3))), s5)
                       | [] \<Rightarrow> None)
             | _ \<Rightarrow> None)
          }
      | [] \<Rightarrow> None)"

fun json_members :: "nat \<Rightarrow> byte list \<Rightarrow> ((byte list \<times> json_value) list \<times> byte list) option" where
  "json_members 0 s = Some ([], s)"
| "json_members (Suc n) s =
     do { (m, s') \<leftarrow> json_member s; (ms, r) \<leftarrow> json_members n s'; Some (m # ms, r) }"

definition field_value :: "jp_field \<Rightarrow> json_value" where
  "field_value f = (if is_json_string_literal (field_val f) then JString (field_val f) else JBare (field_val f))"

lemma valid_key_plain: "is_valid_field_key k \<Longrightarrow> list_all plain_byte k"
  by (induction k) (auto simp: plain_byte_def word_less_nat_alt word_le_nat_alt split: if_splits)

lemma json_string_body_key:
  "is_valid_field_key k \<Longrightarrow> json_string_body (k @ 34 # rest) = Some (k, rest)"
  using json_string_body_all [of k rest] by (simp add: json_escape_all_plain valid_key_plain)

lemma plain_until_comma:
  "list_all plain_byte v \<Longrightarrow>
   takeWhile (\<lambda>c. c \<noteq> 44) (v @ 44 # r) = v \<and> dropWhile (\<lambda>c. c \<noteq> 44) (v @ 44 # r) = 44 # r"
  by (induction v) (auto simp: plain_byte_def)

lemma json_member_field_text:
  assumes "field_ok f"
  shows "json_member (field_text f @ rest) = Some ((field_key f, field_value f), rest)"
proof -
  have k: "is_valid_field_key (field_key f)" using assms by (simp add: field_ok_def)
  show ?thesis
  proof (cases "is_json_string_literal (field_val f)")
    case True
    then show ?thesis
      by (simp add: json_member_def field_text_def json_string_body_key [OF k] field_value_def
          json_string_body_all)
  next
    case False
    note bare = bare_plain [OF this]
    then obtain v vs where v: "field_val f = v # vs" "v \<noteq> 34"
      by (cases "field_val f") (auto simp: plain_byte_def)
    show ?thesis
      using False bare v plain_until_comma [of "field_val f" rest]
      by (simp add: json_member_def field_text_def json_string_body_key [OF k] field_value_def
          json_escape_all_plain)
  qed
qed

lemma json_members_field_text:
  "list_all field_ok fs \<Longrightarrow>
   json_members (length fs) (concat (map field_text fs) @ rest) =
     Some (map (\<lambda>f. (field_key f, field_value f)) fs, rest)"
  by (induction fs) (simp_all add: json_member_field_text)

section \<open>The quotes of a text\<close>

text \<open>
  A necessary condition on every JSON text: outside its strings there is no backslash, and it does
  not end inside a string.
\<close>

datatype json_quote = Outside | Inside | Escaped | Malformed

fun json_quote_step :: "json_quote \<Rightarrow> byte \<Rightarrow> json_quote" where
  "json_quote_step Outside c = (if c = 34 then Inside else if c = 92 then Malformed else Outside)"
| "json_quote_step Inside c = (if c = 34 then Outside else if c = 92 then Escaped else Inside)"
| "json_quote_step Escaped c = Inside"
| "json_quote_step Malformed c = Malformed"

definition json_quotes :: "json_quote \<Rightarrow> byte list \<Rightarrow> json_quote" where
  "json_quotes q s = foldl json_quote_step q s"

lemma json_quotes_simps [simp]:
  "json_quotes q [] = q"
  "json_quotes q (c # s) = json_quotes (json_quote_step q c) s"
  "json_quotes q (s @ t) = json_quotes (json_quotes q s) t"
  by (simp_all add: json_quotes_def)

lemma json_quotes_Malformed [simp]: "json_quotes Malformed s = Malformed"
  by (induction s) simp_all

lemma json_quotes_plain [simp]:
  "list_all plain_byte s \<Longrightarrow> q = Outside \<or> q = Inside \<Longrightarrow> json_quotes q s = q"
  by (induction s) (auto simp: plain_byte_def)

lemma hex_chars_plain: "n < 16 \<Longrightarrow> hex_chars ! n \<noteq> 34 \<and> hex_chars ! n \<noteq> 92"
proof -
  have "list_all (\<lambda>c. c \<noteq> 34 \<and> c \<noteq> 92) hex_chars" by (simp add: hex_chars_def)
  moreover assume "n < 16"
  then have "n < length hex_chars" by (simp add: hex_chars_def)
  ultimately show ?thesis by (simp add: list_all_length)
qed

lemma nibbles: "unat (drop_bit 4 (c :: byte)) < 16" "unat (c AND 15 :: byte) < 16"
proof -
  have "unat c < 256" using unsigned_less [of c] by simp
  then show "unat (drop_bit 4 c) < 16" by (simp add: drop_bit_eq_div unat_div_distrib)
  have "c AND 15 \<le> 15" by (rule word_and_le1)
  then show "unat (c AND 15) < 16" by (simp add: word_le_nat_alt)
qed

lemma json_quotes_escape:
  "json_quotes Inside (json_escape c) = Inside"
  "json_quotes Outside (json_escape c) = Outside \<or> json_quotes Outside (json_escape c) = Malformed"
  using hex_chars_plain [OF nibbles(1), of c] hex_chars_plain [OF nibbles(2), of c]
  by (auto simp: json_escape_def)

lemma json_quotes_inside_escape_all [simp]: "json_quotes Inside (json_escape_all s) = Inside"
  by (induction s) (simp_all add: json_escape_all_def json_quotes_escape)

lemma json_quotes_outside_escape_all:
  "json_quotes Outside (json_escape_all s) \<in> {Outside, Malformed}"
proof (induction s)
  case Nil
  then show ?case by (simp add: json_escape_all_def)
next
  case (Cons c s)
  then show ?case using json_quotes_escape(2) [of c] by (auto simp: json_escape_all_def)
qed

lemma json_quotes_field_text [simp]:
  assumes "field_ok f"
  shows "json_quotes Outside (field_text f) = Outside"
proof -
  have k: "list_all plain_byte (field_key f)" using assms valid_key_plain by (simp add: field_ok_def)
  show ?thesis
    using bare_plain [of "field_val f"]
    by (simp add: field_text_def k json_escape_all_plain)
qed

lemma json_quotes_prefix:
  "list_all field_ok fs \<Longrightarrow> json_quotes Outside (json_prefix fs) = Outside"
proof -
  assume "list_all field_ok fs"
  then have "json_quotes Outside (concat (map field_text fs)) = Outside"
    by (induction fs) simp_all
  then show ?thesis by (simp add: json_prefix_def bytes_def)
qed

section \<open>Properties\<close>

text \<open>
  C20: The automaton \<open>is_json_numeric_literal\<close> accepts exactly the numbers of the RFC 8259 grammar:
  an optional minus sign, an integer part without a superfluous leading zero, an optional fraction
  of at least one digit, and an optional exponent with an optional sign and at least one digit.
\<close>

theorem numeric_literal_is_rfc_number: "is_json_numeric_literal s \<longleftrightarrow> rfc_number s"
  by (rule accepts_rfc_number)

text \<open>
  A field value is written without quotes exactly when it is \<open>true\<close>, \<open>false\<close>, \<open>null\<close> or an
  RFC 8259 number, and such a value passes through the escaping unchanged, so what is written bare
  is that literal itself.
\<close>

theorem bare_values_are_json_literals:
  "(is_json_string_literal s \<longleftrightarrow>
     \<not> (s = bytes ''true'' \<or> s = bytes ''false'' \<or> s = bytes ''null'' \<or> rfc_number s)) \<and>
   (is_json_string_literal s \<or> json_escape_all s = s)"
  using string_literal_cases [of s] bare_plain [of s]
  by (auto simp: accepts_rfc_number json_escape_all_plain)

text \<open>
  C5: The value encoder, given a destination of \<open>dst_len\<close> bytes inside an object, stores only
  inside that destination and leaves the rest of the object alone. What it stores is the escapes
  of the longest run of leading bytes that fits, so a multi-byte escape is never cut, and the
  number it returns is the length of what it stored. Closed by a quote, the stored text is a JSON
  string body that decodes to those leading bytes, and to the whole value when the destination has
  six bytes for each of the value's.
\<close>

theorem value_encoder_correct:
  assumes "base + dst_len \<le> length dst"
  shows "\<exists>n out. jp_json_value_encoder src dst base dst_len =
             Some (length out, take base dst @ out @ drop (base + length out) dst) \<and>
           length out \<le> dst_len \<and>
           json_string_body (out @ 34 # rest) = Some (take n src, rest) \<and>
           (n < length src \<longrightarrow> dst_len < length out + length (json_escape (src ! n))) \<and>
           (JP_JSON_ESCAPE_MUL * length src \<le> dst_len \<longrightarrow> n = length src)"
proof -
  obtain n where n: "n \<le> length src" "json_escape_upto dst_len src = json_escape_all (take n src)"
    "n < length src \<Longrightarrow> dst_len < length (json_escape_all (take n src)) + length (json_escape (src ! n))"
    using json_escape_upto_run by metis
  let ?out = "json_escape_all (take n src)"
  have fits: "length ?out \<le> dst_len" using length_json_escape_upto [of dst_len src] n(2) by simp
  have "dst_len < 6 * length src" if "n < length src"
  proof -
    have "length ?out \<le> 6 * n" using length_json_escape_all [of "take n src"] n(1) by simp
    moreover have "length (json_escape (src ! n)) \<le> 6" by (rule length_json_escape)
    ultimately show ?thesis using n(3) [OF that] that by linarith
  qed
  then have "n = length src" if "JP_JSON_ESCAPE_MUL * length src \<le> dst_len"
    using that n(1) by (fastforce simp: JP_JSON_ESCAPE_MUL_def)
  moreover have "jp_json_value_encoder src dst base dst_len =
      Some (length ?out, take base dst @ ?out @ drop (base + length ?out) dst)"
    using assms fits by (simp add: jp_json_value_encoder_copy n(2) buf_copy_def)
  moreover have "json_string_body (?out @ 34 # rest) = Some (take n src, rest)"
    by (rule json_string_body_all)
  ultimately show ?thesis using fits n(3) by (intro exI [of _ n] exI [of _ ?out]) simp
qed

theorem value_encoder_correct_witness:
  "\<exists>n out. jp_json_value_encoder (bytes ''a\"b'') (replicate 6 0) 1 3 =
       Some (length out, [0] @ out @ drop (1 + length out) (replicate 6 0)) \<and> length out \<le> 3 \<and>
     json_string_body (out @ [34]) = Some (take n (bytes ''a\"b''), [])"
  using value_encoder_correct [of 1 3 "replicate 6 0" "bytes ''a\"b''" "[]"] by auto

text \<open>
  C15: For a well-formed set of at most 32 fields, the prefix encoder stores only inside the object
  it allocates, whatever that object holds at first, and the size computed in 64-bit arithmetic
  does not wrap. The length it returns is that of its text, which a NUL follows. Read as JSON, the
  text is an opening brace, one member for each field in order, a string or a bare literal whose
  content is the field's value, and then the key of the message. The content is the value byte for byte: a value that
  was given in quotes keeps them, inside the string, and a number keeps its spelling. The table of value types in the
  README says otherwise of two of its rows (\<open>readme_value_table\<close>).
\<close>

theorem prefix_encoder_correct:
  assumes "set_ok s" "set_cap s \<le> JP_CONF_FIELDS_MAX"
  shows "\<exists>m out. jp_json_prefix_encoder junk s = Some (m, length out) \<and>
           length m = 64 + (\<Sum>f\<leftarrow>set_fields s. key_len f + val_len f * JP_JSON_ESCAPE_MUL + 6) \<and>
           take (length out + 1) m = out @ [0] \<and> hd out = 123 \<and>
           json_members (set_len s) (tl out) =
             Some (map (\<lambda>f. (field_key f, field_value f)) (set_fields s), bytes ''\"msg\":'')"
proof -
  have ok: "list_all field_ok (set_fields s)" and len: "set_len s \<le> 32"
    using assms by (simp_all add: set_ok_def jp_conf_defs)
  let ?out = "json_prefix (set_fields s)"
  obtain m where m: "jp_json_prefix_encoder junk s = Some (m, length ?out)"
    "length m = unat (prefix_size (set_fields s))" "take (length ?out + 1) m = ?out @ [0]"
    using prefix_encoder_spec [OF ok len, of junk] by auto
  moreover have "hd ?out = 123" by (simp add: json_prefix_def)
  moreover have "json_members (set_len s) (tl ?out) =
      Some (map (\<lambda>f. (field_key f, field_value f)) (set_fields s), bytes ''\"msg\":'')"
    using json_members_field_text [OF ok] by (simp add: json_prefix_def)
  ultimately show ?thesis
    unfolding unat_prefix_size [OF ok len] JP_JSON_ESCAPE_MUL_def by blast
qed

theorem prefix_encoder_correct_witness:
  "\<exists>m out. jp_json_prefix_encoder (\<lambda>_. []) (jp_field_set_create 32) = Some (m, length out) \<and>
     length m = 64 \<and> take (length out + 1) m = out @ [0]"
proof -
  have "set_ok (jp_field_set_create 32)" "set_cap (jp_field_set_create 32) \<le> JP_CONF_FIELDS_MAX"
    by (simp_all add: set_ok_def jp_field_set_create_def set_assoc_def jp_conf_defs)
  from prefix_encoder_correct [OF this, of "\<lambda>_. []"] show ?thesis
    by (auto simp: jp_field_set_create_def)
qed

text \<open>
  Two rows of the table of value types in the README: \<open>rate=1.5e-3\<close> is said to give \<open>0.0015\<close> and is written as it is,
  and \<open>forced="123"\<close> is said to give the string \<open>123\<close> and gives the string of five bytes with the quotes, escaped.
\<close>

lemma readme_value_table:
  "do {
     (_, s1) \<leftarrow> jp_field_set_add (\<lambda>_. []) (jp_field_set_create 32) (bytes ''rate=1.5e-3'');
     (_, s2) \<leftarrow> jp_field_set_add (\<lambda>_. []) s1 (bytes ''forced=\"123\"'');
     (m, n) \<leftarrow> jp_json_prefix_encoder (\<lambda>_. []) s2;
     Some (take n m)
   } = Some (bytes ''{\"rate\":1.5e-3,\"forced\":\"'' @ [92] @ bytes ''\"123'' @ [92] @ bytes ''\"\",\"msg\":'')"
  by code_simp

text \<open>
  C36: No record is a JSON text. The prefix ends with the key of the message and a colon, the value
  encoder stores the escaped message without quotes, and the postfix starts with a quote: scanning
  the record, whatever the fields and the message, ends inside a string or has met a backslash
  outside every string, while a JSON text ends outside its strings.
\<close>

theorem record_is_not_json:
  assumes "set_ok s" "set_cap s \<le> JP_CONF_FIELDS_MAX"
    and "jp_json_prefix_encoder junk s = Some (m, n)"
    and "jp_json_value_encoder msg (replicate (JP_JSON_ESCAPE_MUL * length msg) 0) 0
           (JP_JSON_ESCAPE_MUL * length msg) = Some (k, v)"
    and "jp_json_postfix_encoder s = (p, l)"
  shows "json_quotes Outside (take n m @ take k v @ take l p) \<in> {Inside, Malformed}"
proof -
  have ok: "list_all field_ok (set_fields s)" and len: "set_len s \<le> 32"
    using assms(1,2) by (simp_all add: set_ok_def jp_conf_defs)
  have "take n m = json_prefix (set_fields s)"
    using prefix_encoder_spec [OF ok len, of junk] assms(3) by (auto dest: take_of_take_Suc)
  moreover have "take k v = json_escape_all msg"
    using assms(4) length_json_escape_all [of msg]
    by (auto simp: jp_json_value_encoder_copy JP_JSON_ESCAPE_MUL_def json_escape_upto_all buf_copy_def)
  moreover have "take l p = bytes ''\"}'' @ [10]"
    using assms(5) by (auto simp: jp_json_postfix_encoder_def bytes_def)
  ultimately show ?thesis
    using json_quotes_prefix [OF ok] json_quotes_outside_escape_all [of msg]
    by (auto simp: bytes_def)
qed

theorem record_is_not_json_witness:
  "\<exists>m n k v p l. jp_json_prefix_encoder (\<lambda>_. []) (jp_field_set_create 32) = Some (m, n) \<and>
     jp_json_value_encoder (bytes ''hi'') (replicate 12 0) 0 12 = Some (k, v) \<and>
     jp_json_postfix_encoder (jp_field_set_create 32) = (p, l) \<and>
     take n m @ take k v @ take l p = bytes ''{\"msg\":hi\"}'' @ [10] \<and>
     json_quotes Outside (take n m @ take k v @ take l p) \<in> {Inside, Malformed}"
proof -
  let ?s = "jp_field_set_create 32"
  have ok: "set_ok ?s" "set_cap ?s \<le> JP_CONF_FIELDS_MAX"
    by (simp_all add: set_ok_def jp_field_set_create_def set_assoc_def jp_conf_defs)
  have pre: "jp_json_prefix_encoder (\<lambda>_. []) ?s = Some (bytes ''{\"msg\":'' @ replicate 57 0, 7)"
    by code_simp
  have val: "jp_json_value_encoder (bytes ''hi'') (replicate (JP_JSON_ESCAPE_MUL * length (bytes ''hi'')) 0) 0
      (JP_JSON_ESCAPE_MUL * length (bytes ''hi'')) = Some (2, bytes ''hi'' @ replicate 10 0)"
    by code_simp
  have post: "jp_json_postfix_encoder ?s = (bytes ''\"}'' @ [10, 0], 3)"
    by (simp add: jp_json_postfix_encoder_def)
  from record_is_not_json [OF ok pre val post] pre val post show ?thesis
    by (auto simp: bytes_def JP_JSON_ESCAPE_MUL_def)
qed

end
