(* ===== verification/JP_Writer.thy ===== *)
theory JP_Writer
  imports JP_Json_Text JP_Queue JP_File
begin

text \<open>
  \<^verbatim>\<open>include/jp_writer.h\<close> and \<^verbatim>\<open>src/writer.c\<close>: \<open>jp_writer_produce\<close>, the loop of the writer thread. It pops
  blocks, cuts them into lines, carries an unfinished line over to the next block in its overflow
  buffer, and writes each line as one record: the prefix, the encoded line and the postfix.

  The answers of the successive calls of \<open>jp_queue_pop_uncommitted\<close> are an argument, an error or the
  bytes of the block; so are the kernel's answers. The three buffers the vector points to are three
  objects. A store outside an object, a write from outside an object and a \<^verbatim>\<open>free\<close> of a pointer that
  does not point to the start of an object are undefined behaviour: the result is \<^const>\<open>None\<close>.
\<close>

section \<open>Data\<close>

record jp_writer_ctx =
  wr_chunk_size :: size_t
  wr_output_dir :: cstring
  wr_fields :: jp_field_set
  wr_encoder :: jp_encoder

record writer_state =
  w_iov :: "iovec list"
  w_mem :: "buffer list" \<comment> \<open>the prefix, the encoded value, the postfix\<close>
  w_overflow :: buffer
  w_overflow_len :: size_t
  w_kernel :: "sys_write list"
  w_out :: "byte list" \<comment> \<open>what has reached the standard output\<close>
  w_commits :: nat \<comment> \<open>calls of \<open>jp_queue_pop_commit\<close>\<close>
  w_finalized :: bool \<comment> \<open>\<open>jp_queue_finalize\<close> was called\<close>
  w_errno :: "32 word" \<comment> \<open>\<^verbatim>\<open>errno\<close> when a write takes no bytes\<close>
  w_raised :: "raised list" \<comment> \<open>what the thread has raised\<close>

section \<open>Operations\<close>

fun memchr :: "byte list \<Rightarrow> byte \<Rightarrow> nat option" where
  "memchr [] ch = None"
| "memchr (x # xs) ch = (if x = ch then Some 0 else map_option Suc (memchr xs ch))"

definition IOV_VEC_COUNT :: nat where "IOV_VEC_COUNT = 3"

text \<open>\<open>iov[1].iov_len = value_encoder(msg, ...); err = jp_file_writev(..., iov, IOV_VEC_COUNT)\<close>.\<close>

definition writer_emit ::
  "jp_writer_ctx \<Rightarrow> byte list \<Rightarrow> writer_state \<Rightarrow> (jp_errno option \<times> writer_state) option"
where
  "writer_emit ctx msg st =
     do {
       let buf_len = wr_chunk_size ctx * of_nat (escaping_mul (wr_encoder ctx));
       (n, encoded_value) \<leftarrow> value_encoder (wr_encoder ctx) msg (w_mem st ! 1) 0 (unat buf_len);
       let iov = (w_iov st)[1 := (w_iov st ! 1)\<lparr>iov_len := n\<rparr>];
       let mem = (w_mem st)[1 := encoded_value];
       if list_all (iov_ok mem) iov
       then (case jp_file_writev (w_errno st) mem iov IOV_VEC_COUNT (w_kernel st) of (err, out, iov', ks, rs) \<Rightarrow>
               Some (err, st\<lparr>w_iov := iov', w_mem := mem, w_kernel := ks, w_out := w_out st @ out,
                             w_raised := w_raised st @ rs\<rparr>))
       else None
     }"

text \<open>The inner loop over one block; \<open>rest\<close> is what is between \<open>start_ptr\<close> and \<open>end_ptr\<close>.\<close>

function writer_block ::
  "jp_writer_ctx \<Rightarrow> byte list \<Rightarrow> writer_state \<Rightarrow> (jp_errno option \<times> writer_state) option"
where
  "writer_block ctx rest st =
     (if rest = [] then Some (Some JP_OK, st)
      else let delimiter = memchr rest 10 in
        if w_overflow_len st > 0 then
          let remaining_len = (case delimiter of Some d \<Rightarrow> d | None \<Rightarrow> length rest);
              copy_len = min remaining_len (unat (wr_chunk_size ctx - w_overflow_len st));
              len = w_overflow_len st + of_nat copy_len;
              rest' = drop copy_len rest
          in (case buf_copy (w_overflow st) (unat (w_overflow_len st)) (take copy_len rest) of
                None \<Rightarrow> None
              | Some overflow \<Rightarrow>
                  let st = st\<lparr>w_overflow := overflow, w_overflow_len := len\<rparr>
                  in if delimiter \<noteq> None \<or> len = wr_chunk_size ctx
                     then (case writer_emit ctx (take (unat len) overflow) st of
                             None \<Rightarrow> None
                           | Some (err, st) \<Rightarrow>
                               if err \<noteq> Some JP_OK then Some (err, st)
                               else writer_block ctx
                                      (if delimiter = Some copy_len then tl rest' else rest')
                                      (st\<lparr>w_overflow_len := 0\<rparr>))
                     else writer_block ctx rest' st)
        else (case delimiter of
                None \<Rightarrow>
                  (case buf_copy (w_overflow st) 0 rest of
                     None \<Rightarrow> None
                   | Some overflow \<Rightarrow>
                       Some (Some JP_OK, st\<lparr>w_overflow := overflow, w_overflow_len := of_nat (length rest)\<rparr>))
              | Some d \<Rightarrow>
                  (case writer_emit ctx (take d rest) st of
                     None \<Rightarrow> None
                   | Some (err, st) \<Rightarrow>
                       if err \<noteq> Some JP_OK then Some (err, st)
                       else writer_block ctx (drop (d + 1) rest) st)))"
  by pat_completeness auto

text \<open>
  An iteration consumes a byte, or it writes a full overflow buffer and empties it.
\<close>

lemma memchr_less: "memchr xs ch = Some d \<Longrightarrow> d < length xs"
  by (induction xs arbitrary: d) (auto split: if_splits)

termination writer_block
proof (relation "measures [\<lambda>(ctx, rest, st). length rest, \<lambda>(ctx, rest, st). unat (w_overflow_len st)]",
    goal_cases)
  case 1
  then show ?case by simp
next
  case (2 ctx rest st d r c l rest' ov st1 res err st2)
  then show ?case
    by (cases d) (auto simp: unat_gt_0 word_gt_0)
next
  case (3 ctx rest st d r c l rest' ov st1)
  have "unat (wr_chunk_size ctx - w_overflow_len st) \<noteq> 0"
  proof
    assume "unat (wr_chunk_size ctx - w_overflow_len st) = 0"
    then have "wr_chunk_size ctx = w_overflow_len st" by (simp add: unat_eq_0)
    with 3 show False by simp
  qed
  with 3 show ?case by auto
next
  case (4 ctx rest st d n res err st2)
  then show ?case by (auto dest: memchr_less)
qed

declare writer_block.simps [simp del]

fun writer_loop ::
  "jp_writer_ctx \<Rightarrow> (jp_errno + byte list) list \<Rightarrow> writer_state \<Rightarrow> (jp_errno option \<times> writer_state) option"
where
  "writer_loop ctx [] st = Some (None, st)"
| "writer_loop ctx (Inl err # pops) st = Some (Some err, st)"
| "writer_loop ctx (Inr block # pops) st =
     (case writer_block ctx block st of
        None \<Rightarrow> None
      | Some (err, st) \<Rightarrow>
          if err \<noteq> Some JP_OK then Some (err, st)
          else writer_loop ctx pops (st\<lparr>w_commits := w_commits st + 1\<rparr>))"

definition jp_writer_produce ::
  "(nat \<Rightarrow> buffer) \<Rightarrow> nat \<Rightarrow> 32 word \<Rightarrow> jp_writer_ctx \<Rightarrow> (jp_errno + byte list) list \<Rightarrow> sys_write list
     \<Rightarrow> (jp_errno option \<times> writer_state) option"
where
  "jp_writer_produce junk junk_len stale ctx pops ks =
     do {
       let buf_len = wr_chunk_size ctx * of_nat (escaping_mul (wr_encoder ctx));
       encoded_value \<leftarrow> new_object junk (unat buf_len);
       overflow \<leftarrow> new_object junk (unat (wr_chunk_size ctx));
       (prefix, prefix_len) \<leftarrow> prefix_encoder (wr_encoder ctx) junk (wr_fields ctx);
       let (postfix, postfix_len) = postfix_encoder (wr_encoder ctx) (wr_fields ctx);
       let st = \<lparr>w_iov = [\<lparr>iov_obj = 0, iov_off = 0, iov_len = prefix_len\<rparr>,
                          \<lparr>iov_obj = 1, iov_off = 0, iov_len = junk_len\<rparr>,
                          \<lparr>iov_obj = 2, iov_off = 0, iov_len = postfix_len\<rparr>],
                 w_mem = [prefix, encoded_value, postfix], w_overflow = overflow, w_overflow_len = 0,
                 w_kernel = ks, w_out = [], w_commits = 0, w_finalized = False,
                 w_errno = stale, w_raised = []\<rparr>;
       (err, st) \<leftarrow> writer_loop ctx pops st;
       (case err of
          None \<Rightarrow> Some (None, st)
        | Some e \<Rightarrow>
            if list_all (\<lambda>v. iov_off v = 0) (w_iov st)
            then Some (Some (if jp_queue_is_graceful_err e then JP_OK else e), st\<lparr>w_finalized := True\<rparr>)
            else None)
     }"

end
