(* ===== verification/JP_Writer_Lines.thy ===== *)
theory JP_Writer_Lines
  imports JP_Writer
begin

text \<open>
  What \<open>jp_writer_produce\<close> writes. The specification cuts blocks into pieces without buffers; the
  pieces conserve the bytes of the blocks, hold no newline and are no longer than the chunk size,
  and they are the lines of the text when these are shorter than the chunk size. The loops of the
  writer are proved to write one record for each piece, for every encoder that keeps the contract
  \<open>record_encoder\<close>, and then for the JSON encoder. The last properties are the losses: the
  unterminated last line, the empty record after a full line, and the partial write.
\<close>

section \<open>Cutting blocks into pieces\<close>

text \<open>
  The pieces of a block that comes after the unfinished line \<open>ov\<close>, and the unfinished line it leaves.
  A piece is marked when it ends with the newline that follows it in the input.
\<close>

function split_block :: "nat \<Rightarrow> byte list \<Rightarrow> byte list \<Rightarrow> (byte list \<times> bool) list \<times> byte list" where
  "split_block c ov rest =
     (if rest = [] then ([], ov)
      else let line = takeWhile (\<lambda>x. x \<noteq> 10) rest; nl = (10 \<in> set rest) in
        if ov \<noteq> [] then
          let n = min (length line) (c - length ov); ends = (nl \<and> n = length line)
          in if nl \<or> length ov + n \<ge> c
             then (case split_block c [] (drop (if ends then n + 1 else n) rest) of
                     (ps, r) \<Rightarrow> ((ov @ take n rest, ends) # ps, r))
             else split_block c (ov @ take n rest) (drop n rest)
        else if \<not> nl then ([], rest)
        else (case split_block c [] (drop (length line + 1) rest) of (ps, r) \<Rightarrow> ((line, True) # ps, r)))"
  by pat_completeness auto

termination split_block
proof (relation "measures [\<lambda>(c, ov, rest). length rest, \<lambda>(c, ov, rest). length ov]", goal_cases)
  case (3 c ov rest line nl n ends)
  then have "line = rest" by (auto simp: takeWhile_eq_all_conv)
  with 3 show ?case by (auto simp: min_def split: if_splits)
qed (auto simp: length_greater_0_conv)

declare split_block.simps [simp del]

fun split_blocks :: "nat \<Rightarrow> byte list \<Rightarrow> byte list list \<Rightarrow> (byte list \<times> bool) list \<times> byte list" where
  "split_blocks c ov [] = ([], ov)"
| "split_blocks c ov (b # bs) =
     (case split_block c ov b of (ps, r) \<Rightarrow> case split_blocks c r bs of (qs, r') \<Rightarrow> (ps @ qs, r'))"

lemma memchr_takeWhile:
  "memchr xs ch = (if ch \<in> set xs then Some (length (takeWhile (\<lambda>x. x \<noteq> ch) xs)) else None)"
  by (induction xs) auto

lemma length_takeWhile_less: "ch \<in> set xs \<Longrightarrow> length (takeWhile (\<lambda>x. x \<noteq> ch) xs) < length xs"
  by (induction xs) auto

lemma drop_takeWhile_newline:
  "ch \<in> set xs \<Longrightarrow> drop (length (takeWhile (\<lambda>x. x \<noteq> ch) xs)) xs = ch # drop (Suc (length (takeWhile (\<lambda>x. x \<noteq> ch) xs))) xs"
  by (induction xs) auto

text \<open>The cases of an iteration, and the induction over them.\<close>

abbreviation line_len :: "byte list \<Rightarrow> nat" where
  "line_len rest \<equiv> length (takeWhile (\<lambda>x. x \<noteq> 10) rest)"

definition copied :: "nat \<Rightarrow> byte list \<Rightarrow> byte list \<Rightarrow> nat" where
  "copied c ov rest = min (line_len rest) (c - length ov)"

definition line_ends :: "nat \<Rightarrow> byte list \<Rightarrow> byte list \<Rightarrow> bool" where
  "line_ends c ov rest \<longleftrightarrow> 10 \<in> set rest \<and> copied c ov rest = line_len rest"

definition after_copy :: "nat \<Rightarrow> byte list \<Rightarrow> byte list \<Rightarrow> byte list" where
  "after_copy c ov rest = drop (if line_ends c ov rest then copied c ov rest + 1 else copied c ov rest) rest"

definition flushes :: "nat \<Rightarrow> byte list \<Rightarrow> byte list \<Rightarrow> bool" where
  "flushes c ov rest \<longleftrightarrow> 10 \<in> set rest \<or> length ov + copied c ov rest \<ge> c"

lemma split_block_eqs:
  "split_block c ov [] = ([], ov)"
  "rest \<noteq> [] \<Longrightarrow> ov \<noteq> [] \<Longrightarrow> flushes c ov rest \<Longrightarrow> split_block c ov rest =
     (case split_block c [] (after_copy c ov rest) of
        (ps, r) \<Rightarrow> ((ov @ take (copied c ov rest) rest, line_ends c ov rest) # ps, r))"
  "rest \<noteq> [] \<Longrightarrow> ov \<noteq> [] \<Longrightarrow> \<not> flushes c ov rest \<Longrightarrow> split_block c ov rest =
     split_block c (ov @ take (copied c ov rest) rest) (drop (copied c ov rest) rest)"
  "rest \<noteq> [] \<Longrightarrow> 10 \<notin> set rest \<Longrightarrow> split_block c [] rest = ([], rest)"
  "10 \<in> set rest \<Longrightarrow> split_block c [] rest =
     (case split_block c [] (drop (line_len rest + 1) rest) of
        (ps, r) \<Rightarrow> ((takeWhile (\<lambda>x. x \<noteq> 10) rest, True) # ps, r))"
  by (subst split_block.simps;
      force simp: Let_def copied_def line_ends_def after_copy_def flushes_def)+

lemma split_block_induct [case_names empty flush carry tail line]:
  assumes "\<And>ov. P ov []"
    and "\<And>ov rest. rest \<noteq> [] \<Longrightarrow> ov \<noteq> [] \<Longrightarrow> flushes c ov rest \<Longrightarrow> P [] (after_copy c ov rest) \<Longrightarrow> P ov rest"
    and "\<And>ov rest. rest \<noteq> [] \<Longrightarrow> ov \<noteq> [] \<Longrightarrow> \<not> flushes c ov rest \<Longrightarrow>
      P (ov @ take (copied c ov rest) rest) (drop (copied c ov rest) rest) \<Longrightarrow> P ov rest"
    and "\<And>rest. rest \<noteq> [] \<Longrightarrow> 10 \<notin> set rest \<Longrightarrow> P [] rest"
    and "\<And>rest. 10 \<in> set rest \<Longrightarrow> P [] (drop (line_len rest + 1) rest) \<Longrightarrow> P [] rest"
  shows "P ov rest"
  using assms
proof (induction c ov rest rule: split_block.induct)
  case (1 c ov rest)
  note defs = copied_def line_ends_def after_copy_def flushes_def
  consider "rest = []" | (flush) "rest \<noteq> []" "ov \<noteq> []" "flushes c ov rest"
    | (carry) "rest \<noteq> []" "ov \<noteq> []" "\<not> flushes c ov rest"
    | (tail) "rest \<noteq> []" "ov = []" "10 \<notin> set rest" | (line) "rest \<noteq> []" "ov = []" "10 \<in> set rest"
    by blast
  then show ?case
  proof cases
    case flush
    have "P [] (after_copy c ov rest)"
      unfolding defs
      by (rule "1.IH"(1) [OF flush(1) refl refl flush(2) refl refl _ "1.prems"])
        (use flush(3) in \<open>simp add: defs\<close>)
    with flush "1.prems"(2) show ?thesis by blast
  next
    case carry
    have "P (ov @ take (copied c ov rest) rest) (drop (copied c ov rest) rest)"
      unfolding copied_def
      by (rule "1.IH"(2) [OF carry(1) refl refl carry(2) refl refl _ "1.prems"])
        (use carry(3) in \<open>simp add: defs\<close>)
    with carry "1.prems"(3) show ?thesis by blast
  next
    case line
    have "P [] (drop (line_len rest + 1) rest)"
      by (rule "1.IH"(3) [OF line(1) refl refl _ _ "1.prems"]) (use line in simp_all)
    with line "1.prems"(5) show ?thesis by blast
  qed (use "1.prems" in blast)+
qed

section \<open>Conservation and bounds\<close>

definition piece_bytes :: "byte list \<times> bool \<Rightarrow> byte list" where
  "piece_bytes p = fst p @ (if snd p then [10] else [])"

lemma after_copy_bytes:
  "rest = take (copied c ov rest) rest @ (if line_ends c ov rest then [10] else []) @ after_copy c ov rest"
  using drop_takeWhile_newline [of 10 rest] append_take_drop_id [of "copied c ov rest" rest, symmetric]
  by (auto simp: after_copy_def line_ends_def simp del: append_take_drop_id)

lemma line_bytes:
  "10 \<in> set rest \<Longrightarrow> rest = takeWhile (\<lambda>x. x \<noteq> 10) rest @ 10 # drop (line_len rest + 1) rest"
  using drop_takeWhile_newline [of 10 rest] append_take_drop_id [of "line_len rest" rest]
  by (simp add: takeWhile_eq_take [symmetric])

lemma split_block_conserves:
  "split_block c ov rest = (ps, r) \<Longrightarrow> ov @ rest = concat (map piece_bytes ps) @ r"
proof (induction ov rest arbitrary: ps r rule: split_block_induct [of _ c])
  case (flush ov rest)
  then obtain qs where q: "split_block c [] (after_copy c ov rest) = (qs, r)"
    and ps: "ps = (ov @ take (copied c ov rest) rest, line_ends c ov rest) # qs"
    by (auto simp: split_block_eqs split: prod.splits)
  from flush.IH [OF q] after_copy_bytes [of rest c ov] show ?case
    by (simp add: ps piece_bytes_def)
next
  case (line rest)
  then obtain qs where q: "split_block c [] (drop (line_len rest + 1) rest) = (qs, r)"
    and ps: "ps = (takeWhile (\<lambda>x. x \<noteq> 10) rest, True) # qs"
    by (auto simp: split_block_eqs split: prod.splits)
  from line.IH [OF q] line_bytes [OF line.hyps] show ?case
    by (simp add: ps piece_bytes_def)
qed (auto simp: split_block_eqs)

lemma split_blocks_conserves:
  "split_blocks c ov bs = (ps, r) \<Longrightarrow> ov @ concat bs = concat (map piece_bytes ps) @ r"
proof (induction bs arbitrary: ov ps r)
  case Nil
  then show ?case by simp
next
  case (Cons b bs)
  then obtain ps1 r1 qs where "split_block c ov b = (ps1, r1)" "split_blocks c r1 bs = (qs, r)" "ps = ps1 @ qs"
    by (auto split: prod.splits)
  with Cons.IH [of r1 qs r] split_block_conserves [of c ov b ps1 r1] show ?case
    by simp (metis append_assoc)
qed

definition piece_ok :: "nat \<Rightarrow> byte list \<Rightarrow> bool" where
  "piece_ok c p \<longleftrightarrow> length p \<le> c \<and> 10 \<notin> set p"

lemma take_line_no_newline: "n \<le> line_len rest \<Longrightarrow> 10 \<notin> set (take n rest)"
proof -
  assume "n \<le> line_len rest"
  then have "take n rest = take n (takeWhile (\<lambda>x. x \<noteq> 10) rest)"
    by (metis takeWhile_eq_take take_take min.absorb1)
  moreover have "10 \<notin> set (takeWhile (\<lambda>x. x \<noteq> 10) rest)" by (auto dest: set_takeWhileD)
  ultimately show ?thesis by (metis in_set_takeD)
qed

lemma piece_ok_extend:
  "piece_ok c ov \<Longrightarrow> piece_ok c (ov @ take (copied c ov rest) rest)"
  using take_line_no_newline [of "copied c ov rest" rest] by (auto simp: piece_ok_def copied_def)

lemma split_block_pieces:
  "split_block c ov rest = (ps, r) \<Longrightarrow> piece_ok c ov \<Longrightarrow> length rest \<le> c \<Longrightarrow>
   list_all (piece_ok c \<circ> fst) ps \<and> piece_ok c r"
proof (induction ov rest arbitrary: ps r rule: split_block_induct [of _ c])
  case (flush ov rest)
  then obtain qs where q: "split_block c [] (after_copy c ov rest) = (qs, r)"
    and ps: "ps = (ov @ take (copied c ov rest) rest, line_ends c ov rest) # qs"
    by (auto simp: split_block_eqs split: prod.splits)
  have "length (after_copy c ov rest) \<le> c" using flush.prems(3) by (simp add: after_copy_def)
  with flush.IH [OF q] piece_ok_extend [OF flush.prems(2)] show ?case by (simp add: ps piece_ok_def)
next
  case (carry ov rest)
  then show ?case by (simp add: split_block_eqs piece_ok_extend)
next
  case (line rest)
  then obtain qs where q: "split_block c [] (drop (line_len rest + 1) rest) = (qs, r)"
    and ps: "ps = (takeWhile (\<lambda>x. x \<noteq> 10) rest, True) # qs"
    by (auto simp: split_block_eqs split: prod.splits)
  have "length (takeWhile (\<lambda>x. x \<noteq> 10) rest) \<le> c"
    using line.prems(3) length_takeWhile_le [of "\<lambda>x. x \<noteq> 10" rest] by linarith
  with line.IH [OF q] line.prems show ?case
    by (auto simp: ps piece_ok_def dest: set_takeWhileD)
qed (auto simp: split_block_eqs piece_ok_def)

lemma split_blocks_pieces:
  "split_blocks c ov bs = (ps, r) \<Longrightarrow> piece_ok c ov \<Longrightarrow> list_all (\<lambda>b. length b \<le> c) bs \<Longrightarrow>
   list_all (piece_ok c \<circ> fst) ps \<and> piece_ok c r"
proof (induction bs arbitrary: ov ps r)
  case Nil
  then show ?case by simp
next
  case (Cons b bs)
  then obtain ps1 r1 qs where "split_block c ov b = (ps1, r1)" "split_blocks c r1 bs = (qs, r)" "ps = ps1 @ qs"
    by (auto split: prod.splits)
  with Cons.IH [of r1 qs r] Cons.prems split_block_pieces [of c ov b ps1 r1] show ?case
    by (simp add: comp_def)
qed

section \<open>Lines\<close>

text \<open>The lines of a text that a newline ends, and what comes after the last newline.\<close>

fun lines_of :: "byte list \<Rightarrow> byte list \<Rightarrow> byte list list \<times> byte list" where
  "lines_of cur [] = ([], cur)"
| "lines_of cur (x # xs) =
     (if x = 10 then case lines_of [] xs of (ls, r) \<Rightarrow> (cur # ls, r) else lines_of (cur @ [x]) xs)"

lemma lines_of_append_line:
  "10 \<notin> set xs \<Longrightarrow> lines_of cur (xs @ ys) = lines_of (cur @ xs) ys"
  by (induction xs arbitrary: cur) auto

lemma lines_of_append:
  "lines_of cur (xs @ ys) =
     (case lines_of cur xs of (ls, r) \<Rightarrow> case lines_of r ys of (ms, r') \<Rightarrow> (ls @ ms, r'))"
  by (induction cur xs rule: lines_of.induct) (auto split: prod.splits)


definition short_lines :: "nat \<Rightarrow> byte list list \<times> byte list \<Rightarrow> bool" where
  "short_lines c ls \<longleftrightarrow> list_all (\<lambda>l. length l < c) (fst ls) \<and> length (snd ls) < c"

lemma lines_of_newline:
  "10 \<in> set rest \<Longrightarrow> lines_of ov rest =
     (case lines_of [] (drop (line_len rest + 1) rest) of
        (ls, r) \<Rightarrow> ((ov @ takeWhile (\<lambda>x. x \<noteq> 10) rest) # ls, r))"
proof -
  assume nl: "10 \<in> set rest"
  have "10 \<notin> set (takeWhile (\<lambda>x. x \<noteq> 10) rest)" by (auto dest: set_takeWhileD)
  then show ?thesis by (subst line_bytes [OF nl]) (simp add: lines_of_append_line)
qed

lemma lines_of_no_newline: "10 \<notin> set rest \<Longrightarrow> lines_of ov rest = ([], ov @ rest)"
  using lines_of_append_line [of rest ov "[]"] by simp

lemma line_len_no_newline: "10 \<notin> set rest \<Longrightarrow> line_len rest = length rest"
  by (induction rest) auto

lemma split_block_short:
  "short_lines c (lines_of ov rest) \<Longrightarrow>
   split_block c ov rest = (map (\<lambda>l. (l, True)) (fst (lines_of ov rest)), snd (lines_of ov rest))"
proof (induction ov rest rule: split_block_induct [of _ c])
  case (flush ov rest)
  have nl: "10 \<in> set rest"
  proof (rule ccontr)
    assume "10 \<notin> set rest"
    with flush show False
      by (auto simp: flushes_def lines_of_no_newline short_lines_def copied_def line_len_no_newline)
  qed
  then have "length ov + line_len rest < c"
    using flush.prems by (simp add: lines_of_newline short_lines_def split: prod.splits)
  then have "copied c ov rest = line_len rest" by (simp add: copied_def)
  with flush nl show ?case
    by (simp add: split_block_eqs lines_of_newline after_copy_def line_ends_def short_lines_def
        takeWhile_eq_take [symmetric] split: prod.splits)
next
  case (carry ov rest)
  then have nl: "10 \<notin> set rest" by (simp add: flushes_def)
  then have "length ov + length rest < c" using carry.prems by (simp add: lines_of_no_newline short_lines_def)
  then have "copied c ov rest = length rest" using nl by (simp add: copied_def line_len_no_newline)
  with carry nl show ?case by (simp add: split_block_eqs lines_of_no_newline)
next
  case (tail rest)
  then show ?case by (simp add: split_block_eqs lines_of_no_newline)
next
  case (line rest)
  then show ?case
    by (simp add: split_block_eqs lines_of_newline short_lines_def split: prod.splits)
qed (simp add: split_block_eqs)

lemma lines_of_grows:
  "case lines_of cur xs of (ls, r) \<Rightarrow> length cur \<le> length (hd (ls @ [r]))"
proof (induction cur xs rule: lines_of.induct)
  case (2 cur x xs)
  then show ?case by (auto split: prod.splits)
qed simp

lemma split_blocks_short:
  "short_lines c (lines_of ov (concat bs)) \<Longrightarrow> length ov < c \<Longrightarrow>
   split_blocks c ov bs = (map (\<lambda>l. (l, True)) (fst (lines_of ov (concat bs))), snd (lines_of ov (concat bs)))"
proof (induction bs arbitrary: ov)
  case Nil
  then show ?case by simp
next
  case (Cons b bs)
  obtain ls r where b: "lines_of ov b = (ls, r)" by (cases "lines_of ov b")
  obtain ms r' where bs: "lines_of r (concat bs) = (ms, r')" by (cases "lines_of r (concat bs)")
  have all: "lines_of ov (concat (b # bs)) = (ls @ ms, r')" by (simp add: lines_of_append b bs)
  have "length r < c" using Cons.prems(1) bs
    unfolding all short_lines_def
    using lines_of_grows [of r "concat bs"] by (cases ms) auto
  then have "short_lines c (lines_of ov b)" "short_lines c (lines_of r (concat bs))"
    using Cons.prems(1) \<open>length r < c\<close> unfolding all by (simp_all add: b bs short_lines_def)
  with Cons.IH [of r] split_block_short [of c ov b] \<open>length r < c\<close> show ?case
    by (simp add: lines_of_append b bs)
qed

section \<open>The writer writes the records of the pieces\<close>

text \<open>
  What the loop keeps: the vector points to the starts of the three objects, which hold the prefix,
  the encoded value and the postfix; the overflow buffer holds the unfinished line.
\<close>

definition overflow_holds :: "nat \<Rightarrow> writer_state \<Rightarrow> byte list \<Rightarrow> bool" where
  "overflow_holds c st ov \<longleftrightarrow>
     length (w_overflow st) = c \<and> length ov \<le> c \<and> w_overflow_len st = of_nat (length ov) \<and>
     take (length ov) (w_overflow st) = ov"

definition vector_holds :: "byte list \<Rightarrow> byte list \<Rightarrow> nat \<Rightarrow> writer_state \<Rightarrow> bool" where
  "vector_holds p q m st \<longleftrightarrow>
     (\<exists>a e b n. w_mem st = [a, e, b] \<and> take (length p) a = p \<and> take (length q) b = q \<and> length e = m \<and>
        w_iov st = [\<lparr>iov_obj = 0, iov_off = 0, iov_len = length p\<rparr>, \<lparr>iov_obj = 1, iov_off = 0, iov_len = n\<rparr>,
                    \<lparr>iov_obj = 2, iov_off = 0, iov_len = length q\<rparr>])"

definition same_overflow :: "writer_state \<Rightarrow> writer_state \<Rightarrow> bool" where
  "same_overflow st st' \<longleftrightarrow> w_overflow st' = w_overflow st \<and> w_overflow_len st' = w_overflow_len st \<and>
     w_commits st' = w_commits st \<and> w_finalized st' = w_finalized st"

text \<open>What a failing kernel makes of the writer's error, and what is raised.\<close>

definition stopped :: "raised option \<Rightarrow> jp_errno option" where
  "stopped f = (case f of None \<Rightarrow> None | Some r \<Rightarrow> Some JP_EWRITE_FAILED)"

definition raised_by :: "raised option \<Rightarrow> raised list" where
  "raised_by f = (case f of None \<Rightarrow> [] | Some r \<Rightarrow> [r])"

lemma stopped_not_ok [simp]: "stopped f \<noteq> Some JP_OK"
  by (simp add: stopped_def split: option.split)

context record_encoder
begin

abbreviation chunk_of :: "jp_writer_ctx \<Rightarrow> nat" where
  "chunk_of ctx \<equiv> unat (wr_chunk_size ctx)"

definition ctx_ok :: "jp_writer_ctx \<Rightarrow> bool" where
  "ctx_ok ctx \<longleftrightarrow> wr_encoder ctx = enc \<and> fields_ok (wr_fields ctx) \<and> 0 < chunk_of ctx \<and>
     chunk_of ctx * escaping_mul enc < 2 ^ 64 \<and> pre (wr_fields ctx) @ post (wr_fields ctx) \<noteq> []"

definition max_len :: "jp_writer_ctx \<Rightarrow> nat" where
  "max_len ctx = length (pre (wr_fields ctx)) + escaping_mul enc * chunk_of ctx + length (post (wr_fields ctx))"

text \<open>The kernel writes all or nothing, writes \<open>k\<close> more records, and then there is \<open>f\<close>.\<close>

definition kernel_serves :: "jp_writer_ctx \<Rightarrow> nat \<Rightarrow> raised option \<Rightarrow> writer_state \<Rightarrow> bool" where
  "kernel_serves ctx k f st \<longleftrightarrow>
     list_all (whole (max_len ctx)) (w_kernel st) \<and> serves (w_errno st) (w_kernel st) = (k, f)"

definition state_ok :: "jp_writer_ctx \<Rightarrow> writer_state \<Rightarrow> bool" where
  "state_ok ctx st \<longleftrightarrow>
     vector_holds (pre (wr_fields ctx)) (post (wr_fields ctx)) (escaping_mul enc * chunk_of ctx) st"

lemma buf_len:
  "ctx_ok ctx \<Longrightarrow> unat (wr_chunk_size ctx * of_nat (escaping_mul (wr_encoder ctx))) = escaping_mul enc * chunk_of ctx"
proof -
  assume ok: "ctx_ok ctx"
  then have lt: "chunk_of ctx * escaping_mul enc < 2 ^ 64" "0 < chunk_of ctx" by (simp_all add: ctx_ok_def)
  then have "escaping_mul enc < 2 ^ 64" by (cases "chunk_of ctx") auto
  then have "unat (of_nat (escaping_mul enc) :: size_t) = escaping_mul enc" by (simp add: unat_of_nat)
  with lt ok show ?thesis by (simp add: ctx_ok_def unat_word_ariths mult.commute)
qed

lemma writer_emit_record:
  assumes ctx: "ctx_ok ctx" and st: "state_ok ctx st" and msg: "length msg \<le> chunk_of ctx"
    and ks: "kernel_serves ctx k f st"
  shows "\<exists>st'. state_ok ctx st' \<and> same_overflow st st' \<and>
     (case k of
        Suc n \<Rightarrow> writer_emit ctx msg st = Some (Some JP_OK, st') \<and> kernel_serves ctx n f st' \<and>
          w_out st' = w_out st @ record_text (wr_fields ctx) msg \<and> w_raised st' = w_raised st
      | 0 \<Rightarrow> writer_emit ctx msg st = Some (stopped f, st') \<and> w_out st' = w_out st \<and>
          w_raised st' = w_raised st @ raised_by f)"
proof -
  let ?p = "pre (wr_fields ctx)" and ?q = "post (wr_fields ctx)" and ?m = "escaping_mul enc * chunk_of ctx"
  obtain a e b j where mem: "w_mem st = [a, e, b]" "take (length ?p) a = ?p" "take (length ?q) b = ?q" "length e = ?m"
    and iov: "w_iov st = [\<lparr>iov_obj = 0, iov_off = 0, iov_len = length ?p\<rparr>,
      \<lparr>iov_obj = 1, iov_off = 0, iov_len = j\<rparr>, \<lparr>iov_obj = 2, iov_off = 0, iov_len = length ?q\<rparr>]"
    using st by (auto simp: state_ok_def vector_holds_def)
  have fits: "escaping_mul enc * length msg \<le> length e" using msg by (simp add: mem)
  obtain v where v: "value_encoder enc msg e 0 (length e) = Some (length (esc msg), v)" "length v = length e"
    "take (length (esc msg)) v = esc msg"
    using value_keeps_size [OF fits] by auto
  have esc: "length (esc msg) \<le> length e" using esc_fits [of msg] fits by simp
  let ?mem = "[a, v, b]" and ?iov = "[\<lparr>iov_obj = 0, iov_off = 0, iov_len = length ?p\<rparr>,
      \<lparr>iov_obj = 1, iov_off = 0, iov_len = length (esc msg)\<rparr>, \<lparr>iov_obj = 2, iov_off = 0, iov_len = length ?q\<rparr>]"
  have sizes: "length ?p \<le> length a" "length ?q \<le> length b"
    using arg_cong [OF mem(2), of length] arg_cong [OF mem(3), of length] by simp_all
  have ok: "list_all (iov_ok ?mem) ?iov" using sizes esc v(2) by (simp add: iov_ok_def)
  have total: "iov_total ?mem ?iov = record_text (wr_fields ctx) msg"
    using mem v(3) by (simp add: iov_bytes_def record_text_def)
  have ne: "iov_total ?mem ?iov \<noteq> []" unfolding total using ctx by (auto simp: record_text_def ctx_ok_def)
  have small: "length (iov_total ?mem ?iov) \<le> max_len ctx"
    unfolding total using esc mem(4) by (simp add: record_text_def max_len_def)
  from jp_file_writev_whole [OF ok ne _ small, of "w_kernel st" "w_errno st" k f] ks obtain ks' where
    ks': "list_all (whole (max_len ctx)) ks'" "case k of Suc n \<Rightarrow> serves (w_errno st) ks' = (n, f) | 0 \<Rightarrow> True"
    and run: "jp_file_writev (w_errno st) ?mem ?iov (length ?iov) (w_kernel st) =
      (case k of
         Suc n \<Rightarrow> (Some JP_OK, record_text (wr_fields ctx) msg, ?iov, ks', [])
       | 0 \<Rightarrow> (stopped f, [], ?iov, ks', raised_by f))"
    unfolding total by (auto simp: kernel_serves_def stopped_def raised_by_def split: option.splits nat.splits)
  define st' where "st' = st\<lparr>w_iov := ?iov, w_mem := ?mem, w_kernel := ks',
    w_out := w_out st @ (case k of Suc n \<Rightarrow> record_text (wr_fields ctx) msg | 0 \<Rightarrow> []),
    w_raised := w_raised st @ (case k of Suc n \<Rightarrow> [] | 0 \<Rightarrow> raised_by f)\<rparr>"
  have "writer_emit ctx msg st = Some (case k of Suc n \<Rightarrow> Some JP_OK | 0 \<Rightarrow> stopped f, st')"
    using ctx ok run v(1) buf_len [OF ctx]
    by (cases k) (simp_all add: writer_emit_def mem iov IOV_VEC_COUNT_def numeral_3_eq_3 ctx_ok_def Let_def st'_def)
  moreover have "state_ok ctx st'" "same_overflow st st'"
    using v(2) mem by (auto simp: state_ok_def vector_holds_def same_overflow_def st'_def)
  ultimately show ?thesis
    using ks' by (intro exI [of _ st']) (cases k; simp add: st'_def kernel_serves_def)
qed

definition records_text :: "jp_writer_ctx \<Rightarrow> (byte list \<times> bool) list \<Rightarrow> byte list" where
  "records_text ctx ps = concat (map (\<lambda>p. record_text (wr_fields ctx) (fst p)) ps)"

lemma overflow_word:
  assumes "overflow_holds (chunk_of ctx) st ov"
  shows "unat (w_overflow_len st) = length ov"
proof -
  have "length ov \<le> chunk_of ctx" using assms by (simp add: overflow_holds_def)
  also have "chunk_of ctx < 2 ^ 64" using unsigned_less [of "wr_chunk_size ctx"] by simp
  finally show ?thesis using assms by (simp add: overflow_holds_def unat_of_nat)
qed

lemma writer_block_overflow:
  assumes ov: "overflow_holds (chunk_of ctx) st ov" "ov \<noteq> []" and rest: "rest \<noteq> []"
  defines "c \<equiv> chunk_of ctx"
  shows "\<exists>st1. overflow_holds c st1 (ov @ take (copied c ov rest) rest) \<and>
           st1 = st\<lparr>w_overflow := w_overflow st1, w_overflow_len := w_overflow_len st1\<rparr> \<and>
           writer_block ctx rest st =
             (if flushes c ov rest
              then (case writer_emit ctx (ov @ take (copied c ov rest) rest) st1 of
                      None \<Rightarrow> None
                    | Some (err, st2) \<Rightarrow>
                        if err \<noteq> Some JP_OK then Some (err, st2)
                        else writer_block ctx (after_copy c ov rest) (st2\<lparr>w_overflow_len := 0\<rparr>))
              else writer_block ctx (drop (copied c ov rest) rest) st1)"
proof -
  let ?n = "copied c ov rest" and ?len = "w_overflow_len st + of_nat (copied c ov rest)"
  have c: "length ov \<le> c" "length (w_overflow st) = c" "c < 2 ^ 64"
    using ov(1) unsigned_less [of "wr_chunk_size ctx"] by (simp_all add: overflow_holds_def c_def)
  note u = overflow_word [OF ov(1)]
  have cc: "unat (wr_chunk_size ctx) = c" by (simp add: c_def)
  have le: "w_overflow_len st \<le> wr_chunk_size ctx" using c(1) u by (simp add: word_le_nat_alt c_def)
  have room: "unat (wr_chunk_size ctx - w_overflow_len st) = c - length ov"
    using le by (simp add: unat_sub u c_def)
  have n: "?n \<le> c - length ov" by (simp add: copied_def)
  have len: "unat ?len = length ov + ?n"
    using n c by (subst unat_add_small) (simp_all add: u unat_of_nat)
  have full: "?len = wr_chunk_size ctx \<longleftrightarrow> length ov + ?n \<ge> c"
    unfolding word_unat_eq_iff len cc using n c(1) by auto
  define st1 where "st1 = st\<lparr>w_overflow := take (length ov) (w_overflow st) @ take ?n rest @
      drop (length ov + length (take ?n rest)) (w_overflow st), w_overflow_len := ?len\<rparr>"
  have tk: "length (take ?n rest) = ?n"
    using length_takeWhile_le [of "\<lambda>x. x \<noteq> 10" rest] by (simp add: copied_def min_def)
  have copy: "buf_copy (w_overflow st) (unat (w_overflow_len st)) (take ?n rest) = Some (w_overflow st1)"
    using n c by (simp add: buf_copy_def u tk st1_def del: length_take)
  have pos: "w_overflow_len st > 0" using ov(2) u by (simp add: word_less_nat_alt)
  have delim: "memchr rest 10 = (if 10 \<in> set rest then Some (line_len rest) else None)"
    by (rule memchr_takeWhile)
  have rem: "(case memchr rest 10 of Some d \<Rightarrow> d | None \<Rightarrow> length rest) = line_len rest"
    by (simp add: delim line_len_no_newline)
  have ovf: "w_overflow_len st = of_nat (length ov)" "take (length ov) (w_overflow st) = ov"
    using ov(1) by (simp_all add: overflow_holds_def)
  have held: "overflow_holds c st1 (ov @ take ?n rest)"
    using n c(1) unfolding overflow_holds_def st1_def
    by (simp add: tk c(2) ovf del: length_take)
  have first: "take (unat ?len) (w_overflow st1) = ov @ take ?n rest"
    using held by (simp add: overflow_holds_def len tk del: length_take)
  have ends: "memchr rest 10 = Some ?n \<longleftrightarrow> line_ends c ov rest"
    by (auto simp: delim line_ends_def)
  have cp: "min (case memchr rest 10 of None \<Rightarrow> length rest | Some d \<Rightarrow> d)
      (unat (wr_chunk_size ctx - w_overflow_len st)) = ?n"
    by (simp only: rem room copied_def)
  have st1_eq: "st\<lparr>w_overflow := w_overflow st1, w_overflow_len := ?len\<rparr> = st1" by (simp add: st1_def)
  have nxt: "(if memchr rest 10 = Some ?n then tl (drop ?n rest) else drop ?n rest) = after_copy c ov rest"
    by (simp add: ends after_copy_def drop_Suc tl_drop)
  have "writer_block ctx rest st =
      (if memchr rest 10 \<noteq> None \<or> ?len = wr_chunk_size ctx
       then (case writer_emit ctx (ov @ take ?n rest) st1 of
               None \<Rightarrow> None
             | Some (err, st2) \<Rightarrow>
                 if err \<noteq> Some JP_OK then Some (err, st2)
                 else writer_block ctx (after_copy c ov rest) (st2\<lparr>w_overflow_len := 0\<rparr>))
       else writer_block ctx (drop ?n rest) st1)"
    by (subst writer_block.simps) (simp only: Let_def cp rest pos copy option.case st1_eq first nxt simp_thms if_False if_True)
  then have "writer_block ctx rest st =
      (if flushes c ov rest
       then (case writer_emit ctx (ov @ take ?n rest) st1 of
               None \<Rightarrow> None
             | Some (err, st2) \<Rightarrow>
                 if err \<noteq> Some JP_OK then Some (err, st2)
                 else writer_block ctx (after_copy c ov rest) (st2\<lparr>w_overflow_len := 0\<rparr>))
       else writer_block ctx (drop ?n rest) st1)"
    by (simp only: full flushes_def) (simp add: delim)
  with held show ?thesis by (intro exI [of _ st1]) (simp add: st1_def)
qed

lemma overflow_holds_Nil:
  "length (w_overflow st) = c \<Longrightarrow> overflow_holds c (st\<lparr>w_overflow_len := 0\<rparr>) []"
  by (simp add: overflow_holds_def)

lemma overflow_holds_same:
  "overflow_holds c st ov \<Longrightarrow> same_overflow st st' \<Longrightarrow> overflow_holds c st' ov"
  by (simp add: overflow_holds_def same_overflow_def)

lemma overflow_len_zero: "overflow_holds (chunk_of ctx) st [] \<Longrightarrow> w_overflow_len st = 0"
  by (simp add: overflow_holds_def)

text \<open>
  One block: the records of its pieces are written, as many as the kernel serves. When these are all of them,
  the unfinished line is kept.
\<close>

definition block_result ::
  "jp_writer_ctx \<Rightarrow> nat \<Rightarrow> raised option \<Rightarrow> (byte list \<times> bool) list \<Rightarrow> byte list \<Rightarrow> writer_state \<Rightarrow> jp_errno option \<Rightarrow> writer_state \<Rightarrow> bool"
where
  "block_result ctx k f ps r st err st' \<longleftrightarrow>
     state_ok ctx st' \<and> w_out st' = w_out st @ records_text ctx (take k ps) \<and> w_commits st' = w_commits st \<and>
     (if length ps \<le> k
      then err = Some JP_OK \<and> overflow_holds (chunk_of ctx) st' r \<and> kernel_serves ctx (k - length ps) f st' \<and>
           w_raised st' = w_raised st
      else err = stopped f \<and> w_raised st' = w_raised st @ raised_by f)"

text \<open>One record more in front.\<close>

lemma block_result_Cons:
  assumes "block_result ctx n f qs r st2 err st'" "w_out st2 = w_out st @ record_text (wr_fields ctx) msg"
    and "w_raised st2 = w_raised st" "w_commits st2 = w_commits st"
  shows "block_result ctx (Suc n) f ((msg, b) # qs) r st err st'"
  using assms by (auto simp: block_result_def records_text_def)

text \<open>A record that is not written ends the loop.\<close>

lemma block_result_stopped:
  assumes "state_ok ctx st'" "same_overflow st st'" "w_out st' = w_out st" "w_raised st' = w_raised st @ raised_by f"
  shows "block_result ctx 0 f (p # qs) r st (stopped f) st'"
  using assms by (simp add: block_result_def records_text_def same_overflow_def)

lemma block_result_same:
  assumes "block_result ctx k f ps r st1 err st'" "w_out st1 = w_out st" "w_raised st1 = w_raised st"
    "w_commits st1 = w_commits st"
  shows "block_result ctx k f ps r st err st'"
  using assms by (simp add: block_result_def)

lemma writer_block_records:
  "ctx_ok ctx \<Longrightarrow> state_ok ctx st \<Longrightarrow> overflow_holds (chunk_of ctx) st ov \<Longrightarrow> length rest \<le> chunk_of ctx \<Longrightarrow>
   split_block (chunk_of ctx) ov rest = (ps, r) \<Longrightarrow> kernel_serves ctx k f st \<Longrightarrow>
   \<exists>err st'. writer_block ctx rest st = Some (err, st') \<and> block_result ctx k f ps r st err st'"
proof (induction ov rest arbitrary: st ps k rule: split_block_induct [of _ "chunk_of ctx"])
  case (empty ov)
  then show ?case by (simp add: split_block_eqs writer_block.simps records_text_def block_result_def)
next
  case (flush ov rest)
  let ?c = "chunk_of ctx" and ?msg = "ov @ take (copied (chunk_of ctx) ov rest) rest"
  obtain qs where q: "split_block ?c [] (after_copy ?c ov rest) = (qs, r)"
    and ps: "ps = (?msg, line_ends ?c ov rest) # qs"
    using flush by (auto simp: split_block_eqs split: prod.splits)
  obtain st1 where st1: "overflow_holds ?c st1 ?msg"
    "st1 = st\<lparr>w_overflow := w_overflow st1, w_overflow_len := w_overflow_len st1\<rparr>"
    "writer_block ctx rest st =
       (case writer_emit ctx ?msg st1 of None \<Rightarrow> None
        | Some (err, st2) \<Rightarrow>
            if err \<noteq> Some JP_OK then Some (err, st2)
            else writer_block ctx (after_copy ?c ov rest) (st2\<lparr>w_overflow_len := 0\<rparr>))"
    using writer_block_overflow [OF flush.prems(3) flush.hyps(2,1)] flush.hyps(3) by auto
  have same: "w_mem st1 = w_mem st" "w_iov st1 = w_iov st" "w_kernel st1 = w_kernel st" "w_out st1 = w_out st"
    "w_commits st1 = w_commits st" "w_errno st1 = w_errno st" "w_raised st1 = w_raised st"
    by (subst st1(2), simp)+
  have "state_ok ctx st1" using flush.prems(2) by (simp add: state_ok_def vector_holds_def same)
  moreover have "length ?msg \<le> ?c" using st1(1) by (simp add: overflow_holds_def)
  moreover have "kernel_serves ctx k f st1" using flush.prems(6) by (simp add: kernel_serves_def same)
  ultimately obtain st2 where st2: "state_ok ctx st2" "same_overflow st1 st2"
    "case k of
        Suc n \<Rightarrow> writer_emit ctx ?msg st1 = Some (Some JP_OK, st2) \<and> kernel_serves ctx n f st2 \<and>
          w_out st2 = w_out st1 @ record_text (wr_fields ctx) ?msg \<and> w_raised st2 = w_raised st1
      | 0 \<Rightarrow> writer_emit ctx ?msg st1 = Some (stopped f, st2) \<and> w_out st2 = w_out st1 \<and>
          w_raised st2 = w_raised st1 @ raised_by f"
    using writer_emit_record [OF flush.prems(1)] by blast
  show ?case
  proof (cases k)
    case 0
    from block_result_stopped [OF st2(1,2), of f] st2(3) 0 have "block_result ctx 0 f ps r st1 (stopped f) st2"
      by (simp add: ps)
    from block_result_same [OF this] st1(3) st2(3) 0 show ?thesis by (simp add: same)
  next
    case (Suc n)
    let ?st3 = "st2\<lparr>w_overflow_len := 0\<rparr>"
    have "overflow_holds ?c ?st3 []"
      using overflow_holds_same [OF st1(1) st2(2)] by (simp add: overflow_holds_def)
    moreover have "state_ok ctx ?st3" using st2(1) by (simp add: state_ok_def vector_holds_def)
    moreover have "length (after_copy ?c ov rest) \<le> ?c" using flush.prems(4) by (simp add: after_copy_def)
    moreover have "kernel_serves ctx n f ?st3" using st2(3) Suc by (simp add: kernel_serves_def)
    ultimately obtain err st' where run: "writer_block ctx (after_copy ?c ov rest) ?st3 = Some (err, st')"
      "block_result ctx n f qs r ?st3 err st'"
      using flush.IH [OF flush.prems(1), of ?st3 qs n] q by blast
    have "block_result ctx k f ps r st err st'"
      unfolding Suc ps
      by (rule block_result_Cons [OF run(2)]) (use st2(2,3) Suc same in \<open>simp_all add: same_overflow_def\<close>)
    with st1(3) st2(3) Suc run(1) show ?thesis by simp
  qed
next
  case (carry ov rest)
  let ?c = "chunk_of ctx" and ?msg = "ov @ take (copied (chunk_of ctx) ov rest) rest"
  obtain st1 where st1: "overflow_holds ?c st1 ?msg"
    "st1 = st\<lparr>w_overflow := w_overflow st1, w_overflow_len := w_overflow_len st1\<rparr>"
    "writer_block ctx rest st = writer_block ctx (drop (copied ?c ov rest) rest) st1"
    using writer_block_overflow [OF carry.prems(3) carry.hyps(2,1)] carry.hyps(3) by auto
  have same: "w_mem st1 = w_mem st" "w_iov st1 = w_iov st" "w_kernel st1 = w_kernel st" "w_out st1 = w_out st"
    "w_commits st1 = w_commits st" "w_errno st1 = w_errno st" "w_raised st1 = w_raised st"
    by (subst st1(2), simp)+
  have ok: "state_ok ctx st1" "kernel_serves ctx k f st1"
    using carry.prems(2,6) by (simp_all add: state_ok_def vector_holds_def kernel_serves_def same)
  have split: "split_block ?c ?msg (drop (copied ?c ov rest) rest) = (ps, r)"
    using carry.prems(5) carry.hyps by (simp add: split_block_eqs)
  have "length (drop (copied ?c ov rest) rest) \<le> ?c" using carry.prems(4) by simp
  from carry.IH [OF carry.prems(1) ok(1) st1(1) this split ok(2)] obtain err st' where
    "writer_block ctx (drop (copied ?c ov rest) rest) st1 = Some (err, st')" "block_result ctx k f ps r st1 err st'"
    by blast
  with st1(3) block_result_same [of ctx k f ps r st1 err st' st] same(4,5,7) show ?case by simp
next
  case (tail rest)
  let ?c = "chunk_of ctx"
  have len: "length (w_overflow st) = ?c" using tail.prems(3) by (simp add: overflow_holds_def)
  have "writer_block ctx rest st =
      Some (Some JP_OK, st\<lparr>w_overflow := rest @ drop (length rest) (w_overflow st), w_overflow_len := of_nat (length rest)\<rparr>)"
    using tail len overflow_len_zero [OF tail.prems(3)]
    by (subst writer_block.simps) (simp add: Let_def memchr_takeWhile buf_copy_def)
  with tail len show ?case
    by (simp add: split_block_eqs records_text_def overflow_holds_def state_ok_def vector_holds_def block_result_def
        kernel_serves_def)
next
  case (line rest)
  let ?c = "chunk_of ctx" and ?msg = "takeWhile (\<lambda>x. x \<noteq> 10) rest"
  obtain qs where q: "split_block ?c [] (drop (line_len rest + 1) rest) = (qs, r)"
    and ps: "ps = (?msg, True) # qs"
    using line by (auto simp: split_block_eqs split: prod.splits)
  have "length ?msg \<le> ?c" using line.prems(4) length_takeWhile_le [of "\<lambda>x. x \<noteq> 10" rest] by linarith
  from writer_emit_record [OF line.prems(1,2) this line.prems(6)] obtain st2 where st2: "state_ok ctx st2"
    "same_overflow st st2"
    "case k of
        Suc n \<Rightarrow> writer_emit ctx ?msg st = Some (Some JP_OK, st2) \<and> kernel_serves ctx n f st2 \<and>
          w_out st2 = w_out st @ record_text (wr_fields ctx) ?msg \<and> w_raised st2 = w_raised st
      | 0 \<Rightarrow> writer_emit ctx ?msg st = Some (stopped f, st2) \<and> w_out st2 = w_out st \<and>
          w_raised st2 = w_raised st @ raised_by f"
    by blast
  have run: "writer_block ctx rest st =
      (case writer_emit ctx ?msg st of None \<Rightarrow> None
       | Some (err, st) \<Rightarrow> if err \<noteq> Some JP_OK then Some (err, st) else writer_block ctx (drop (line_len rest + 1) rest) st)"
    using line.hyps overflow_len_zero [OF line.prems(3)]
    by (subst writer_block.simps) (auto simp: Let_def memchr_takeWhile takeWhile_eq_take [symmetric])
  show ?case
  proof (cases k)
    case 0
    with block_result_stopped [OF st2(1,2), of f] st2(3) run show ?thesis by (simp add: ps)
  next
    case (Suc n)
    then have more: "kernel_serves ctx n f st2" using st2(3) by simp
    have less: "length (drop (line_len rest + 1) rest) \<le> ?c" using line.prems(4) unfolding length_drop by linarith
    obtain err st' where next_run: "writer_block ctx (drop (line_len rest + 1) rest) st2 = Some (err, st')"
      "block_result ctx n f qs r st2 err st'"
      using line.IH [OF line.prems(1) st2(1) overflow_holds_same [OF line.prems(3) st2(2)] less q more] by blast
    have "block_result ctx k f ps r st err st'"
      unfolding Suc ps
      by (rule block_result_Cons [OF next_run(2)]) (use st2(2,3) Suc in \<open>simp_all add: same_overflow_def\<close>)
    with run st2(3) Suc next_run(1) show ?thesis by simp
  qed
qed

lemma writer_loop_records:
  "ctx_ok ctx \<Longrightarrow> state_ok ctx st \<Longrightarrow> overflow_holds (chunk_of ctx) st ov \<Longrightarrow>
   list_all (\<lambda>b. length b \<le> chunk_of ctx) blocks \<Longrightarrow>
   split_blocks (chunk_of ctx) ov blocks = (ps, r) \<Longrightarrow> kernel_serves ctx k f st \<Longrightarrow>
   \<exists>st'. state_ok ctx st' \<and> w_out st' = w_out st @ records_text ctx (take k ps) \<and>
     (if length ps \<le> k
      then writer_loop ctx (map Inr blocks @ [Inl e]) st = Some (Some e, st') \<and>
           w_commits st' = w_commits st + length blocks \<and> w_raised st' = w_raised st
      else writer_loop ctx (map Inr blocks @ [Inl e]) st = Some (stopped f, st') \<and>
           w_commits st' < w_commits st + length blocks \<and> w_raised st' = w_raised st @ raised_by f)"
proof (induction blocks arbitrary: st ov ps k)
  case Nil
  then show ?case by (simp add: records_text_def)
next
  case (Cons b bs)
  obtain ps1 r1 qs where s: "split_block (chunk_of ctx) ov b = (ps1, r1)"
    "split_blocks (chunk_of ctx) r1 bs = (qs, r)" "ps = ps1 @ qs"
    using Cons.prems(5) by (auto split: prod.splits)
  have "length b \<le> chunk_of ctx" using Cons.prems(4) by simp
  with writer_block_records [OF Cons.prems(1-3) _ s(1) Cons.prems(6)]
  obtain err st1 where st1: "writer_block ctx b st = Some (err, st1)" "block_result ctx k f ps1 r1 st err st1"
    by blast
  show ?case
  proof (cases "length ps1 \<le> k")
    case False
    with st1 show ?thesis
      by (intro exI [of _ st1]) (simp add: block_result_def s(3))
  next
    case True
    let ?st2 = "st1\<lparr>w_commits := w_commits st1 + 1\<rparr>" and ?n = "k - length ps1"
    have ok: "state_ok ctx ?st2" "overflow_holds (chunk_of ctx) ?st2 r1" "kernel_serves ctx ?n f ?st2"
      using st1(2) True
      by (simp_all add: block_result_def state_ok_def vector_holds_def overflow_holds_def kernel_serves_def)
    have "list_all (\<lambda>b. length b \<le> chunk_of ctx) bs" using Cons.prems(4) by simp
    from Cons.IH [OF Cons.prems(1) ok(1,2) this s(2) ok(3)] obtain st' where
      "state_ok ctx st'" "w_out st' = w_out ?st2 @ records_text ctx (take ?n qs)"
      "if length qs \<le> ?n
       then writer_loop ctx (map Inr bs @ [Inl e]) ?st2 = Some (Some e, st') \<and>
            w_commits st' = w_commits ?st2 + length bs \<and> w_raised st' = w_raised ?st2
       else writer_loop ctx (map Inr bs @ [Inl e]) ?st2 = Some (stopped f, st') \<and>
            w_commits st' < w_commits ?st2 + length bs \<and> w_raised st' = w_raised ?st2 @ raised_by f"
      by blast
    moreover have "length ps \<le> k \<longleftrightarrow> length qs \<le> ?n" using True by (auto simp: s(3))
    ultimately show ?thesis
      using st1 True by (intro exI [of _ st']) (auto simp: block_result_def s(3) records_text_def)
  qed
qed

lemma jp_writer_produce_records:
  assumes ctx: "ctx_ok ctx" and blocks: "list_all (\<lambda>b. length b \<le> chunk_of ctx) blocks"
    and split: "split_blocks (chunk_of ctx) [] blocks = (ps, r)"
    and ks: "list_all (whole (max_len ctx)) ks" "serves stale ks = (k, f)"
  shows "\<exists>st. jp_writer_produce junk junk_len stale ctx (map Inr blocks @ [Inl e]) ks =
       Some (if length ps \<le> k then Some (if jp_queue_is_graceful_err e then JP_OK else e) else stopped f, st) \<and>
     w_out st = records_text ctx (take k ps) \<and> w_raised st = (if length ps \<le> k then [] else raised_by f) \<and>
     (length ps \<le> k \<longrightarrow> w_commits st = length blocks) \<and> (length ps \<le> k \<or> f \<noteq> None \<longrightarrow> w_finalized st)"
proof -
  let ?p = "pre (wr_fields ctx)" and ?q = "post (wr_fields ctx)"
  have enc: "wr_encoder ctx = enc" and fields: "fields_ok (wr_fields ctx)"
    using ctx by (simp_all add: ctx_ok_def)
  obtain a where a: "prefix_encoder enc junk (wr_fields ctx) = Some (a, length ?p)" "take (length ?p) a = ?p"
    using prefix_writes [OF fields] by blast
  obtain b where b: "postfix_encoder enc (wr_fields ctx) = (b, length ?q)" "take (length ?q) b = ?q"
    using postfix_writes by blast
  define st where "st = \<lparr>w_iov = [\<lparr>iov_obj = 0, iov_off = 0, iov_len = length ?p\<rparr>,
      \<lparr>iov_obj = 1, iov_off = 0, iov_len = junk_len\<rparr>, \<lparr>iov_obj = 2, iov_off = 0, iov_len = length ?q\<rparr>],
    w_mem = [a, malloc_bytes junk (escaping_mul enc * chunk_of ctx), b],
    w_overflow = malloc_bytes junk (chunk_of ctx), w_overflow_len = 0, w_kernel = ks, w_out = [],
    w_commits = 0, w_finalized = False, w_errno = stale, w_raised = []\<rparr>"
  have pos: "0 < escaping_mul enc * chunk_of ctx" "0 < chunk_of ctx"
    using ctx mul_pos by (simp_all add: ctx_ok_def)
  have st0: "w_out st = []" "w_raised st = []" "w_commits st = 0" by (simp_all add: st_def)
  have "state_ok ctx st" using a b by (simp add: state_ok_def vector_holds_def st_def)
  moreover have "overflow_holds (chunk_of ctx) st []" by (simp add: overflow_holds_def st_def)
  moreover have "kernel_serves ctx k f st" using ks by (simp add: kernel_serves_def st_def)
  ultimately obtain st' where st': "state_ok ctx st'" "w_out st' = records_text ctx (take k ps)"
    "if length ps \<le> k
     then writer_loop ctx (map Inr blocks @ [Inl e]) st = Some (Some e, st') \<and> w_commits st' = length blocks \<and>
       w_raised st' = []
     else writer_loop ctx (map Inr blocks @ [Inl e]) st = Some (stopped f, st') \<and> w_raised st' = raised_by f"
    using writer_loop_records [OF ctx _ _ blocks split, of st k f e] unfolding st0 by (auto split: if_splits)
  have off: "list_all (\<lambda>v. iov_off v = 0) (w_iov st')" using st'(1) by (auto simp: state_ok_def vector_holds_def)
  have run: "jp_writer_produce junk junk_len stale ctx (map Inr blocks @ [Inl e]) ks =
      (case writer_loop ctx (map Inr blocks @ [Inl e]) st of None \<Rightarrow> None
       | Some (err, st) \<Rightarrow>
           (case err of
              None \<Rightarrow> Some (None, st)
            | Some e \<Rightarrow>
                if list_all (\<lambda>v. iov_off v = 0) (w_iov st)
                then Some (Some (if jp_queue_is_graceful_err e then JP_OK else e), st\<lparr>w_finalized := True\<rparr>)
                else None))"
    unfolding jp_writer_produce_def Let_def enc buf_len [OF ctx, unfolded enc] a(1) b(1)
    by (simp add: st_def new_object_pos [OF pos(1)] new_object_pos [OF pos(2)] split: option.split)
  show ?thesis
  proof (cases "length ps \<le> k")
    case True
    with run st' off show ?thesis by (intro exI [of _ "st'\<lparr>w_finalized := True\<rparr>"]) simp
  next
    case False
    with run st' off show ?thesis
      by (cases f) (auto simp: stopped_def raised_by_def jp_queue_is_graceful_err_def)
  qed
qed

end

section \<open>What the writer raises\<close>

text \<open>Whatever the kernel does: an error is raised once, exactly when it is returned.\<close>

definition write_outcome :: "writer_state \<Rightarrow> jp_errno option \<Rightarrow> writer_state \<Rightarrow> bool" where
  "write_outcome st err st' \<longleftrightarrow> (\<exists>rs. w_raised st' = w_raised st @ rs \<and> write_raises err rs)"

lemma write_outcome_same: "w_raised st' = w_raised st \<Longrightarrow> write_outcome st (Some JP_OK) st'"
  by (simp add: write_outcome_def)

lemma write_outcome_update [simp]:
  "write_outcome (st\<lparr>w_overflow_len := x\<rparr>) = write_outcome st" "write_outcome (st\<lparr>w_overflow := b\<rparr>) = write_outcome st"
  "write_outcome (st\<lparr>w_commits := n\<rparr>) = write_outcome st"
  by (simp_all add: write_outcome_def fun_eq_iff)

lemma write_outcome_trans:
  "write_outcome st (Some JP_OK) st1 \<Longrightarrow> write_outcome st1 err st' \<Longrightarrow> write_outcome st err st'"
  by (auto simp: write_outcome_def)

lemma writer_emit_outcome: "writer_emit ctx msg st = Some (err, st') \<Longrightarrow> write_outcome st err st'"
  by (auto simp: writer_emit_def Let_def bind_eq_Some_conv jp_file_writev_def write_outcome_def
      dest: writev_loop_raises split: if_splits prod.splits)

lemma writer_block_outcome: "writer_block ctx rest st = Some (err, st') \<Longrightarrow> write_outcome st err st'"
proof (induction ctx rest st rule: writer_block.induct)
  case (1 ctx rest st)
  let ?d = "memchr rest 10"
  note run = "1.prems" [unfolded writer_block.simps [of ctx rest st] Let_def]
  show ?case
  proof (cases "rest = []")
    case True
    with run show ?thesis by (auto intro: write_outcome_same)
  next
    case rest: False
    show ?thesis
    proof (cases "w_overflow_len st > 0")
      case True
      let ?n = "min (case ?d of None \<Rightarrow> length rest | Some d \<Rightarrow> d) (unat (wr_chunk_size ctx - w_overflow_len st))"
      let ?len = "w_overflow_len st + word_of_nat ?n"
      obtain ov where copy: "buf_copy (w_overflow st) (unat (w_overflow_len st)) (take ?n rest) = Some ov"
        using run rest True by (simp split: option.splits)
      let ?st1 = "st\<lparr>w_overflow := ov, w_overflow_len := ?len\<rparr>"
      show ?thesis
      proof (cases "?d \<noteq> None \<or> ?len = wr_chunk_size ctx")
        case flush: True
        obtain e st2 where emit: "writer_emit ctx (take (unat ?len) ov) ?st1 = Some (e, st2)"
          and after: "(if e \<noteq> Some JP_OK then Some (e, st2) else
            writer_block ctx (if ?d = Some ?n then tl (drop ?n rest) else drop ?n rest) (st2\<lparr>w_overflow_len := 0\<rparr>)) =
              Some (err, st')"
        proof -
          have "(case writer_emit ctx (take (unat ?len) ov) ?st1 of None \<Rightarrow> None
              | Some (e, st2) \<Rightarrow> if e \<noteq> Some JP_OK then Some (e, st2) else
                  writer_block ctx (if ?d = Some ?n then tl (drop ?n rest) else drop ?n rest) (st2\<lparr>w_overflow_len := 0\<rparr>)) =
              Some (err, st')"
            using run rest True copy flush by (simp only: simp_thms if_True if_False option.case)
          then show thesis
            by (cases "writer_emit ctx (take (unat ?len) ov) ?st1") (simp, rename_tac a, case_tac a, simp only: option.case prod.case that)
        qed
        have "write_outcome st e st2" using writer_emit_outcome [OF emit] by (simp add: write_outcome_def)
        with after show ?thesis
          using "1.IH"(1) [OF rest refl True refl refl refl refl copy refl flush emit refl]
          by (cases "e = Some JP_OK") (auto intro: write_outcome_trans)
      next
        case carry: False
        then have "writer_block ctx (drop ?n rest) ?st1 = Some (err, st')"
          using run rest True copy by (simp only: simp_thms if_True if_False option.case)
        then have "write_outcome ?st1 err st'" by (rule "1.IH"(2) [OF rest refl True refl refl refl refl copy refl carry])
        then show ?thesis by (simp add: write_outcome_def)
      qed
    next
      case False
      show ?thesis
      proof (cases ?d)
        case None
        with run rest False show ?thesis by (auto split: option.splits intro: write_outcome_same)
      next
        case (Some d)
        then obtain e st2 where emit: "writer_emit ctx (take d rest) st = Some (e, st2)"
          and after: "(if e \<noteq> Some JP_OK then Some (e, st2) else writer_block ctx (drop (d + 1) rest) st2) = Some (err, st')"
          using run rest False by (auto split: option.splits prod.splits)
        from writer_emit_outcome [OF emit] after show ?thesis
          using "1.IH"(3) [OF rest refl False Some emit refl]
          by (cases "e = Some JP_OK") (auto intro: write_outcome_trans)
      qed
    qed
  qed
qed

lemma writer_loop_outcome:
  "writer_loop ctx pops st = Some (err, st') \<Longrightarrow> list_all (\<lambda>p. case p of Inl e \<Rightarrow> e = JP_ESHUTTING_DOWN | Inr b \<Rightarrow> True) pops \<Longrightarrow>
   write_outcome st (if err = Some JP_ESHUTTING_DOWN then Some JP_OK else err) st'"
proof (induction ctx pops st rule: writer_loop.induct)
  case (3 ctx block pops st)
  obtain e st1 where b: "writer_block ctx block st = Some (e, st1)" using "3.prems"(1) by (auto split: option.splits)
  note out = writer_block_outcome [OF b]
  show ?case
  proof (cases "e = Some JP_OK")
    case True
    with 3 b have "write_outcome (st1\<lparr>w_commits := w_commits st1 + 1\<rparr>) (if err = Some JP_ESHUTTING_DOWN then Some JP_OK else err) st'"
      by simp
    from write_outcome_trans [OF out [unfolded True] this [simplified write_outcome_update]] show ?thesis by simp
  next
    case False
    then have "err = e" "st' = st1" using "3.prems"(1) b by simp_all
    moreover have "e \<noteq> Some JP_ESHUTTING_DOWN" using out by (auto simp: write_outcome_def write_raises_def split: if_splits)
    ultimately show ?thesis using out by simp
  qed
qed (auto simp: write_outcome_def)

text \<open>The writer thread, over any kernel, as far as its behaviour is defined.\<close>

lemma writer_raises:
  assumes "jp_writer_produce junk junk_len stale ctx pops ks = Some (err, st)"
    and "list_all (\<lambda>p. case p of Inl e \<Rightarrow> e = JP_ESHUTTING_DOWN | Inr b \<Rightarrow> True) pops"
  shows "write_raises err (w_raised st) \<and> (err \<noteq> None \<longrightarrow> w_finalized st)"
proof -
  obtain e st0 st1 where run: "writer_loop ctx pops st0 = Some (e, st1)" "w_raised st0 = []"
    and last: "(case e of None \<Rightarrow> Some (None, st1) | Some e \<Rightarrow>
        if list_all (\<lambda>v. iov_off v = 0) (w_iov st1)
        then Some (Some (if jp_queue_is_graceful_err e then JP_OK else e), st1\<lparr>w_finalized := True\<rparr>) else None) = Some (err, st)"
  proof -
    obtain a n where a: "prefix_encoder (wr_encoder ctx) junk (wr_fields ctx) = Some (a, n)"
      using assms(1) by (auto simp: jp_writer_produce_def Let_def bind_eq_Some_conv)
    obtain b m where b: "postfix_encoder (wr_encoder ctx) (wr_fields ctx) = (b, m)" by (meson surj_pair)
    define st0 where "st0 =
       \<lparr>w_iov = [\<lparr>iov_obj = 0, iov_off = 0, iov_len = n\<rparr>, \<lparr>iov_obj = 1, iov_off = 0, iov_len = junk_len\<rparr>,
                 \<lparr>iov_obj = 2, iov_off = 0, iov_len = m\<rparr>],
        w_mem = [a, malloc_bytes junk (unat (wr_chunk_size ctx * of_nat (escaping_mul (wr_encoder ctx)))), b],
        w_overflow = malloc_bytes junk (unat (wr_chunk_size ctx)), w_overflow_len = 0, w_kernel = ks, w_out = [],
        w_commits = 0, w_finalized = False, w_errno = stale, w_raised = []\<rparr>"
    have "writer_loop ctx pops st0 \<bind> (\<lambda>(err, st). case err of None \<Rightarrow> Some (None, st)
        | Some e \<Rightarrow>
            if list_all (\<lambda>v. iov_off v = 0) (w_iov st)
            then Some (Some (if jp_queue_is_graceful_err e then JP_OK else e), st\<lparr>w_finalized := True\<rparr>) else None) =
        Some (err, st)"
      using assms(1) by (auto simp: jp_writer_produce_def Let_def a b st0_def bind_eq_Some_conv new_object_eq_Some)
    then obtain e st1 where run: "writer_loop ctx pops st0 = Some (e, st1)" and last:
      "(case e of None \<Rightarrow> Some (None, st1) | Some e \<Rightarrow>
          if list_all (\<lambda>v. iov_off v = 0) (w_iov st1)
          then Some (Some (if jp_queue_is_graceful_err e then JP_OK else e), st1\<lparr>w_finalized := True\<rparr>) else None) = Some (err, st)"
      by (auto simp: bind_eq_Some_conv)
    have "w_raised st0 = []" by (simp add: st0_def)
    from run this last show thesis by (rule that)
  qed
  from writer_loop_outcome [OF run(1) assms(2)] run(2)
  have "write_raises (if e = Some JP_ESHUTTING_DOWN then Some JP_OK else e) (w_raised st1)"
    by (simp add: write_outcome_def)
  with last show ?thesis
    by (cases e) (auto simp: jp_queue_is_graceful_err_def write_raises_def split: if_splits)
qed

section \<open>Properties\<close>

definition json_record :: "jp_field_set \<Rightarrow> byte list \<Rightarrow> byte list" where
  "json_record s msg = json_prefix (set_fields s) @ json_escape_all msg @ json_postfix"

definition json_writer_ctx :: "jp_writer_ctx \<Rightarrow> bool" where
  "json_writer_ctx ctx \<longleftrightarrow> wr_encoder ctx = jp_encoder_json \<and> json_fields_ok (wr_fields ctx) \<and>
     JP_CONF_CHUNK_SIZE_MIN \<le> unat (wr_chunk_size ctx) \<and> unat (wr_chunk_size ctx) \<le> JP_CONF_CHUNK_SIZE_MAX"

definition max_record :: "jp_writer_ctx \<Rightarrow> nat" where
  "max_record ctx = length (json_prefix (set_fields (wr_fields ctx))) + 6 * unat (wr_chunk_size ctx) + 3"

lemma json_ctx_ok: "json_writer_ctx ctx \<Longrightarrow> json.ctx_ok ctx"
  unfolding json.ctx_ok_def
  by (auto simp: json_writer_ctx_def json.ctx_ok_def jp_conf_defs jp_encoder_json_def JP_JSON_ESCAPE_MUL_def
      json_postfix_def)

lemma json_max_len: "json_writer_ctx ctx \<Longrightarrow> json.max_len ctx = max_record ctx"
  unfolding json.max_len_def
  by (simp add: max_record_def jp_encoder_json_def JP_JSON_ESCAPE_MUL_def json_postfix_def bytes_def)

lemma json_records_text: "json.records_text ctx ps = concat (map (\<lambda>p. json_record (wr_fields ctx) (fst p)) ps)"
  unfolding json.records_text_def json.record_text_def json_record_def ..

text \<open>The JSON encoder, with a kernel that takes each record at once.\<close>

lemma json_writer_records:
  assumes "json_writer_ctx ctx" "list_all (\<lambda>b. length b \<le> unat (wr_chunk_size ctx)) blocks"
    and "split_blocks (unat (wr_chunk_size ctx)) [] blocks = (ps, r)"
    and "list_all (takes_all (max_record ctx)) ks" "length ps \<le> accepts_count ks"
  shows "\<exists>st. jp_writer_produce junk junk_len stale ctx (map Inr blocks @ [Inl JP_ESHUTTING_DOWN]) ks =
                Some (Some JP_OK, st) \<and>
              w_out st = concat (map (\<lambda>p. json_record (wr_fields ctx) (fst p)) ps) \<and>
              w_commits st = length blocks \<and> w_finalized st \<and> w_raised st = []"
proof -
  have "0 < max_record ctx" by (simp add: max_record_def)
  note ks = takes_all_whole [OF assms(4) this, folded json_max_len [OF assms(1)]]
  show ?thesis
    using json.jp_writer_produce_records [OF json_ctx_ok [OF assms(1)] assms(2,3) ks, of junk junk_len stale JP_ESHUTTING_DOWN]
      assms(5)
    by (auto simp: json_records_text jp_queue_is_graceful_err_def)
qed

text \<open>
  C11: The writer, with the JSON encoder, over any blocks no larger than the chunk size, until the queue
  shuts down, and with a kernel that takes each record at once, interruptions aside, and enough records: then every
  store, write and free is inside its object, the call returns success, and what has reached the output is exactly
  one record for each piece the blocks are cut into, in order; every block has been committed and
  the queue finalised. A write that takes a part of a record only is outside this property, and it can
  make the writer free a bad pointer: see \<open>writer_partial_write_frees_interior_pointer\<close>.
\<close>

theorem writer_writes_records:
  assumes "json_writer_ctx ctx" "list_all (\<lambda>b. length b \<le> unat (wr_chunk_size ctx)) blocks"
    and "split_blocks (unat (wr_chunk_size ctx)) [] blocks = (ps, r)"
    and "list_all (takes_all (max_record ctx)) ks" "length ps \<le> accepts_count ks"
  shows "\<exists>st. jp_writer_produce junk junk_len stale ctx (map Inr blocks @ [Inl JP_ESHUTTING_DOWN]) ks =
                Some (Some JP_OK, st) \<and>
              w_out st = concat (map (\<lambda>p. json_record (wr_fields ctx) (fst p)) ps) \<and>
              w_commits st = length blocks \<and> w_finalized st"
  using json_writer_records [OF assms] by blast

definition example_ctx :: jp_writer_ctx where
  "example_ctx = \<lparr>wr_chunk_size = 1024, wr_output_dir = [], wr_fields = jp_field_set_create 32,
     wr_encoder = jp_encoder_json\<rparr>"

lemma example_ctx: "json_writer_ctx example_ctx" "max_record example_ctx = 6154"
  by (simp_all add: json_writer_ctx_def example_ctx_def json_fields_ok_def set_ok_def jp_field_set_create_def
      set_assoc_def jp_conf_defs max_record_def json_prefix_def bytes_def)

theorem writer_writes_records_witness:
  "\<exists>st. jp_writer_produce (\<lambda>_. []) 0 0 example_ctx [Inr (bytes ''ab''), Inr (bytes ''c'' @ [10]), Inl JP_ESHUTTING_DOWN]
          [Accepts 7000] = Some (Some JP_OK, st) \<and>
        w_out st = json_record (jp_field_set_create 32) (bytes ''abc'')"
proof -
  let ?bs = "[bytes ''ab'', bytes ''c'' @ [10]]"
  have s: "split_blocks (unat (wr_chunk_size example_ctx)) [] ?bs = ([(bytes ''abc'', True)], [])"
    by (simp add: example_ctx_def bytes_def split_block.simps)
  have "list_all (\<lambda>b. length b \<le> unat (wr_chunk_size example_ctx)) ?bs"
    "list_all (takes_all (max_record example_ctx)) [Accepts 7000]"
    by (simp_all add: example_ctx(2) takes_all_def) (simp add: example_ctx_def bytes_def)
  from writer_writes_records [OF example_ctx(1) this(1) s this(2), of "\<lambda>_. []" 0 0] show ?thesis
    by (auto simp: example_ctx_def)
qed

text \<open>
  Cutting loses and invents nothing. For any blocks no larger than the chunk size, the pieces,
  each followed by a newline where it ended with one, and then the unfinished line give back the
  blocks' bytes in order; no piece holds a newline or is longer than the chunk size.
\<close>

theorem writer_pieces_conserve_bytes:
  assumes "split_blocks (unat (wr_chunk_size ctx)) [] blocks = (ps, r)"
    and "list_all (\<lambda>b. length b \<le> unat (wr_chunk_size ctx)) blocks"
  shows "concat blocks = concat (map piece_bytes ps) @ r \<and>
         list_all (\<lambda>p. 10 \<notin> set (fst p) \<and> length (fst p) \<le> unat (wr_chunk_size ctx)) ps \<and>
         10 \<notin> set r \<and> length r \<le> unat (wr_chunk_size ctx)"
  using split_blocks_conserves [OF assms(1)] split_blocks_pieces [OF assms(1) _ assms(2)]
  by (auto simp: piece_ok_def list_all_iff)


theorem writer_pieces_conserve_bytes_witness:
  "split_blocks (unat (wr_chunk_size example_ctx)) [] [[97, 10, 98]] = ([([97], True)], [98]) \<and>
   concat [[97, 10, 98]] = concat (map piece_bytes [([97], True)]) @ [98 :: byte]"
proof -
  have s: "split_blocks (unat (wr_chunk_size example_ctx)) [] [[97, 10, 98]] = ([([97], True)], [98])"
    by (simp add: example_ctx_def split_block.simps)
  have "list_all (\<lambda>b. length b \<le> unat (wr_chunk_size example_ctx)) [[97, 10, 98 :: byte]]"
    by (simp add: example_ctx_def)
  from writer_pieces_conserve_bytes [OF s this] s show ?thesis by blast
qed

lemma json_writer_lines:
  assumes "json_writer_ctx ctx" "list_all (\<lambda>b. length b \<le> unat (wr_chunk_size ctx)) blocks"
    and "lines_of [] (concat blocks) = (ls, r)"
    and "list_all (\<lambda>l. length l < unat (wr_chunk_size ctx)) ls" "length r < unat (wr_chunk_size ctx)"
    and "list_all (takes_all (max_record ctx)) ks" "length ls \<le> accepts_count ks"
  shows "\<exists>st. jp_writer_produce junk junk_len stale ctx (map Inr blocks @ [Inl JP_ESHUTTING_DOWN]) ks =
                Some (Some JP_OK, st) \<and>
              w_out st = concat (map (json_record (wr_fields ctx)) ls)"
proof -
  let ?c = "unat (wr_chunk_size ctx)"
  have c: "0 < ?c" using assms(1) by (simp add: json_writer_ctx_def jp_conf_defs)
  have split: "split_blocks ?c [] blocks = (map (\<lambda>l. (l, True)) ls, r)"
    using split_blocks_short [of ?c "[]" blocks] assms(3-5) c by (simp add: short_lines_def)
  from json_writer_records [OF assms(1,2) split assms(6), of junk junk_len stale] assms(7) show ?thesis
    by (auto simp: comp_def)
qed

text \<open>
  C7: Line by line. Let no block be larger than the chunk size, every line of the input be shorter than it, and the
  kernel take each record at once, interruptions aside, and enough records. Then the output is one
  record for each line that a newline ends, in order, and nothing else: it depends on the text only,
  and not on where the text is cut into blocks. The part after the last newline is not written. Without the kernel's
  part this does not hold: see \<open>writer_partial_write_frees_interior_pointer\<close>.
\<close>

theorem writer_writes_lines:
  assumes "json_writer_ctx ctx" "list_all (\<lambda>b. length b \<le> unat (wr_chunk_size ctx)) blocks"
    and "lines_of [] (concat blocks) = (ls, r)"
    and "list_all (\<lambda>l. length l < unat (wr_chunk_size ctx)) ls" "length r < unat (wr_chunk_size ctx)"
    and "list_all (takes_all (max_record ctx)) ks" "length ls \<le> accepts_count ks"
  shows "\<exists>st. jp_writer_produce junk junk_len stale ctx (map Inr blocks @ [Inl JP_ESHUTTING_DOWN]) ks =
                Some (Some JP_OK, st) \<and>
              w_out st = concat (map (json_record (wr_fields ctx)) ls)"
  by (rule json_writer_lines [OF assms])

theorem writer_writes_lines_witness:
  "\<exists>st. jp_writer_produce (\<lambda>_. []) 0 0 example_ctx [Inr [97, 10, 98], Inr [99, 10, 100], Inl JP_ESHUTTING_DOWN]
          [Accepts 7000, Write_Fails EINTR, Accepts 7000] = Some (Some JP_OK, st) \<and>
        w_out st = json_record (jp_field_set_create 32) [97] @ json_record (jp_field_set_create 32) [98, 99]"
proof -
  let ?bs = "[[97, 10, 98], [99, 10, 100 :: byte]]" and ?ks = "[Accepts 7000, Write_Fails EINTR, Accepts 7000]"
  have "list_all (\<lambda>b. length b \<le> unat (wr_chunk_size example_ctx)) ?bs" by (simp add: example_ctx_def)
  moreover have "lines_of [] (concat ?bs) = ([[97], [98, 99]], [100])" by simp
  moreover have "list_all (\<lambda>l. length l < unat (wr_chunk_size example_ctx)) [[97], [98, 99 :: byte]]"
    "length [100 :: byte] < unat (wr_chunk_size example_ctx)"
    by (simp_all add: example_ctx_def)
  moreover have "list_all (takes_all (max_record example_ctx)) ?ks" by (simp add: example_ctx(2) takes_all_def)
  ultimately show ?thesis
    using writer_writes_lines [OF example_ctx(1), of ?bs "[[97], [98, 99]]" "[100]" ?ks "\<lambda>_. []" 0 0]
    by (auto simp: example_ctx_def)
qed

lemma json_writer_fails:
  assumes "json_writer_ctx ctx" "list_all (\<lambda>b. length b \<le> unat (wr_chunk_size ctx)) blocks"
    and "split_blocks (unat (wr_chunk_size ctx)) [] blocks = (ps, r)"
    and "list_all (takes_all (max_record ctx)) ks" "accepts_count ks < length ps" "fails_with stale z = Some x"
  shows "\<exists>st. jp_writer_produce junk junk_len stale ctx (map Inr blocks @ [Inl e]) (ks @ [z]) = Some (Some JP_EWRITE_FAILED, st) \<and>
     w_out st = concat (map (\<lambda>p. json_record (wr_fields ctx) (fst p)) (take (accepts_count ks) ps)) \<and>
     w_raised st = [x] \<and> posix_failure JP_EWRITE_FAILED x \<and> w_finalized st"
proof -
  have "0 < max_record ctx" by (simp add: max_record_def)
  note k = serves_then_fails [OF assms(4) this assms(6), folded json_max_len [OF assms(1)]]
  from json.jp_writer_produce_records [OF json_ctx_ok [OF assms(1)] assms(2,3) k, of junk junk_len e]
    serves_failure [OF k(2)] assms(5)
  show ?thesis by (auto simp: json_records_text stopped_def raised_by_def)
qed

text \<open>
  C28: When the output fails, the writer says so and stops. Let the kernel take some records, each at once, and
  then fail, or take nothing. Then the output is exactly the records of the pieces before, in order; the call
  returns \<open>JP_EWRITE_FAILED\<close>, has raised exactly this error, with the code of the system call, and has finalised
  the queue.
\<close>

theorem writer_reports_write_failure:
  assumes "json_writer_ctx ctx" "list_all (\<lambda>b. length b \<le> unat (wr_chunk_size ctx)) blocks"
    and "split_blocks (unat (wr_chunk_size ctx)) [] blocks = (ps, r)"
    and "list_all (takes_all (max_record ctx)) ks" "accepts_count ks < length ps" "fails_with stale z = Some x"
  shows "\<exists>st. jp_writer_produce junk junk_len stale ctx (map Inr blocks @ [Inl e]) (ks @ [z]) = Some (Some JP_EWRITE_FAILED, st) \<and>
     w_out st = concat (map (\<lambda>p. json_record (wr_fields ctx) (fst p)) (take (accepts_count ks) ps)) \<and>
     w_raised st = [x] \<and> posix_failure JP_EWRITE_FAILED x \<and> w_finalized st"
  by (rule json_writer_fails [OF assms])

theorem writer_reports_write_failure_witness:
  "\<exists>st. jp_writer_produce (\<lambda>_. []) 0 0 example_ctx [Inr [97, 10, 98, 10], Inl JP_ESHUTTING_DOWN]
          [Accepts 7000, Write_Fails (Errno 32)] = Some (Some JP_EWRITE_FAILED, st) \<and>
        w_out st = json_record (jp_field_set_create 32) [97] \<and>
        w_raised st = [JP_ERRNO_RAISE_POSIX (bytes ''file.c'') 14 JP_EWRITE_FAILED 32]"
proof -
  have s: "split_blocks (unat (wr_chunk_size example_ctx)) [] [[97, 10, 98, 10]] = ([([97], True), ([98], True)], [])"
    by (simp add: example_ctx_def split_block.simps)
  have b: "list_all (\<lambda>b. length b \<le> unat (wr_chunk_size example_ctx)) [[97, 10, 98, 10 :: byte]]"
    by (simp add: example_ctx_def)
  have k: "list_all (takes_all (max_record example_ctx)) [Accepts 7000]" by (simp add: example_ctx(2) takes_all_def)
  have f: "fails_with 0 (Write_Fails (Errno 32)) = Some (JP_ERRNO_RAISE_POSIX (bytes ''file.c'') 14 JP_EWRITE_FAILED 32)"
    by (simp add: fails_with_def write_raise_def)
  from writer_reports_write_failure [OF example_ctx(1) b s k _ f, of "\<lambda>_. []" 0 JP_ESHUTTING_DOWN]
  show ?thesis by (auto simp: example_ctx_def)
qed

text \<open>
  An input that does not end with a newline loses its last line. For blocks that hold no newline
  and are together shorter than the chunk size, the writer commits every block and returns success,
  and has written nothing.
\<close>

theorem writer_loses_unterminated_line:
  assumes "json_writer_ctx ctx" "10 \<notin> set (concat blocks)" "length (concat blocks) < unat (wr_chunk_size ctx)"
  shows "\<exists>st. jp_writer_produce junk junk_len stale ctx (map Inr blocks @ [Inl JP_ESHUTTING_DOWN]) [] =
                Some (Some JP_OK, st) \<and> w_out st = [] \<and> w_commits st = length blocks"
proof -
  let ?c = "unat (wr_chunk_size ctx)"
  have c: "0 < ?c" using assms(1) by (simp add: json_writer_ctx_def jp_conf_defs)
  have "lines_of [] (concat blocks) = ([], concat blocks)" using assms(2) by (simp add: lines_of_no_newline)
  then have split: "split_blocks ?c [] blocks = ([], concat blocks)"
    using split_blocks_short [of ?c "[]" blocks] assms(3) c by (simp add: short_lines_def)
  have "list_all (\<lambda>b. length b \<le> ?c) blocks"
    unfolding list_all_iff
  proof
    fix b assume "b \<in> set blocks"
    then have "length b \<le> length (concat blocks)" by (simp add: length_concat member_le_sum_list)
    with assms(3) show "length b \<le> ?c" by simp
  qed
  from json_writer_records [OF assms(1) this split, of "[]" junk junk_len stale] show ?thesis by auto
qed

theorem writer_loses_unterminated_line_witness:
  "\<exists>st. jp_writer_produce (\<lambda>_. []) 0 0 example_ctx [Inr (bytes ''last line''), Inl JP_ESHUTTING_DOWN] [] =
          Some (Some JP_OK, st) \<and> w_out st = [] \<and> w_commits st = 1"
  using writer_loses_unterminated_line [OF example_ctx(1), of "[bytes ''last line'']" "\<lambda>_. []" 0 0]
  by (simp add: example_ctx_def bytes_def)

text \<open>
  A line of exactly the chunk size that a block boundary cuts becomes two records. When its last
  byte ends a block, the full overflow buffer is written at once, and the newline at the start of
  the next block is taken for an empty line: a second, empty record follows.
\<close>

theorem writer_full_line_gives_empty_record:
  assumes "10 \<notin> set (xs @ ys)" "xs \<noteq> []" "ys \<noteq> []" "length xs + length ys = unat (wr_chunk_size ctx)"
  shows "split_blocks (unat (wr_chunk_size ctx)) [] [xs, ys, [10]] = ([(xs @ ys, False), ([], True)], [])"
proof -
  let ?c = "unat (wr_chunk_size ctx)"
  have nl: "10 \<notin> set xs" "10 \<notin> set ys" using assms(1) by simp_all
  have c: "copied ?c xs ys = length ys" using assms(4) nl by (simp add: copied_def line_len_no_newline)
  have "split_block ?c xs ys = ([(xs @ ys, False)], [])"
    using assms nl c
    by (simp add: split_block_eqs(2) flushes_def after_copy_def line_ends_def split_block_eqs(1))
  then show ?thesis
    using assms(2) nl by (simp add: split_block_eqs(4)) (simp add: split_block.simps)
qed

theorem writer_full_line_gives_empty_record_witness:
  "split_blocks (unat (wr_chunk_size (example_ctx\<lparr>wr_chunk_size := 2\<rparr>))) [] [[97], [98], [10]] =
     ([([97, 98], False), ([], True)], [])"
  using writer_full_line_gives_empty_record [of "[97]" "[98]" "example_ctx\<lparr>wr_chunk_size := 2\<rparr>"] by simp

text \<open>
  C40: A partial write corrupts the writer. For every set of fields, when the kernel takes one byte of
  the first record at first and the rest in a second call, the record is written, but the vector no
  longer points to the start of the prefix, and the writer's clean-up frees a pointer into the
  middle of an object: undefined behaviour.
\<close>

theorem writer_partial_write_frees_interior_pointer:
  assumes "json_writer_ctx ctx" "max_record ctx \<le> n"
  shows "jp_writer_produce junk junk_len stale ctx [Inr [10], Inl JP_ESHUTTING_DOWN] [Accepts 1, Accepts n] = None"
proof -
  let ?p = "json_prefix (set_fields (wr_fields ctx))" and ?m = "escaping_mul jp_encoder_json * unat (wr_chunk_size ctx)"
  have enc: "wr_encoder ctx = jp_encoder_json" and fields: "json_fields_ok (wr_fields ctx)"
    using assms(1) by (simp_all add: json_writer_ctx_def)
  obtain a where a: "prefix_encoder jp_encoder_json junk (wr_fields ctx) = Some (a, length ?p)" "take (length ?p) a = ?p"
    using json.prefix_writes [OF fields] by blast
  obtain b where b: "postfix_encoder jp_encoder_json (wr_fields ctx) = (b, length json_postfix)"
    "take (length json_postfix) b = json_postfix"
    using json.postfix_writes by blast
  let ?e = "malloc_bytes junk ?m"
  let ?v = "\<lparr>iov_obj = 0, iov_off = 0, iov_len = length ?p\<rparr>"
  let ?vs = "[\<lparr>iov_obj = 1, iov_off = 0, iov_len = 0\<rparr>, \<lparr>iov_obj = 2, iov_off = 0, iov_len = length json_postfix\<rparr>]"
  have sizes: "length ?p \<le> length a" "length json_postfix \<le> length b"
    using arg_cong [OF a(2), of length] arg_cong [OF b(2), of length] by simp_all
  have val: "value_encoder jp_encoder_json [] ?e 0 (unat (wr_chunk_size ctx * of_nat (escaping_mul (wr_encoder ctx)))) =
      Some (0, ?e)"
    using json.value_writes [of "[]" ?e] json.buf_len [OF json_ctx_ok [OF assms(1)]] by (simp add: json_escape_all_def)
  have ok: "list_all (iov_ok [a, ?e, b]) (?v # ?vs)" using sizes by (simp add: iov_ok_def)
  have small: "length (iov_total [a, ?e, b] (?v # ?vs)) \<le> n"
    using assms(2) sizes by (simp add: iov_bytes_def max_record_def json_postfix_def bytes_def)
  have long: "1 < length ?p" by (simp add: json_prefix_def bytes_def)
  have pos: "0 < ?m" using json.mul_pos assms(1) by (simp add: json_writer_ctx_def jp_conf_defs)
  have three: "length (?v # ?vs) = 3" by simp
  have wr: "jp_file_writev stale [a, ?e, b] (?v # ?vs) 3 [Accepts 1, Accepts n] =
      (Some JP_OK, iov_total [a, ?e, b] (?v # ?vs), iov_advance 1 ?v # ?vs, [], [])"
    by (rule conjunct1 [OF jp_file_writev_partial [OF ok, of 1 n, unfolded three]])
      (use long small assms(2) in \<open>simp_all add: max_record_def del: iov_total_simps\<close>)
  show ?thesis
    unfolding jp_writer_produce_def Let_def enc a(1) b(1)
    using val ok wr enc json.buf_len [OF json_ctx_ok [OF assms(1)]] pos
    by (simp add: writer_block.simps writer_emit_def Let_def IOV_VEC_COUNT_def iov_advance_def)
qed

theorem writer_partial_write_frees_interior_pointer_witness:
  "jp_writer_produce (\<lambda>_. []) 0 0 example_ctx [Inr [10], Inl JP_ESHUTTING_DOWN] [Accepts 1, Accepts 7000] = None"
  using writer_partial_write_frees_interior_pointer [OF example_ctx(1), of 7000 "\<lambda>_. []" 0 0]
  by (simp add: example_ctx(2))

end
