(* ===== verification/JP_Pipeline.thy ===== *)
theory JP_Pipeline
  imports JP_Queue_Weak JP_Main JP_Reader JP_Writer_Lines
begin

text \<open>
  The thread functions of \<^verbatim>\<open>src/worker.c\<close> and the composition of the parts: what the reader thread takes
  from the input, what the queue passes on under every interleaving, and what the writer thread puts
  on the output.
\<close>

section \<open>The threads\<close>

definition reader_ctx_of :: "worker_ctx \<Rightarrow> jp_reader_ctx" where
  "reader_ctx_of args = \<lparr>rd_chunk_size = unat (wk_chunk_size args), rd_input_stream = wk_input_stream args\<rparr>"

definition writer_ctx_of :: "worker_ctx \<Rightarrow> jp_writer_ctx" where
  "writer_ctx_of args =
     \<lparr>wr_chunk_size = wk_chunk_size args,
      wr_output_dir = (case wk_out_dir args of Some d \<Rightarrow> d | None \<Rightarrow> []),
      wr_fields = wk_fields args, wr_encoder = jp_encoder_json\<rparr>"

text \<open>
  \<open>thread_cleanup\<close>: the queue after it, the row that is printed (\<^const>\<open>None\<close>: none) and the thread's error
  context after it. \<open>file\<close> and \<open>line\<close> are where the macro stands.
\<close>

definition thread_cleanup ::
  "bool \<Rightarrow> bool \<Rightarrow> (int \<Rightarrow> cstring) \<Rightarrow> (int \<Rightarrow> cstring) \<Rightarrow> buffer \<Rightarrow> cstring \<Rightarrow> int \<Rightarrow> jp_queue \<Rightarrow> global_errno_ctx
     \<Rightarrow> (jp_queue \<times> cstring option \<times> global_errno_ctx) option"
where
  "thread_cleanup apple no_color strerror mach_error_string stack0 file line q errno_ctx =
     do {
       let q = jp_queue_finalize q;
       row \<leftarrow> jp_errno_ctx_print apple no_color strerror mach_error_string stack0 errno_ctx;
       Some (q, row, snd (jp_errno_ctx_set JP_OK JP_ERRNO_SRC_NONE 0 file line errno_ctx))
     }"

text \<open>
  The end of a thread that has raised \<open>rs\<close>, in its own error context, which starts out clean.
\<close>

definition thread_end ::
  "bool \<Rightarrow> bool \<Rightarrow> (int \<Rightarrow> cstring) \<Rightarrow> (int \<Rightarrow> cstring) \<Rightarrow> buffer \<Rightarrow> raised list \<Rightarrow> jp_queue
     \<Rightarrow> (jp_queue \<times> cstring option \<times> global_errno_ctx) option"
where
  "thread_end apple no_color strerror mach_error_string stack0 rs q =
     do {
       ctx \<leftarrow> do_raises rs initial_errno_ctx;
       thread_cleanup apple no_color strerror mach_error_string stack0 (bytes ''worker.c'') 319 q ctx
     }"

text \<open>What the two threads return through \<^verbatim>\<open>pthread_exit\<close>, and their final states.\<close>

definition consumer_thread_init ::
  "worker_ctx \<Rightarrow> raised option \<Rightarrow> raised option \<Rightarrow> answer list \<Rightarrow> jp_errno list \<Rightarrow> sys_read list
     \<Rightarrow> (jp_errno option \<times> reader_state) option"
where
  "consumer_thread_init args create poll polls pushes reads =
     jp_reader_consume create poll (reader_ctx_of args) polls pushes reads"

definition producer_thread_init ::
  "(nat \<Rightarrow> buffer) \<Rightarrow> nat \<Rightarrow> 32 word \<Rightarrow> worker_ctx \<Rightarrow> (jp_errno + byte list) list \<Rightarrow> sys_write list
     \<Rightarrow> (jp_errno option \<times> writer_state) option"
where
  "producer_thread_init junk junk_len stale args pops ks = jp_writer_produce junk junk_len stale (writer_ctx_of args) pops ks"

text \<open>
  The watcher waits for the signals that the main thread has blocked: \<open>sigwait_result\<close> is 0 when one arrived, and
  then the queue is shut down.
\<close>

definition watched_signals :: "signal list" where
  "watched_signals = [SIGINT, SIGTERM]"

lemma watched_are_blocked: "set watched_signals = set blocked_signals"
  by (auto simp: watched_signals_def blocked_signals_def)

definition watcher_thread_init :: "int \<Rightarrow> jp_queue \<Rightarrow> jp_queue" where
  "watcher_thread_init sigwait_result q = (if sigwait_result = 0 then jp_queue_finalize q else q)"

section \<open>The contexts are in range\<close>

lemma reader_ctx_ready: "worker_ready w \<Longrightarrow> 0 < rd_chunk_size (reader_ctx_of w)"
  by (simp add: worker_ready_def worker_ok_def reader_ctx_of_def jp_conf_defs)

lemma writer_ctx_ready: "worker_ready w \<Longrightarrow> json_writer_ctx (writer_ctx_of w)"
  by (simp add: worker_ready_def worker_ok_def writer_ctx_of_def json_writer_ctx_def json_fields_ok_def)

lemma writer_ctx_of_simps [simp]:
  "wr_chunk_size (writer_ctx_of w) = wk_chunk_size w" "wr_fields (writer_ctx_of w) = wk_fields w"
  "wr_encoder (writer_ctx_of w) = jp_encoder_json"
  by (simp_all add: writer_ctx_of_def)

lemma rd_chunk_size_of [simp]: "rd_chunk_size (reader_ctx_of w) = unat (wk_chunk_size w)"
  by (simp add: reader_ctx_of_def)

section \<open>End to end\<close>

text \<open>An input that arrives in parts, with interruptions and pauses, and ends.\<close>

definition input_ends :: "answer list \<Rightarrow> jp_errno list \<Rightarrow> sys_read list \<Rightarrow> bool" where
  "input_ends polls pushes gs \<longleftrightarrow>
     list_all good_read gs \<and> list_all (\<lambda>e. e = JP_OK) pushes \<and> reads_size (gs @ [End_Of_Input]) \<le> length pushes \<and>
     list_all (\<lambda>a. a = Inr JP_OK \<or> a = Inr JP_ETRYAGAIN) polls \<and> pauses gs < count_list polls (Inr JP_OK)"

text \<open>The end of an execution of the queue's threads, under the memory orders of the code, that ends by itself.\<close>

definition ends_quietly :: "jp_queue \<Rightarrow> conc \<Rightarrow> bool" where
  "ends_quietly q c \<longleftrightarrow>
     (\<exists>w. weak_reach q w \<and> wc w = c) \<and> pcs c Reader = Done \<and> pcs c Writer = Done \<and> \<not> failed c \<and> \<not> signalled c"

lemma ends_quietly_delivers:
  assumes "ends_quietly q c" "queue_ok q" "queue_contents q = []" "q_active q"
  shows "got c = sent c"
  using assms weak_reach_inv quiet_end unfolding ends_quietly_def by blast

lemma ends_quietly_run:
  assumes "queue_ok q" "queue_contents q = []" "q_active q" "list_all (\<lambda>b. b \<noteq> [] \<and> length b \<le> qchunk q) bs"
  shows "\<exists>c. ends_quietly q c \<and> sent c = bs"
proof -
  obtain c where c: "conc_reach q c" "pcs c Reader = Done" "pcs c Writer = Done" "\<not> failed c" "\<not> signalled c" "sent c = bs"
    using run_all_blocks [OF assms] by blast
  with conc_reach_weak [OF c(1) assms(1-3)] show ?thesis unfolding ends_quietly_def by blast
qed

text \<open>
  C1: The whole pipe, when nothing goes wrong. Let the run have been set up, and let the input arrive in any parts, with any
  interruptions, pauses and poller timeouts, and end, each of its lines shorter than the chunk size; and let the queue
  accept every block, no signal arrive and no write fail.
  Then the reader thread returns success having committed blocks; there is an execution of the two
  threads over the queue with exactly these blocks that ends by itself; and in every such execution
  the writer thread, given what it gets from the queue and a standard output that takes each record
  at once, interruptions aside, returns success, and its output is one record for each line that a newline ends, in the
  order of the input, with the fields of the command line. What holds without these conditions is
  \<open>pipe_output_is_right_so_far\<close> in \<open>JP_Pipeline_Safe\<close>.
\<close>

theorem pipe_end_to_end:
  assumes ready: "worker_ready w" "wk_queue w = Some q"
    and input: "input_ends polls pushes gs" "lines_of [] (read_bytes gs) = (ls, r)"
    and short: "short_lines (unat (wk_chunk_size w)) (ls, r)"
    and out: "list_all (takes_all (max_record (writer_ctx_of w))) ks" "length ls \<le> accepts_count ks"
  shows "\<exists>st. consumer_thread_init w None None polls pushes (gs @ [End_Of_Input]) = Some (Some JP_OK, st) \<and>
     (\<exists>c. ends_quietly q c \<and> sent c = rd_committed st) \<and>
     (\<forall>c. ends_quietly q c \<and> sent c = rd_committed st \<longrightarrow>
        (\<exists>st'. producer_thread_init junk junk_len stale w (map Inr (got c) @ [Inl JP_ESHUTTING_DOWN]) ks = Some (Some JP_OK, st') \<and>
               w_out st' = concat (map (json_record (wk_fields w)) ls)))"
proof -
  let ?n = "unat (wk_chunk_size w)"
  have q: "queue_ok q" "queue_contents q = []" "q_active q" "qchunk q = ?n"
    using ready by (auto simp: worker_ready_def)
  obtain st where st: "jp_reader_consume None None (reader_ctx_of w) polls pushes (gs @ [End_Of_Input]) = Some (Some JP_OK, st)"
    "concat (rd_committed st) = read_bytes gs" "list_all (\<lambda>b. 0 < length b \<and> length b \<le> ?n) (rd_committed st)"
    using reader_end_of_input [OF reader_ctx_ready [OF ready(1)], of gs pushes polls] input(1)
    by (auto simp: input_ends_def)
  have fit: "list_all (\<lambda>b. b \<noteq> [] \<and> length b \<le> qchunk q) (rd_committed st)"
    "list_all (\<lambda>b. length b \<le> ?n) (rd_committed st)"
    using st(3) q(4) by (auto simp: list_all_iff)
  have "\<exists>c. ends_quietly q c \<and> sent c = rd_committed st"
    by (rule ends_quietly_run [OF q(1-3) fit(1)])
  moreover have "\<exists>st'. producer_thread_init junk junk_len stale w (map Inr (got c) @ [Inl JP_ESHUTTING_DOWN]) ks = Some (Some JP_OK, st') \<and>
      w_out st' = concat (map (json_record (wk_fields w)) ls)"
    if c: "ends_quietly q c" "sent c = rd_committed st" for c
  proof -
    have "got c = rd_committed st"
      using ends_quietly_delivers [OF c(1) q(1-3)] c(2) by simp
    then show ?thesis
      using json_writer_lines [OF writer_ctx_ready [OF ready(1)], of "rd_committed st" ls r ks junk junk_len stale]
        fit(2) st(2) input(2) short out
      by (simp add: producer_thread_init_def short_lines_def)
  qed
  ultimately show ?thesis using st(1) by (auto simp: consumer_thread_init_def)
qed

theorem pipe_end_to_end_witness:
  "\<exists>w q st c st'. worker_ready w \<and> wk_fields w = jp_field_set_create 32 \<and>
     consumer_thread_init w None None [Inr JP_OK, Inr JP_ETRYAGAIN, Inr JP_OK] (replicate 20 JP_OK)
       [Gives [97, 10, 98], Read_Fails EAGAIN, Gives [99, 10], End_Of_Input] = Some (Some JP_OK, st) \<and>
     ends_quietly q c \<and> sent c = rd_committed st \<and>
     producer_thread_init (\<lambda>_. []) 0 0 w (map Inr (got c) @ [Inl JP_ESHUTTING_DOWN]) [Accepts 200000, Accepts 200000] =
       Some (Some JP_OK, st') \<and>
     w_out st' = json_record (jp_field_set_create 32) [97] @ json_record (jp_field_set_create 32) [98, 99]"
proof -
  obtain q where q: "queue_ok q" "queue_contents q = []" "q_active q" "q_capacity q = 64" "q_chunk_size q = 16384"
    "q_policy q = JP_QUEUE_POLICY_WAIT"
    using jp_queue_create_conf [of 64 16384 640 16 "\<lambda>_. []" 0 0 0 JP_QUEUE_POLICY_WAIT] by (auto simp: jp_conf_defs)
  let ?w = "worker_defaults\<lparr>wk_queue := Some q, wk_out_dir := Some (bytes ''/'')\<rparr>"
  let ?gs = "[Gives [97, 10, 98], Read_Fails EAGAIN, Gives [99, 10]]" and ?ks = "[Accepts 200000, Accepts 200000]"
  have w: "worker_ready ?w" "wk_queue ?w = Some q" "wk_fields ?w = jp_field_set_create 32"
    using q worker_defaults_ok by (simp_all add: worker_ready_def worker_ok_def) (simp_all add: worker_defaults_def jp_conf_defs)
  have input: "input_ends [Inr JP_OK, Inr JP_ETRYAGAIN, Inr JP_OK] (replicate 20 JP_OK) ?gs"
    by (simp add: input_ends_def good_read_def jp_errno_eagain_def list_all_iff)
  have ls: "lines_of [] (read_bytes ?gs) = ([[97], [98, 99]], [])" by simp
  have short: "short_lines (unat (wk_chunk_size ?w)) ([[97], [98, 99]], [])"
    by (simp add: short_lines_def worker_defaults_def jp_conf_defs)
  have ks: "list_all (takes_all (max_record (writer_ctx_of ?w))) ?ks" "length [[97], [98, 99 :: byte]] \<le> accepts_count ?ks"
    by (simp_all add: takes_all_def max_record_def)
      (simp_all add: worker_defaults_def jp_conf_defs jp_field_set_create_def json_prefix_def bytes_def)
  from pipe_end_to_end [OF w(1,2) input ls short ks, of "\<lambda>_. []" 0 0] w(3)
  obtain st c st' where
    "consumer_thread_init ?w None None [Inr JP_OK, Inr JP_ETRYAGAIN, Inr JP_OK] (replicate 20 JP_OK) (?gs @ [End_Of_Input]) = Some (Some JP_OK, st)"
    "ends_quietly q c" "sent c = rd_committed st"
    "producer_thread_init (\<lambda>_. []) 0 0 ?w (map Inr (got c) @ [Inl JP_ESHUTTING_DOWN]) ?ks = Some (Some JP_OK, st')"
    "w_out st' = concat (map (json_record (wk_fields ?w)) [[97], [98, 99]])"
    by blast
  with w(1,3) show ?thesis
    by (intro exI [of _ ?w] exI [of _ q] exI [of _ st] exI [of _ c] exI [of _ st']) simp
qed

lemma thread_cleanup_prints:
  assumes "errno_ctx_ok ctx" "\<And>n. 0 \<notin> set (strerror n)" "\<And>n. 0 \<notin> set (mach_error_string n)"
    and "length stack0 = ERROR_ROW_MAX_LEN"
  shows "\<exists>q' ctx'. thread_cleanup apple no_color strerror mach_error_string stack0 file line q ctx =
       Some (q', if ctx_err ctx = JP_OK then None
                 else Some (errno_row apple no_color strerror mach_error_string ctx @ [10]), ctx') \<and>
     \<not> q_active q' \<and> queue_contents q' = queue_contents q \<and> queue_ok q' = queue_ok q \<and>
     jp_errno_ctx_print apple no_color strerror mach_error_string stack0 ctx' = Some None"
proof -
  have "jp_errno_ctx_print apple no_color strerror mach_error_string stack0 ctx =
      Some (if ctx_err ctx = JP_OK then None
            else Some (errno_row apple no_color strerror mach_error_string ctx @ [10]))"
    using errno_ctx_print_row [OF assms(1) _ assms(2,3,4)] by (simp add: jp_errno_ctx_print_def)
  moreover have "\<not> q_active (jp_queue_finalize q)" by (simp add: jp_queue_finalize_def)
  ultimately show ?thesis
    by (simp add: thread_cleanup_def jp_queue_finalize_ok jp_errno_ctx_set_def jp_errno_ctx_print_def)
qed

text \<open>
  The end of a thread. \<open>thread_cleanup\<close> shuts the queue down without touching what it holds, prints
  the thread's pending error, if there is one, as exactly one row, and leaves a context with which
  nothing more is printed.
\<close>

theorem thread_cleanup_correct:
  assumes "errno_ctx_ok ctx" "\<And>n. 0 \<notin> set (strerror n)" "\<And>n. 0 \<notin> set (mach_error_string n)"
    and "length stack0 = ERROR_ROW_MAX_LEN"
  shows "\<exists>q' ctx'. thread_cleanup apple no_color strerror mach_error_string stack0 file line q ctx =
       Some (q', if ctx_err ctx = JP_OK then None
                 else Some (errno_row apple no_color strerror mach_error_string ctx @ [10]), ctx') \<and>
     \<not> q_active q' \<and> queue_contents q' = queue_contents q \<and> queue_ok q' = queue_ok q \<and>
     jp_errno_ctx_print apple no_color strerror mach_error_string stack0 ctx' = Some None"
  by (rule thread_cleanup_prints [OF assms])

theorem thread_cleanup_correct_witness:
  "\<forall>q. \<exists>q' row ctx'.
     thread_cleanup False True (\<lambda>_. []) (\<lambda>_. []) (replicate 640 0) (bytes ''worker.c'') 319 q
       (snd (jp_errno_ctx_set JP_EREAD_FAILED JP_ERRNO_SRC_POSIX 5 (bytes ''reader.c'') 78 initial_errno_ctx)) =
     Some (q', Some row, ctx') \<and> \<not> q_active q'"
proof
  fix q
  let ?ctx = "snd (jp_errno_ctx_set JP_EREAD_FAILED JP_ERRNO_SRC_POSIX 5 (bytes ''reader.c'') 78 initial_errno_ctx)"
  have "errno_ctx_ok ?ctx"
    by (rule jp_errno_ctx_set_ok [OF initial_errno_ctx_ok]) (simp_all add: int32_def bytes_def)
  moreover have "ctx_err ?ctx \<noteq> JP_OK" by (simp add: jp_errno_ctx_set_def)
  moreover have "length (replicate 640 (0 :: byte)) = ERROR_ROW_MAX_LEN"
    by (simp add: ERROR_ROW_MAX_LEN_def ERROR_MSG_MAX_LEN_def)
  ultimately show "\<exists>q' row ctx'.
     thread_cleanup False True (\<lambda>_. []) (\<lambda>_. []) (replicate 640 0) (bytes ''worker.c'') 319 q ?ctx =
     Some (q', Some row, ctx') \<and> \<not> q_active q'"
    using thread_cleanup_correct [of ?ctx "\<lambda>_. []" "\<lambda>_. []" "replicate 640 0" False True "bytes ''worker.c''" 319 q]
    by auto
qed

text \<open>
  What a thread prints at its end: the row of the error it returns, with the code of the system call that failed,
  and nothing when it returns success.
\<close>

definition prints_its_error ::
  "bool \<Rightarrow> bool \<Rightarrow> (int \<Rightarrow> cstring) \<Rightarrow> (int \<Rightarrow> cstring) \<Rightarrow> buffer \<Rightarrow> jp_errno \<Rightarrow> raised list \<Rightarrow> jp_queue \<Rightarrow> bool"
where
  "prints_its_error apple no_color strerror mach_error_string stack0 err rs q \<longleftrightarrow>
     (\<exists>q' row ctx'. thread_end apple no_color strerror mach_error_string stack0 rs q = Some (q', row, ctx') \<and>
        \<not> q_active q' \<and> queue_contents q' = queue_contents q \<and>
        (if err = JP_OK then row = None
         else \<exists>ctx r. rs = [r] \<and> ctx_err ctx = err \<and> ctx_src ctx = JP_ERRNO_SRC_POSIX \<and> ctx_sys_err ctx = rs_sys r \<and>
                ctx_file ctx = rs_file r \<and> ctx_line ctx = rs_line r \<and>
                row = Some (errno_row apple no_color strerror mach_error_string ctx @ [10])))"

lemma thread_end_prints:
  assumes "err = JP_OK \<and> rs = [] \<or> err \<noteq> JP_OK \<and> (\<exists>r. rs = [r] \<and> posix_failure err r)"
    and "\<And>n. 0 \<notin> set (strerror n)" "\<And>n. 0 \<notin> set (mach_error_string n)" "length stack0 = ERROR_ROW_MAX_LEN"
  shows "prints_its_error apple no_color strerror mach_error_string stack0 err rs q"
proof -
  have "list_all raised_ok rs" using assms(1) by (auto simp: posix_failure_def)
  from do_raises_ok [OF initial_errno_ctx_ok this] obtain ctx where ctx: "do_raises rs initial_errno_ctx = Some ctx" "errno_ctx_ok ctx"
    "if rs = [] then ctx = initial_errno_ctx
     else ctx_err ctx = rs_err (last rs) \<and> ctx_src ctx = rs_src (last rs) \<and> ctx_sys_err ctx = rs_sys (last rs) \<and>
          ctx_file ctx = rs_file (last rs) \<and> ctx_line ctx = rs_line (last rs) \<and> cstr_of (ctx_stack ctx) = kept_message (last rs)"
    by blast
  have code: "ctx_err ctx = err"
    using ctx(3) assms(1) by (auto simp: posix_failure_def initial_errno_ctx_def split: if_splits)
  obtain q' ctx' where out: "thread_cleanup apple no_color strerror mach_error_string stack0 (bytes ''worker.c'') 319 q ctx =
       Some (q', if err = JP_OK then None
                 else Some (errno_row apple no_color strerror mach_error_string ctx @ [10]), ctx')"
    "\<not> q_active q'" "queue_contents q' = queue_contents q"
    using thread_cleanup_prints [where strerror = strerror and mach_error_string = mach_error_string, OF ctx(2) assms(2-4)]
    unfolding code by blast
  have "thread_end apple no_color strerror mach_error_string stack0 rs q =
      Some (q', if err = JP_OK then None else Some (errno_row apple no_color strerror mach_error_string ctx @ [10]), ctx')"
    by (simp add: thread_end_def ctx(1) out(1))
  with out(2,3) ctx(3) assms(1) code show ?thesis
    unfolding prints_its_error_def by (auto simp: posix_failure_def)
qed

text \<open>
  C27: A thread that fails says so. The reader thread, whatever the poller, the input and the queue answer, and the
  writer thread, for every output for which its behaviour is defined, when they return: the reader with success or
  \<open>JP_EREAD_FAILED\<close>, the writer with success or \<open>JP_EWRITE_FAILED\<close>. At its end the thread has shut the queue down,
  leaving what it holds, and with an error it has printed exactly one row, of that error, with the code of the system
  call that failed and the place where it was raised; with success it has printed nothing.
\<close>

theorem thread_errors_are_printed:
  assumes "worker_ready w" "list_all wait_answer polls" "list_all (\<lambda>e. e \<in> push_codes) pushes"
    and "pred_option read_failure create" "pred_option read_failure poll"
    and "list_all (\<lambda>p. case p of Inl e \<Rightarrow> e = JP_ESHUTTING_DOWN | Inr b \<Rightarrow> True) pops"
    and "\<And>n. 0 \<notin> set (strerror n)" "\<And>n. 0 \<notin> set (mach_error_string n)" "length stack0 = ERROR_ROW_MAX_LEN"
  shows "(\<exists>res st. consumer_thread_init w create poll polls pushes reads = Some (res, st) \<and>
      (\<forall>err. res = Some err \<longrightarrow> (err = JP_OK \<or> err = JP_EREAD_FAILED) \<and> rd_finalized st \<and>
         prints_its_error apple no_color strerror mach_error_string stack0 err (rd_raised st) q)) \<and>
    (producer_thread_init junk junk_len stale w pops ks = Some (Some err, st') \<longrightarrow>
       (err = JP_OK \<or> err = JP_EWRITE_FAILED) \<and> w_finalized st' \<and>
       prints_its_error apple no_color strerror mach_error_string stack0 err (w_raised st') q)"
proof (rule conjI)
  note ends = thread_end_prints [where strerror = strerror and mach_error_string = mach_error_string, OF _ assms(7-9)]
  obtain res st where run: "consumer_thread_init w create poll polls pushes reads = Some (res, st)"
    "res = None \<or> (res = Some JP_OK \<or> res = Some JP_EREAD_FAILED) \<and> rd_finalized st" "read_raises res (rd_raised st)"
    using reader_returns [OF reader_ctx_ready [OF assms(1)] assms(2-5), of reads] by (auto simp: consumer_thread_init_def)
  then show "\<exists>res st. consumer_thread_init w create poll polls pushes reads = Some (res, st) \<and>
      (\<forall>err. res = Some err \<longrightarrow> (err = JP_OK \<or> err = JP_EREAD_FAILED) \<and> rd_finalized st \<and>
         prints_its_error apple no_color strerror mach_error_string stack0 err (rd_raised st) q)"
    by (intro exI [of _ res] exI [of _ st]) (auto intro!: ends)
  show "producer_thread_init junk junk_len stale w pops ks = Some (Some err, st') \<longrightarrow>
      (err = JP_OK \<or> err = JP_EWRITE_FAILED) \<and> w_finalized st' \<and>
       prints_its_error apple no_color strerror mach_error_string stack0 err (w_raised st') q"
  proof
    assume "producer_thread_init junk junk_len stale w pops ks = Some (Some err, st')"
    then have "write_raises (Some err) (w_raised st')" "w_finalized st'"
      using writer_raises [OF _ assms(6)] by (auto simp: producer_thread_init_def)
    then show "(err = JP_OK \<or> err = JP_EWRITE_FAILED) \<and> w_finalized st' \<and>
       prints_its_error apple no_color strerror mach_error_string stack0 err (w_raised st') q"
      by (auto simp: write_raises_def split: if_splits intro!: ends)
  qed
qed

theorem thread_errors_are_printed_witness:
  "\<exists>w q st. worker_ready w \<and>
     consumer_thread_init w None None [Inr JP_OK] [JP_OK] [Read_Fails (Errno 5)] = Some (Some JP_EREAD_FAILED, st) \<and>
     prints_its_error False True (\<lambda>_. []) (\<lambda>_. []) (replicate 640 0) JP_EREAD_FAILED (rd_raised st) q"
proof -
  obtain q0 where q0: "queue_ok q0" "queue_contents q0 = []" "q_active q0" "q_capacity q0 = 64" "q_chunk_size q0 = 16384"
    "q_policy q0 = JP_QUEUE_POLICY_WAIT"
    using jp_queue_create_conf [of 64 16384 640 16 "\<lambda>_. []" 0 0 0 JP_QUEUE_POLICY_WAIT] by (auto simp: jp_conf_defs)
  let ?w = "worker_defaults\<lparr>wk_queue := Some q0, wk_out_dir := Some (bytes ''/'')\<rparr>"
  have w: "worker_ready ?w"
    using q0 worker_defaults_ok by (simp_all add: worker_ready_def worker_ok_def) (simp_all add: worker_defaults_def jp_conf_defs)
  have run: "\<exists>st. consumer_thread_init ?w None None [Inr JP_OK] [JP_OK] [Read_Fails (Errno 5)] = Some (Some JP_EREAD_FAILED, st)"
    by (simp add: consumer_thread_init_def worker_defaults_def jp_conf_defs jp_reader_consume_def raised_code_def note_raised_def Let_def reader_inner.simps
        inner_pass_def ask_block_def reader_start_def sys_read_call_def after_no_data_def jp_errno_eagain_def reader_clean_up_def
        jp_queue_is_graceful_err_def)
  have hyps: "list_all wait_answer [Inr JP_OK]" "list_all (\<lambda>e. e \<in> push_codes) [JP_OK]"
    "pred_option read_failure None" "list_all (\<lambda>p. case p of Inl e \<Rightarrow> e = JP_ESHUTTING_DOWN | Inr b \<Rightarrow> True) []"
    "length (replicate 640 (0 :: byte)) = ERROR_ROW_MAX_LEN"
    by (simp_all add: wait_answer_def push_codes_def ERROR_ROW_MAX_LEN_def ERROR_MSG_MAX_LEN_def)
  from thread_errors_are_printed [OF w hyps(1,2,3,3,4) _ _ hyps(5), of "\<lambda>_. []" "\<lambda>_. []" "[Read_Fails (Errno 5)]" False True q0]
    run w
  show ?thesis by fastforce
qed

end
