(* ===== verification/JP_Pipeline_Safe.thy ===== *)
theory JP_Pipeline_Safe
  imports JP_Pipeline
begin

text \<open>
  What the pipe guarantees at any moment of any execution: with signals, with messages dropped, with an output that
  fails, and before the end.
\<close>

section \<open>A part of the blocks gives a part of the records\<close>

lemma split_blocks_append:
  "split_blocks c ov (xs @ ys) =
     (case split_blocks c ov xs of (ps, r) \<Rightarrow> case split_blocks c r ys of (qs, r') \<Rightarrow> (ps @ qs, r'))"
  by (induction xs arbitrary: ov) (simp_all split: prod.split)

lemma json_writer_any:
  assumes "json_writer_ctx ctx" "list_all (\<lambda>b. length b \<le> unat (wr_chunk_size ctx)) blocks"
    and "split_blocks (unat (wr_chunk_size ctx)) [] blocks = (ps, r)" "list_all (whole (max_record ctx)) ks"
    and "serves stale ks = (k, f)"
  shows "\<exists>st. jp_writer_produce junk junk_len stale ctx (map Inr blocks @ [Inl JP_ESHUTTING_DOWN]) ks =
       Some (if length ps \<le> k then Some JP_OK else stopped f, st) \<and>
     w_out st = concat (map (\<lambda>p. json_record (wr_fields ctx) (fst p)) (take k ps)) \<and>
     w_raised st = (if length ps \<le> k then [] else raised_by f)"
proof -
  note ks = assms(4) [folded json_max_len [OF assms(1)]]
  from json.jp_writer_produce_records [OF json_ctx_ok [OF assms(1)] assms(2,3) ks assms(5), of junk junk_len JP_ESHUTTING_DOWN]
  show ?thesis by (auto simp: json_records_text jp_queue_is_graceful_err_def)
qed

section \<open>Properties\<close>

text \<open>
  C2: At any moment, whatever has happened, the output is right so far. Let the reader have run over any input, with
  any answers of the poller and of the queue, drops included; let the threads of the queue be anywhere in an execution
  under the memory orders of the code, with or without a signal, in which some of the reader's blocks have been
  committed; and let every call of the output take its record as a whole, be interrupted, or fail (an output that takes
  a part of a record is outside this property: see \<open>writer_partial_write_frees_interior_pointer\<close>). Then the writer, with
  the blocks that it has got, follows no bad pointer. The pieces of these blocks are the first pieces of the reader's
  blocks, and with \<open>k\<close> the number of records that the output takes before it fails, what has been written is exactly the
  records of the first \<open>k\<close> of these pieces, in order: all of them, and success, when it takes that many; otherwise, when
  the next call fails, \<open>JP_EWRITE_FAILED\<close>, raised once, with the code of the system call. The pieces with their newlines
  and the rest are the bytes that the reader committed, and the bytes that it took from the input are these, in order,
  shuffled with those dropped, and, unless it returned success, followed by what its block holds, less than a
  chunk. With lines shorter than the chunk size the pieces are the lines.
\<close>

theorem pipe_output_is_right_so_far:
  assumes ready: "worker_ready w" "wk_queue w = Some q"
    and answers: "list_all wait_answer polls" "list_all (\<lambda>e. e \<in> push_codes) pushes"
    and reader: "consumer_thread_init w None None polls pushes reads = Some (res, st)"
    and threads: "weak_reach q x" "sent (wc x) = take n (rd_committed st)"
    and taken: "list_all (whole (max_record (writer_ctx_of w))) ks" "serves stale ks = (k, f)"
    and pieces: "split_blocks (unat (wk_chunk_size w)) [] (rd_committed st) = (ps, r)"
    and received: "split_blocks (unat (wk_chunk_size w)) [] (got (wc x)) = (ps1, r1)"
  shows "(\<exists>rest. ps = ps1 @ rest) \<and>
     (\<exists>st'. producer_thread_init junk junk_len stale w (map Inr (got (wc x)) @ [Inl JP_ESHUTTING_DOWN]) ks =
          Some (if length ps1 \<le> k then Some JP_OK
                else case f of None \<Rightarrow> None | Some e \<Rightarrow> Some JP_EWRITE_FAILED, st') \<and>
        w_out st' = concat (map (\<lambda>p. json_record (wk_fields w) (fst p)) (take k ps1)) \<and>
        w_raised st' = (if length ps1 \<le> k then [] else case f of None \<Rightarrow> [] | Some e \<Rightarrow> [e])) \<and>
     (\<exists>used. read_bytes reads = used @ read_bytes (rd_reads st) \<and>
        used \<in> shuffles (concat (map piece_bytes ps) @ r @ (if res = Some JP_OK then [] else current st)) (rd_dropped st)) \<and>
     length (if res = Some JP_OK then [] else current st) < unat (wk_chunk_size w) \<and>
     (short_lines (unat (wk_chunk_size w)) (lines_of [] (concat (rd_committed st))) \<longrightarrow>
        map fst ps = fst (lines_of [] (concat (rd_committed st))))"
proof -
  let ?c = "unat (wk_chunk_size w)"
  have q: "queue_ok q" "queue_contents q = []" "q_active q"
    using ready by (auto simp: worker_ready_def)
  have c: "0 < ?c" using reader_ctx_ready [OF ready(1)] by simp
  obtain used where used: "read_bytes reads = used @ read_bytes (rd_reads st)"
    "used \<in> shuffles (concat (rd_committed st) @ kept_back res st) (rd_dropped st)" "length (kept_back res st) < ?c"
    and fit: "list_all (\<lambda>b. length b \<le> ?c) (rd_committed st)"
    using reader_accounts [OF reader_ctx_ready [OF ready(1)] answers, of reads] reader
    by (auto simp: consumer_thread_init_def list_all_iff)
  have bytes: "concat (rd_committed st) = concat (map piece_bytes ps) @ r"
    using split_blocks_conserves [OF pieces] by simp
  have "data_inv (wc x)" using weak_reach_inv [OF threads(1) q] by (simp add: conc_inv_def)
  from data_inv_fifo [OF this] obtain rest where "sent (wc x) = got (wc x) @ rest" by blast
  with threads(2) have "rd_committed st = got (wc x) @ rest @ drop n (rd_committed st)"
    by (metis append.assoc append_take_drop_id)
  then obtain more' where blocks: "rd_committed st = got (wc x) @ more'" by blast
  obtain ps2 r2 where last: "split_blocks ?c r1 more' = (ps2, r2)" by (cases "split_blocks ?c r1 more'")
  have ps: "ps = ps1 @ ps2" using pieces by (simp add: blocks split_blocks_append received last)
  have "list_all (\<lambda>b. length b \<le> unat (wr_chunk_size (writer_ctx_of w))) (got (wc x))"
    using fit by (simp add: blocks)
  from json_writer_any [OF writer_ctx_ready [OF ready(1)] this _ taken, of ps1 r1 junk junk_len] received
  have run: "\<exists>st'. producer_thread_init junk junk_len stale w (map Inr (got (wc x)) @ [Inl JP_ESHUTTING_DOWN]) ks =
          Some (if length ps1 \<le> k then Some JP_OK else stopped f, st') \<and>
        w_out st' = concat (map (\<lambda>p. json_record (wk_fields w) (fst p)) (take k ps1)) \<and>
        w_raised st' = (if length ps1 \<le> k then [] else raised_by f)"
    by (simp add: producer_thread_init_def)
  have lines: "map fst ps = fst (lines_of [] (concat (rd_committed st)))"
    if "short_lines ?c (lines_of [] (concat (rd_committed st)))"
    using split_blocks_short [OF that] c pieces by (simp add: comp_def)
  from used run lines ps show ?thesis
    unfolding bytes kept_back_def stopped_def raised_by_def append.assoc by blast
qed

lemma example_execution:
  "\<exists>w q st x. worker_ready w \<and> wk_queue w = Some q \<and> wk_fields w = jp_field_set_create 32 \<and>
     unat (wk_chunk_size w) = 16384 \<and> max_record (writer_ctx_of w) \<le> 200000 \<and>
     consumer_thread_init w None None [Inr JP_OK, Inr JP_OK] (replicate 20 JP_OK)
       [Gives [97, 10, 98], Read_Fails EAGAIN, Gives [99, 10], End_Of_Input] = Some (Some JP_OK, st) \<and>
     concat (rd_committed st) = [97, 10, 98, 99, 10] \<and> weak_reach q x \<and> sent (wc x) = rd_committed st \<and>
     got (wc x) = rd_committed st"
proof -
  obtain q where q: "queue_ok q" "queue_contents q = []" "q_active q" "q_capacity q = 64" "q_chunk_size q = 16384"
    "q_policy q = JP_QUEUE_POLICY_WAIT"
    using jp_queue_create_conf [of 64 16384 640 16 "\<lambda>_. []" 0 0 0 JP_QUEUE_POLICY_WAIT] by (auto simp: jp_conf_defs)
  let ?w = "worker_defaults\<lparr>wk_queue := Some q, wk_out_dir := Some (bytes ''/'')\<rparr>"
  let ?gs = "[Gives [97, 10, 98], Read_Fails EAGAIN, Gives [99, 10]]"
  have w: "worker_ready ?w" "wk_fields ?w = jp_field_set_create 32" "unat (wk_chunk_size ?w) = 16384"
    using q worker_defaults_ok by (simp_all add: worker_ready_def worker_ok_def) (simp_all add: worker_defaults_def jp_conf_defs)
  have m: "max_record (writer_ctx_of ?w) \<le> 200000"
    by (simp add: max_record_def) (simp add: worker_defaults_def jp_conf_defs jp_field_set_create_def json_prefix_def bytes_def)
  have good: "list_all good_read ?gs" "list_all (\<lambda>e. e = JP_OK) (replicate 20 JP_OK)"
    "reads_size (?gs @ [End_Of_Input]) \<le> length (replicate 20 JP_OK)"
    "list_all (\<lambda>a. a = Inr JP_OK \<or> a = Inr JP_ETRYAGAIN) [Inr JP_OK, Inr JP_OK]"
    "pauses ?gs < count_list [Inr JP_OK, Inr JP_OK] (Inr JP_OK :: answer)"
    by (simp_all add: good_read_def jp_errno_eagain_def list_all_iff)
  from reader_end_of_input [OF reader_ctx_ready [OF w(1)] good] obtain st where
    st: "consumer_thread_init ?w None None [Inr JP_OK, Inr JP_OK] (replicate 20 JP_OK) (?gs @ [End_Of_Input]) = Some (Some JP_OK, st)"
    "concat (rd_committed st) = read_bytes ?gs" "list_all (\<lambda>b. 0 < length b \<and> length b \<le> rd_chunk_size (reader_ctx_of ?w)) (rd_committed st)"
    unfolding consumer_thread_init_def by blast
  have fit: "list_all (\<lambda>b. b \<noteq> [] \<and> length b \<le> qchunk q) (rd_committed st)"
    using st(3) q(5) w(3) by (auto simp: list_all_iff)
  from ends_quietly_run [OF q(1-3) fit] obtain c where c: "ends_quietly q c" "sent c = rd_committed st" by blast
  moreover from ends_quietly_delivers [OF c(1) q(1-3)] c(2) have "got c = rd_committed st" by simp
  ultimately obtain x where "weak_reach q x" "sent (wc x) = rd_committed st" "got (wc x) = rd_committed st"
    by (auto simp: ends_quietly_def)
  with w m st(1,2) show ?thesis
    by (intro exI [of _ ?w] exI [of _ q] exI [of _ st] exI [of _ x]) simp
qed

theorem pipe_output_is_right_so_far_witness:
  "\<exists>w q st x st'. worker_ready w \<and> weak_reach q x \<and>
     consumer_thread_init w None None [Inr JP_OK, Inr JP_OK] (replicate 20 JP_OK)
       [Gives [97, 10, 98], Read_Fails EAGAIN, Gives [99, 10], End_Of_Input] = Some (Some JP_OK, st) \<and>
     producer_thread_init (\<lambda>_. []) 0 0 w (map Inr (got (wc x)) @ [Inl JP_ESHUTTING_DOWN])
       [Accepts 200000, Write_Fails (Errno 32)] = Some (Some JP_EWRITE_FAILED, st') \<and>
     w_out st' = json_record (jp_field_set_create 32) [97] \<and> length (w_raised st') = 1"
proof -
  let ?ks = "[Accepts 200000, Write_Fails (Errno 32)]"
  obtain w q st x where e: "worker_ready w" "wk_queue w = Some q" "wk_fields w = jp_field_set_create 32"
    "unat (wk_chunk_size w) = 16384" "max_record (writer_ctx_of w) \<le> 200000"
    "consumer_thread_init w None None [Inr JP_OK, Inr JP_OK] (replicate 20 JP_OK)
       [Gives [97, 10, 98], Read_Fails EAGAIN, Gives [99, 10], End_Of_Input] = Some (Some JP_OK, st)"
    "concat (rd_committed st) = [97, 10, 98, 99, 10]" "weak_reach q x" "sent (wc x) = rd_committed st"
    "got (wc x) = rd_committed st"
    using example_execution by blast
  obtain ps r where ps: "split_blocks (unat (wk_chunk_size w)) [] (rd_committed st) = (ps, r)"
    by (cases "split_blocks (unat (wk_chunk_size w)) [] (rd_committed st)")
  have answers: "list_all wait_answer [Inr JP_OK, Inr JP_OK]" "list_all (\<lambda>e. e \<in> push_codes) (replicate 20 JP_OK)"
    by (simp_all add: wait_answer_def push_codes_def list_all_iff)
  have sent: "sent (wc x) = take (length (rd_committed st)) (rd_committed st)" using e(9) by simp
  have kernel: "list_all (whole (max_record (writer_ctx_of w))) ?ks" "serves 0 ?ks = (1, Some (write_raise 14 32))"
    using e(5) by (simp_all add: whole_def)
  note main = pipe_output_is_right_so_far [OF e(1,2) answers e(6) e(8) sent kernel ps ps [folded e(10)], of "\<lambda>_. []" 0]
  have "short_lines (unat (wk_chunk_size w)) (lines_of [] (concat (rd_committed st)))"
    "fst (lines_of [] (concat (rd_committed st))) = [[97], [98, 99]]"
    unfolding e(4,7) by (simp_all add: short_lines_def)
  with main have "map fst ps = [[97], [98, 99]]" by simp
  then obtain b p where "ps = [([97], b), p]" by auto
  with main e(3) obtain st' where
    "producer_thread_init (\<lambda>_. []) 0 0 w (map Inr (got (wc x)) @ [Inl JP_ESHUTTING_DOWN]) ?ks = Some (Some JP_EWRITE_FAILED, st')"
    "w_out st' = json_record (jp_field_set_create 32) [97]" "length (w_raised st') = 1"
    by auto
  with e(1,6,8) show ?thesis by blast
qed

end
