(* ===== verification/JP_Reader_Wait.thy ===== *)
theory JP_Reader_Wait
  imports JP_Reader
begin

text \<open>
  When the reader waits. The input is registered with the poller edge-triggered: it reports bytes only when they
  arrive, so a reader that waits with bytes left unread, or read and kept, may wait although there is something to do.
\<close>

section \<open>The states in which the reader waits\<close>

fun waits_in :: "nat \<Rightarrow> answer list \<Rightarrow> reader_state \<Rightarrow> reader_state list" where
  "waits_in c [] st = [st]"
| "waits_in c (a # polls) st0 =
     st0 # (let st = note_raised (case a of Inl r \<Rightarrow> Some r | Inr _ \<Rightarrow> None) st0
            in if answer_code a = JP_EREAD_FAILED then []
               else if answer_code a = JP_ETRYAGAIN then waits_in c polls st
               else (case reader_inner c st of
                       Some (Break, st') \<Rightarrow> waits_in c polls st'
                     | _ \<Rightarrow> []))"

text \<open>
  These are the states of \<^const>\<open>reader_outer\<close> at its calls of the poller: the loop goes on from the state at each
  of its calls with the answers from there on, and it asks for no answer after the last.
\<close>

lemma reader_outer_from_wait:
  "i < length (waits_in c polls st) \<Longrightarrow>
   reader_outer c polls st = reader_outer c (drop i polls) (waits_in c polls st ! i)"
proof (induction c polls st arbitrary: i rule: waits_in.induct)
  case (1 c st)
  then show ?case by simp
next
  case (2 c a polls st0)
  show ?case
  proof (cases i)
    case 0
    then show ?thesis by simp
  next
    case (Suc j)
    with 2 show ?thesis by (auto simp: Let_def split: if_splits option.splits inner_exit.splits)
  qed
qed

lemma reader_outer_no_more_waits:
  "length (waits_in c polls st) \<le> length polls \<Longrightarrow>
   reader_outer c (take (length (waits_in c polls st)) polls @ others) st = reader_outer c polls st"
  by (induction c polls st rule: waits_in.induct)
    (auto simp: Let_def split: if_splits option.splits inner_exit.splits)

text \<open>Answers of \<^verbatim>\<open>read\<close> are taken in order, and of an answer at most a part of its bytes is left.\<close>

definition answered :: "sys_read list \<Rightarrow> sys_read \<Rightarrow> sys_read list \<Rightarrow> bool" where
  "answered reads r rest \<longleftrightarrow> (\<exists>before. reads = before @ r # rest)"

lemma answered_call:
  assumes "sys_read_call n reads = Some (r, rest)" "answered rest (Read_Fails e) tail"
  shows "answered reads (Read_Fails e) tail"
proof -
  obtain a rs where reads: "reads = a # rs" using assms(1) by (cases reads) (auto simp: sys_read_call_def)
  have "rest = rs \<or> (\<exists>bs. rest = Gives bs # rs)"
    using assms(1) by (auto simp: reads sys_read_call_def split: sys_read.splits if_splits)
  moreover obtain before where before: "rest = before @ Read_Fails e # tail" using assms(2) unfolding answered_def by blast
  ultimately have "answered rs (Read_Fails e) tail"
    unfolding answered_def by (cases before) auto
  then show ?thesis unfolding answered_def reads by (metis append_Cons)
qed

lemma inner_pass_break:
  assumes "inner_pass c st = Some (Some Break, st')" "reader_inv c reads st"
  shows "current st' = [] \<and> (\<exists>e. jp_errno_eagain e \<and> rd_reads st = Read_Fails e # rd_reads st')"
proof -
  obtain st1 where st1: "ask_block st = Some (False, st1)"
    using assms(1) by (auto simp: inner_pass_def split: option.splits prod.splits bool.splits)
  have cases1: "rd_queue_err st1 = JP_EMSG_SHOULD_DROP \<and> rd_block st1 = None \<or>
      rd_queue_err st1 = JP_OK \<and> (\<exists>b. rd_block st1 = Some b)"
    using ask_block_inv(3) [OF assms(2) st1] by simp
  from assms(1) st1 obtain n r reads' where call: "sys_read_call n (rd_reads st1) = Some (r, reads')"
    and last: "after_no_data r (st1\<lparr>rd_reads := reads'\<rparr>) = Some (Some Break, st')"
    by (auto simp: inner_pass_def Let_def split: option.splits prod.splits sum.splits if_splits)
  from last cases1 obtain e where e: "r = Inl e" "jp_errno_eagain e" "rd_reads st' = reads'" "current st' = []"
    by (auto simp: after_no_data_def commit_partial_def current_def split: sum.splits if_splits option.splits)
  from call e(1) have "rd_reads st1 = Read_Fails e # reads'"
    by (auto simp: sys_read_call_def split: list.splits sys_read.splits)
  with e(2-4) ask_block_reads [OF st1] show ?thesis by auto
qed

lemma reader_inner_break:
  "reader_inner c st = Some (Break, st') \<Longrightarrow> reader_inv c reads st \<Longrightarrow>
   current st' = [] \<and> (\<exists>e. jp_errno_eagain e \<and> answered (rd_reads st) (Read_Fails e) (rd_reads st'))"
proof (induction c st rule: reader_inner.induct)
  case (1 c st)
  obtain x st1 where p: "inner_pass c st = Some (x, st1)"
    "case x of None \<Rightarrow> reader_inv c reads st1 | Some e \<Rightarrow> exit_ok c reads e st1"
    using inner_pass_inv [OF "1.prems"(2)] by blast
  show ?case
  proof (cases x)
    case (Some e)
    with p(1) "1.prems"(1) have "inner_pass c st = Some (Some Break, st')" by (simp add: reader_inner.simps [of c st])
    from inner_pass_break [OF this "1.prems"(2)] show ?thesis unfolding answered_def by (metis append_Nil)
  next
    case None
    with p "1.prems"(1) have run: "reader_inner c st1 = Some (Break, st')" by (simp add: reader_inner.simps [of c st])
    obtain n r where "sys_read_call n (rd_reads st) = Some (r, rd_reads st1)"
      using inner_pass_call p(1) None by blast
    with "1.IH" [OF p(1) refl None run] p(2) None answered_call show ?thesis by fastforce
  qed
qed

text \<open>What the reader has in hand when it waits: nothing; and nothing was left in the input when it read last.\<close>

definition empty_handed :: "sys_read list \<Rightarrow> reader_state \<Rightarrow> bool" where
  "empty_handed reads st \<longleftrightarrow>
     accounts reads (concat (rd_committed st)) st \<and>
     (rd_reads st = reads \<or> (\<exists>e. jp_errno_eagain e \<and> answered reads (Read_Fails e) (rd_reads st)))"

lemma answered_trans: "answered reads a mid \<Longrightarrow> answered mid b rest \<Longrightarrow> answered reads b rest"
  unfolding answered_def by (metis append.assoc append_Cons)

lemma waits_in_empty_handed:
  "reader_inv c reads st \<Longrightarrow> empty_handed reads st \<Longrightarrow> list_all wait_answer polls \<Longrightarrow>
   list_all (empty_handed reads) (waits_in c polls st)"
proof (induction polls arbitrary: st)
  case Nil
  then show ?case by simp
next
  case (Cons a polls)
  have "list_all (empty_handed reads) (waits_in c polls st')" if run: "reader_inner c st = Some (Break, st')" for st'
  proof (rule Cons.IH)
    show inv: "reader_inv c reads st'"
      using reader_inner_inv [OF Cons.prems(1)] run by (auto simp: exit_ok_def)
    from reader_inner_break [OF run Cons.prems(1)] obtain e where
      e: "current st' = []" "jp_errno_eagain e" "answered (rd_reads st) (Read_Fails e) (rd_reads st')" by blast
    have "answered reads (Read_Fails e) (rd_reads st')"
      using Cons.prems(2) e(3) answered_trans unfolding empty_handed_def by metis
    with e inv show "empty_handed reads st'" unfolding empty_handed_def by (auto simp: reader_inv_def)
    show "list_all wait_answer polls" using Cons.prems(3) by simp
  qed
  note after_break = this
  show ?case
  proof (cases a)
    case (Inl r)
    with Cons.prems(2,3) show ?thesis by (simp add: wait_answer_def posix_failure_err)
  next
    case (Inr e)
    with Cons after_break show ?thesis by (auto simp: note_raised_def split: option.split inner_exit.split)
  qed
qed

section \<open>An input that never pauses\<close>

text \<open>What a descriptor answers that is not in non-blocking mode, as long as the input goes on.\<close>

definition never_pauses :: "sys_read \<Rightarrow> bool" where
  "never_pauses r \<longleftrightarrow>
     (case r of Gives bs \<Rightarrow> bs \<noteq> [] | End_Of_Input \<Rightarrow> False | Read_Fails e \<Rightarrow> \<not> jp_errno_eagain e)"

definition full_blocks :: "nat \<Rightarrow> reader_state \<Rightarrow> bool" where
  "full_blocks c st \<longleftrightarrow> list_all never_pauses (rd_reads st) \<and> list_all (\<lambda>b. length b = c) (rd_committed st)"

lemma never_pauses_call:
  "sys_read_call n reads = Some (r, rest) \<Longrightarrow> list_all never_pauses reads \<Longrightarrow> 0 < n \<Longrightarrow>
   list_all never_pauses rest \<and> (case r of Inl e \<Rightarrow> \<not> jp_errno_eagain e | Inr bs \<Rightarrow> bs \<noteq> [])"
  by (auto simp: sys_read_call_def never_pauses_def split: list.splits sys_read.splits if_splits)

lemma ask_block_full: "ask_block st = Some (s, st') \<Longrightarrow> full_blocks c st \<Longrightarrow> full_blocks c st'"
  by (auto simp: ask_block_def full_blocks_def split: option.splits list.splits)

lemma inner_pass_full:
  assumes "inner_pass c st = Some (x, st')" "full_blocks c st" "reader_inv c reads st"
  shows "full_blocks c st' \<and> x \<noteq> Some Break"
proof (cases "ask_block st")
  case None
  with assms show ?thesis by (auto simp: inner_pass_def)
next
  case (Some a)
  obtain s st1 where a: "ask_block st = Some (s, st1)" using Some by (cases a) simp
  have full: "full_blocks c st1" by (rule ask_block_full [OF a assms(2)])
  note ask = ask_block_inv [OF assms(3) a]
  have c: "length (current st1) < c" using ask(1) by (simp add: reader_inv_def)
  show ?thesis
  proof (cases s)
    case True
    with assms(1) a full show ?thesis by (auto simp: inner_pass_def)
  next
    case False
    let ?n = "if rd_queue_err st1 = JP_EMSG_SHOULD_DROP then c else c - length (current st1)"
    show ?thesis
    proof (cases "sys_read_call ?n (rd_reads st1)")
      case None
      with assms(1) a full False ask(3) [OF False] show ?thesis
        by (auto simp: inner_pass_def current_def split: if_splits)
    next
      case (Some y)
      then obtain r rs where call: "sys_read_call ?n (rd_reads st1) = Some (r, rs)" by (cases y) simp
      have "0 < ?n" using c by simp
      from never_pauses_call [OF call _ this] full
      have rs: "list_all never_pauses rs" "case r of Inl e \<Rightarrow> \<not> jp_errno_eagain e | Inr bs \<Rightarrow> bs \<noteq> []"
        by (simp_all add: full_blocks_def)
      with call assms(1) a full False ask(3) [OF False] show ?thesis
        by (cases r)
          (auto simp: inner_pass_def Let_def current_def full_blocks_def after_no_data_def split: if_splits)
    qed
  qed
qed

lemma reader_inner_full:
  "reader_inner c st = Some (x, st') \<Longrightarrow> full_blocks c st \<Longrightarrow> reader_inv c reads st \<Longrightarrow>
   full_blocks c st' \<and> x \<noteq> Break"
proof (induction c st rule: reader_inner.induct)
  case (1 c st)
  obtain y st1 where p: "inner_pass c st = Some (y, st1)"
    "case y of None \<Rightarrow> reader_inv c reads st1 | Some e \<Rightarrow> exit_ok c reads e st1"
    using inner_pass_inv [OF "1.prems"(3)] by blast
  note full = inner_pass_full [OF p(1) "1.prems"(2,3)]
  show ?case
  proof (cases y)
    case (Some e)
    with p(1) full "1.prems"(1) show ?thesis by (simp add: reader_inner.simps [of c st])
  next
    case None
    with p "1.prems"(1) have run: "reader_inner c st1 = Some (x, st')" by (simp add: reader_inner.simps [of c st])
    from "1.IH" [OF p(1) refl None run] full p(2) None show ?thesis by simp
  qed
qed

lemma reader_outer_full:
  "reader_outer c polls st = Some (err, st') \<Longrightarrow> full_blocks c st \<Longrightarrow> reader_inv c reads st \<Longrightarrow>
   list_all wait_answer polls \<Longrightarrow> full_blocks c st'"
proof (induction polls arbitrary: st)
  case Nil
  then show ?case by simp
next
  case (Cons a polls)
  consider r where "a = Inl r" "read_failure r" | "a = Inr JP_ETRYAGAIN" | (ready) "a = Inr JP_OK"
    using Cons.prems(4) by (cases a) (auto simp: wait_answer_def)
  then show ?case
  proof cases
    case 1
    with Cons.prems show ?thesis by (auto simp: note_raised_def full_blocks_def posix_failure_err)
  next
    case 2
    with Cons show ?thesis by (simp add: note_raised_def)
  next
    case ready
    obtain x st1 where x: "reader_inner c st = Some (x, st1)" using reader_inner_inv [OF Cons.prems(3)] by blast
    from reader_inner_full [OF x Cons.prems(2,3)] Cons.prems(1) ready x show ?thesis
      by (cases x) (auto simp: note_raised_def)
  qed
qed

section \<open>Properties\<close>

text \<open>
  C10: The reader never waits with work in hand. Whenever it calls the poller, however the poller, the queue and the
  input have answered, all that it has read has been committed to the queue or dropped, in the order of the input, and
  it has not yet read at all or the last that it heard from the input was that there is nothing more to read for now.
  This is what makes it right to register the input edge-triggered, as both pollers do.
\<close>

theorem reader_waits_empty_handed:
  assumes "0 < rd_chunk_size ctx" "list_all wait_answer polls" "list_all (\<lambda>e. e \<in> push_codes) pushes"
    and "st \<in> set (waits_in (rd_chunk_size ctx) polls (reader_start pushes reads))"
  shows "(\<exists>used. read_bytes reads = used @ read_bytes (rd_reads st) \<and>
            used \<in> shuffles (concat (rd_committed st)) (rd_dropped st)) \<and>
         (rd_reads st = reads \<or>
            (\<exists>before e. jp_errno_eagain e \<and> reads = before @ Read_Fails e # rd_reads st))"
proof -
  have "empty_handed reads (reader_start pushes reads)"
    by (simp add: empty_handed_def accounts_def reader_start_def)
  from waits_in_empty_handed [OF reader_start_inv [OF assms(1,3)] this assms(2)] assms(4)
  have "empty_handed reads st" by (auto simp: list_all_iff)
  then show ?thesis by (auto simp: empty_handed_def accounts_def answered_def)
qed

theorem reader_waits_empty_handed_witness:
  "\<exists>st \<in> set (waits_in 4 [Inr JP_OK] (reader_start [JP_OK] [Gives [97, 10], Read_Fails EAGAIN])).
     rd_committed st = [[97, 10]] \<and> rd_reads st = [] \<and>
     (\<exists>used. read_bytes [Gives [97, 10], Read_Fails EAGAIN] = used @ read_bytes (rd_reads st))"
proof -
  let ?reads = "[Gives [97, 10], Read_Fails EAGAIN]" and ?ctx = "\<lparr>rd_chunk_size = 4, rd_input_stream = 0\<rparr>"
  let ?states = "waits_in (rd_chunk_size ?ctx) [Inr JP_OK] (reader_start [JP_OK] ?reads)"
  have hyps: "0 < rd_chunk_size ?ctx" "list_all wait_answer [Inr JP_OK]" "list_all (\<lambda>e. e \<in> push_codes) [JP_OK]"
    by (simp_all add: wait_answer_def push_codes_def)
  obtain st where st: "st \<in> set ?states" "rd_committed st = [[97, 10]]" "rd_reads st = []"
    using that [of "\<lparr>rd_block = None, rd_queue_err = JP_OK, rd_pushes = [], rd_reads = [], rd_committed = [[97, 10]],
        rd_dropped = [], rd_finalized = False, rd_raised = []\<rparr>"]
    by (simp add: reader_start_def note_raised_def reader_inner.simps inner_pass_def ask_block_def sys_read_call_def
        after_no_data_def commit_partial_def Let_def jp_errno_eagain_def)
  from reader_waits_empty_handed [OF hyps st(1)] st show ?thesis by (intro bexI [of _ st]) auto
qed

text \<open>
  C37: An input that never pauses is passed on in full blocks only. As long as \<^verbatim>\<open>read\<close> gives bytes or is interrupted,
  which is all that it does for a descriptor that is not in non-blocking mode, every block that the reader has
  committed has exactly the size of a chunk: a line stays in the reader's block until the chunk is full or the input
  ends. The kqueue poller puts the input into non-blocking mode, the epoll poller does not.
\<close>

theorem reader_holds_back_blocking_input:
  assumes "0 < rd_chunk_size ctx" "list_all wait_answer polls" "list_all (\<lambda>e. e \<in> push_codes) pushes"
    and "list_all never_pauses reads" "jp_reader_consume None None ctx polls pushes reads = Some (err, st)"
  shows "list_all (\<lambda>b. length b = rd_chunk_size ctx) (rd_committed st)"
proof -
  have "full_blocks (rd_chunk_size ctx) (reader_start pushes reads)"
    using assms(4) by (simp add: full_blocks_def reader_start_def)
  note full = reader_outer_full [OF _ this reader_start_inv [OF assms(1,3)] assms(2)]
  from assms(1,5) show ?thesis
    by (auto simp: jp_reader_consume_def Let_def raised_code_def note_raised_def reader_clean_up_def full_blocks_def
        split: option.splits dest!: full)
qed

theorem reader_holds_back_blocking_input_witness:
  "\<exists>st. jp_reader_consume None None \<lparr>rd_chunk_size = 4, rd_input_stream = 0\<rparr> [Inr JP_OK] [JP_OK, JP_OK]
       [Gives [97, 10, 98, 10, 99, 10]] = Some (None, st) \<and> rd_committed st = [[97, 10, 98, 10]] \<and>
     list_all (\<lambda>b. length b = 4) (rd_committed st)"
proof -
  let ?ctx = "\<lparr>rd_chunk_size = 4, rd_input_stream = 0\<rparr>" and ?reads = "[Gives [97, 10, 98, 10, 99, 10]]"
  have hyps: "0 < rd_chunk_size ?ctx" "list_all wait_answer [Inr JP_OK]" "list_all (\<lambda>e. e \<in> push_codes) [JP_OK, JP_OK]"
    "list_all never_pauses ?reads"
    by (simp_all add: wait_answer_def push_codes_def never_pauses_def)
  obtain st where st: "jp_reader_consume None None ?ctx [Inr JP_OK] [JP_OK, JP_OK] ?reads = Some (None, st)"
    "rd_committed st = [[97, 10, 98, 10]]"
    by (simp add: jp_reader_consume_def raised_code_def note_raised_def Let_def reader_start_def reader_inner.simps
        inner_pass_def ask_block_def sys_read_call_def)
  from reader_holds_back_blocking_input [OF hyps st(1)] st show ?thesis by (intro exI [of _ st]) simp
qed

end
