(* ===== verification/JP_Field_Heap.thy ===== *)
theory JP_Field_Heap
  imports JP_Field
begin

text \<open>
  \<^verbatim>\<open>src/field.c\<close> once more, with the fields as objects on a heap: which object \<open>jp_field_set_add\<close> allocates,
  which it frees, and what \<open>jp_field_set_destroy\<close> frees. The address-level operations refine those of
  \<open>JP_Field\<close>. Following or freeing an address that is not live is \<^const>\<open>None\<close>.
\<close>

section \<open>Data\<close>

text \<open>The set object: its capacity and the addresses in its first \<open>len\<close> slots.\<close>

record heap_set =
  hs_cap :: nat
  hs_slots :: "nat list"

text \<open>The live field objects, the address the next allocation gets, and the set object while it is live.\<close>

record field_heap =
  fh_fields :: "nat \<rightharpoonup> jp_field"
  fh_next :: nat
  fh_set :: "heap_set option"

definition empty_heap :: field_heap where
  "empty_heap = \<lparr>fh_fields = Map.empty, fh_next = 0, fh_set = None\<rparr>"

section \<open>Operations\<close>

definition heap_alloc :: "jp_field \<Rightarrow> field_heap \<Rightarrow> nat \<times> field_heap" where
  "heap_alloc f h = (fh_next h, h\<lparr>fh_fields := (fh_fields h)(fh_next h \<mapsto> f), fh_next := fh_next h + 1\<rparr>)"

text \<open>\<^verbatim>\<open>free\<close> of an address that is not live is undefined.\<close>

definition heap_free :: "nat \<Rightarrow> field_heap \<Rightarrow> field_heap option" where
  "heap_free p h =
     (if fh_fields h p = None then None else Some (h\<lparr>fh_fields := (fh_fields h)(p := None)\<rparr>))"

definition heap_field_set_create :: "nat \<Rightarrow> field_heap \<Rightarrow> field_heap" where
  "heap_field_set_create cap h = h\<lparr>fh_set := Some \<lparr>hs_cap = cap, hs_slots = []\<rparr>\<rparr>"

text \<open>
  The loop of \<open>jp_field_set_add\<close>: the slots and the heap after a replacement, or \<^const>\<open>None\<close> inside when
  no slot has an equal key.
\<close>

fun heap_replace :: "jp_field \<Rightarrow> nat \<Rightarrow> field_heap \<Rightarrow> nat list \<Rightarrow> (nat list \<times> field_heap) option option" where
  "heap_replace new_field a h [] = Some None"
| "heap_replace new_field a h (p # ps) =
     (case fh_fields h p of
        None \<Rightarrow> None
      | Some field \<Rightarrow>
          if key_len field = key_len new_field \<and> field_key field = field_key new_field
          then map_option (\<lambda>h'. Some (a # ps, h')) (heap_free p h)
          else map_option (map_option (\<lambda>(qs, h'). (p # qs, h'))) (heap_replace new_field a h ps))"

definition heap_field_set_add :: "(nat \<Rightarrow> buffer) \<Rightarrow> field_heap \<Rightarrow> cstring \<Rightarrow> (jp_errno \<times> field_heap) option" where
  "heap_field_set_add junk h kv =
     do {
       s \<leftarrow> fh_set h;
       if length (hs_slots s) = hs_cap s then Some (JP_ETOO_MANY_FIELD, h)
       else do {
         (err, new_field) \<leftarrow> crete_field_from_kv junk kv;
         if err \<noteq> JP_OK then Some (err, h)
         else do {
           f \<leftarrow> new_field;
           let (a, h) = heap_alloc f h;
           r \<leftarrow> heap_replace f a h (hs_slots s);
           case r of
             Some (slots, h) \<Rightarrow> Some (JP_OK, h\<lparr>fh_set := Some (s\<lparr>hs_slots := slots\<rparr>)\<rparr>)
           | None \<Rightarrow>
               if length (hs_slots s) < hs_cap s
               then Some (JP_OK, h\<lparr>fh_set := Some (s\<lparr>hs_slots := hs_slots s @ [a]\<rparr>)\<rparr>)
               else None
         }
       }
     }"

fun heap_free_all :: "nat list \<Rightarrow> field_heap \<Rightarrow> field_heap option" where
  "heap_free_all [] h = Some h"
| "heap_free_all (p # ps) h = do { h \<leftarrow> heap_free p h; heap_free_all ps h }"

text \<open>\<open>present\<close>: the argument is not a null pointer.\<close>

definition jp_field_set_destroy :: "bool \<Rightarrow> field_heap \<Rightarrow> field_heap option" where
  "jp_field_set_destroy present h =
     (if \<not> present then Some h
      else do {
        s \<leftarrow> fh_set h;
        h \<leftarrow> heap_free_all (hs_slots s) h;
        Some (h\<lparr>fh_set := None\<rparr>)
      })"

section \<open>Ownership\<close>

text \<open>
  The set owns its fields: the slots hold different addresses, and the live fields are exactly those in
  the slots.
\<close>

definition owns :: "field_heap \<Rightarrow> nat list \<Rightarrow> bool" where
  "owns h ps \<longleftrightarrow> distinct ps \<and> dom (fh_fields h) = set ps \<and> (\<forall>p. p \<in> set ps \<longrightarrow> p < fh_next h)"

abbreviation field_at :: "field_heap \<Rightarrow> nat \<Rightarrow> jp_field" where
  "field_at h p \<equiv> the (fh_fields h p)"

definition set_of :: "field_heap \<Rightarrow> heap_set \<Rightarrow> jp_field_set" where
  "set_of h s = \<lparr>set_cap = hs_cap s, set_fields = map (field_at h) (hs_slots s)\<rparr>"

definition heap_holds :: "field_heap \<Rightarrow> jp_field_set \<Rightarrow> bool" where
  "heap_holds h s \<longleftrightarrow> (\<exists>t. fh_set h = Some t \<and> owns h (hs_slots t) \<and> set_of h t = s)"

text \<open>What the loop does, with the new field already allocated at an address that is in no slot.\<close>

lemma heap_replace_refines:
  assumes "distinct ps" "set ps \<subseteq> dom (fh_fields h)"
  shows "\<exists>r. heap_replace f a h ps = Some r \<and>
     (case replace_field f (map (field_at h) ps) of
        None \<Rightarrow> r = None
      | Some fs \<Rightarrow> (\<exists>i < length ps. r = Some (ps[i := a], h\<lparr>fh_fields := (fh_fields h)(ps ! i := None)\<rparr>) \<and>
                                   fs = (map (field_at h) ps)[i := f]))"
  using assms
proof (induction ps)
  case Nil
  then show ?case by simp
next
  case (Cons p ps)
  then obtain g where g: "fh_fields h p = Some g" by auto
  show ?case
  proof (cases "key_len g = key_len f \<and> field_key g = field_key f")
    case True
    then show ?thesis by (auto simp: g heap_free_def intro!: exI [of _ "0 :: nat"])
  next
    case False
    obtain r where r: "heap_replace f a h ps = Some r"
      "case replace_field f (map (field_at h) ps) of
         None \<Rightarrow> r = None
       | Some fs \<Rightarrow> (\<exists>i < length ps. r = Some (ps[i := a], h\<lparr>fh_fields := (fh_fields h)(ps ! i := None)\<rparr>) \<and>
                                    fs = (map (field_at h) ps)[i := f])"
      using Cons by auto
    show ?thesis
    proof (cases "replace_field f (map (field_at h) ps)")
      case None
      with r False g show ?thesis by auto
    next
      case (Some fs)
      with r(2) obtain i where i: "i < length ps" "r = Some (ps[i := a], h\<lparr>fh_fields := (fh_fields h)(ps ! i := None)\<rparr>)"
        "fs = (map (field_at h) ps)[i := f]" by auto
      then show ?thesis using r(1) Some False g by (auto intro!: exI [of _ "Suc i"])
    qed
  qed
qed

lemma owns_replace:
  fixes f :: jp_field
  assumes "owns h ps" "i < length ps"
  defines "h' \<equiv> h\<lparr>fh_fields := ((fh_fields h)(fh_next h \<mapsto> f))(ps ! i := None), fh_next := fh_next h + 1\<rparr>"
  shows "owns h' (ps[i := fh_next h])" "map (field_at h') (ps[i := fh_next h]) = (map (field_at h) ps)[i := f]"
proof -
  have fresh: "fh_next h \<notin> set ps" using assms(1) by (auto simp: owns_def)
  have i: "ps ! i \<in> set ps" "ps ! i \<noteq> fh_next h" using assms(2) fresh nth_mem by fastforce+
  have set: "set (ps[i := fh_next h]) = insert (fh_next h) (set ps - {ps ! i})"
    using assms by (intro set_update_distinct) (simp_all add: owns_def)
  show "owns h' (ps[i := fh_next h])"
    using assms(1) i fresh set by (auto simp: owns_def h'_def distinct_list_update less_Suc_eq)
  have "field_at h' (ps[i := fh_next h] ! j) = (map (field_at h) ps)[i := f] ! j" if "j < length ps" for j
  proof -
    have "ps ! j \<noteq> ps ! i" if "j \<noteq> i"
      using assms(1,2) \<open>j < length ps\<close> that by (simp add: owns_def nth_eq_iff_index_eq)
    moreover have "ps ! j \<noteq> fh_next h" using fresh \<open>j < length ps\<close> by (metis nth_mem)
    ultimately show ?thesis using i that by (cases "j = i") (simp_all add: h'_def)
  qed
  then show "map (field_at h') (ps[i := fh_next h]) = (map (field_at h) ps)[i := f]"
    by (intro nth_equalityI) simp_all
qed

lemma owns_append:
  fixes f :: jp_field
  assumes "owns h ps"
  defines "h' \<equiv> h\<lparr>fh_fields := (fh_fields h)(fh_next h \<mapsto> f), fh_next := fh_next h + 1\<rparr>"
  shows "owns h' (ps @ [fh_next h])" "map (field_at h') (ps @ [fh_next h]) = map (field_at h) ps @ [f]"
proof -
  have "fh_next h \<notin> set ps" using assms(1) by (auto simp: owns_def)
  then show "owns h' (ps @ [fh_next h])" "map (field_at h') (ps @ [fh_next h]) = map (field_at h) ps @ [f]"
    using assms(1) by (auto simp: owns_def h'_def less_Suc_eq)
qed

text \<open>A well-formed argument: the new field is allocated and put into a slot.\<close>

lemma heap_store_refines:
  assumes t: "fh_set h = Some t" "owns h (hs_slots t)" "length (hs_slots t) < hs_cap t"
    and f: "crete_field_from_kv junk kv = Some (JP_OK, Some f)"
    and s': "jp_field_set_add junk (set_of h t) kv = Some (e, s')"
  shows "\<exists>h'. heap_field_set_add junk h kv = Some (e, h') \<and> heap_holds h' s'"
proof -
  let ?ps = "hs_slots t"
  let ?h = "h\<lparr>fh_fields := (fh_fields h)(fh_next h \<mapsto> f), fh_next := fh_next h + 1\<rparr>"
  have "fh_next h \<notin> set ?ps" using t(2) by (auto simp: owns_def)
  then have same: "map (field_at ?h) ?ps = map (field_at h) ?ps" by auto
  obtain r where r: "heap_replace f (fh_next h) ?h ?ps = Some r"
    "case replace_field f (map (field_at h) ?ps) of
       None \<Rightarrow> r = None
     | Some fs \<Rightarrow> (\<exists>i < length ?ps. r = Some (?ps[i := fh_next h], ?h\<lparr>fh_fields := (fh_fields ?h)(?ps ! i := None)\<rparr>) \<and>
                                  fs = (map (field_at h) ?ps)[i := f])"
    using heap_replace_refines [of ?ps ?h f "fh_next h"] t(2) unfolding same by (auto simp: owns_def)
  show ?thesis
  proof (cases "replace_field f (map (field_at h) ?ps)")
    case None
    let ?h' = "?h\<lparr>fh_set := Some (t\<lparr>hs_slots := ?ps @ [fh_next h]\<rparr>)\<rparr>"
    have "heap_field_set_add junk h kv = Some (JP_OK, ?h')"
      using r None f t(1,3) by (simp add: heap_field_set_add_def heap_alloc_def)
    moreover have "e = JP_OK" "s' = \<lparr>set_cap = hs_cap t, set_fields = map (field_at h) ?ps @ [f]\<rparr>"
      using s' f t(3) None by (auto simp: jp_field_set_add_def set_of_def)
    ultimately show ?thesis
      using owns_append [OF t(2), of f] by (simp add: heap_holds_def set_of_def owns_def)
  next
    case (Some fs)
    with r(2) obtain i where i: "i < length ?ps"
      "r = Some (?ps[i := fh_next h], ?h\<lparr>fh_fields := (fh_fields ?h)(?ps ! i := None)\<rparr>)"
      "fs = (map (field_at h) ?ps)[i := f]" by auto
    let ?h' = "?h\<lparr>fh_fields := (fh_fields ?h)(?ps ! i := None), fh_set := Some (t\<lparr>hs_slots := ?ps[i := fh_next h]\<rparr>)\<rparr>"
    have "heap_field_set_add junk h kv = Some (JP_OK, ?h')"
      using r(1) i(2) f t(1,3) by (simp add: heap_field_set_add_def heap_alloc_def)
    moreover have "e = JP_OK" "s' = \<lparr>set_cap = hs_cap t, set_fields = fs\<rparr>"
      using s' f t(3) Some by (auto simp: jp_field_set_add_def set_of_def)
    ultimately show ?thesis
      using owns_replace [OF t(2) i(1), of f] i(3) by (simp add: heap_holds_def set_of_def owns_def)
  qed
qed

text \<open>The address-level addition implements the addition on sets, and keeps the ownership.\<close>

lemma heap_add_refines:
  assumes "heap_holds h s" "set_ok s" "jp_field_set_add junk s kv = Some (e, s')"
  shows "\<exists>h'. heap_field_set_add junk h kv = Some (e, h') \<and> heap_holds h' s'"
proof -
  obtain t where t: "fh_set h = Some t" "owns h (hs_slots t)" "s = set_of h t"
    using assms(1) by (auto simp: heap_holds_def)
  show ?thesis
  proof (cases "length (hs_slots t) = hs_cap t")
    case True
    with assms t show ?thesis by (simp add: heap_field_set_add_def jp_field_set_add_def set_of_def)
  next
    case False
    then have room: "length (hs_slots t) < hs_cap t" using assms(2) by (simp add: set_ok_def t(3) set_of_def)
    obtain err nf where c: "crete_field_from_kv junk kv = Some (err, nf)"
      using assms(3) False by (auto simp: jp_field_set_add_def t(3) set_of_def bind_eq_Some_conv)
    show ?thesis
    proof (cases "err = JP_OK")
      case err: False
      with c assms t False show ?thesis by (simp add: heap_field_set_add_def jp_field_set_add_def set_of_def)
    next
      case True
      with c assms(3) False obtain f where "nf = Some f"
        by (auto simp: jp_field_set_add_def t(3) set_of_def split: option.splits)
      with heap_store_refines [OF t(1,2) room] c True assms(3) t(3) show ?thesis by simp
    qed
  qed
qed

lemma heap_free_all_owned:
  "distinct ps \<Longrightarrow> set ps \<subseteq> dom (fh_fields h) \<Longrightarrow>
   heap_free_all ps h = Some (h\<lparr>fh_fields := fh_fields h |` (- set ps)\<rparr>)"
proof (induction ps arbitrary: h)
  case Nil
  then show ?case by simp
next
  case (Cons p ps)
  then obtain f where "fh_fields h p = Some f" by auto
  moreover have "(fh_fields h)(p := None) |` (- set ps) = fh_fields h |` (- set (p # ps))"
    by (auto simp: restrict_map_def)
  moreover have "set ps \<subseteq> dom ((fh_fields h)(p := None))" using Cons.prems by auto
  ultimately show ?case
    using Cons.IH [of "h\<lparr>fh_fields := (fh_fields h)(p := None)\<rparr>"] Cons.prems(1)
    by (simp add: heap_free_def del: Compl_insert fun_upd_apply restrict_fun_upd)
qed

lemma destroy_owned:
  assumes "heap_holds h s"
  shows "\<exists>h'. jp_field_set_destroy True h = Some h' \<and> fh_fields h' = Map.empty \<and> fh_set h' = None"
proof -
  obtain t where t: "fh_set h = Some t" "owns h (hs_slots t)" using assms by (auto simp: heap_holds_def)
  then have "fh_fields h |` (- set (hs_slots t)) = Map.empty"
    by (auto simp: owns_def restrict_map_def fun_eq_iff)
  with t heap_free_all_owned [of "hs_slots t" h] show ?thesis
    by (auto simp: jp_field_set_destroy_def owns_def)
qed

text \<open>
  C19: Ownership. For any arguments, in any number, good or bad, adding them one after the other to a new
  set on the heap does what the additions do on sets, never touches or frees an object that is not
  live, and destroying the set then frees every field exactly once and the set itself: nothing is
  left on the heap.
\<close>

theorem field_set_no_leak:
  "\<exists>e s h h'. add_all (jp_field_set_add junk) (jp_field_set_create cap) kvs = Some (e, s) \<and>
     add_all (heap_field_set_add junk) (heap_field_set_create cap empty_heap) kvs = Some (e, h) \<and>
     heap_holds h s \<and> jp_field_set_destroy True h = Some h' \<and> fh_fields h' = Map.empty \<and> fh_set h' = None"
proof -
  have "\<exists>e s' h'. add_all (jp_field_set_add junk) s kvs = Some (e, s') \<and>
      add_all (heap_field_set_add junk) h kvs = Some (e, h') \<and> heap_holds h' s'"
    if "heap_holds h s" "set_ok s" for h s
    using that
  proof (induction kvs arbitrary: h s)
    case Nil
    then show ?case by simp
  next
    case (Cons kv kvs)
    obtain e s1 where s1: "jp_field_set_add junk s kv = Some (e, s1)" "set_ok s1"
      using fields.add_keeps_invar [OF Cons.prems(2), of junk kv] by auto
    obtain h1 where "heap_field_set_add junk h kv = Some (e, h1)" "heap_holds h1 s1"
      using heap_add_refines [OF Cons.prems s1(1)] by blast
    with Cons.IH [of h1 s1] s1 show ?case by auto
  qed
  note run = this
  have "heap_holds (heap_field_set_create cap empty_heap) (jp_field_set_create cap)"
    by (simp add: heap_holds_def heap_field_set_create_def empty_heap_def owns_def set_of_def jp_field_set_create_def)
  moreover have "set_ok (jp_field_set_create cap)"
    by (simp add: set_ok_def jp_field_set_create_def set_assoc_def)
  ultimately show ?thesis using run destroy_owned by blast
qed

end
