(* ===== verification/JP_Queue_Cancel.thy ===== *)
theory JP_Queue_Cancel
  imports JP_Queue_Runs
begin

text \<open>
  \<open>cancel_worker_thread\<close> of \<^verbatim>\<open>src/worker.c\<close>: when a thread cannot be created, the threads that run are cancelled.
  A thread is cancelled in a call that POSIX makes a cancellation point (waiting for input, \<^verbatim>\<open>read\<close>,
  \<^verbatim>\<open>writev\<close>, \<^verbatim>\<open>pthread_cond_wait\<close>), and runs \<open>thread_cleanup\<close>, which calls \<open>jp_queue_finalize\<close>; a thread that is
  cancelled in \<^verbatim>\<open>pthread_cond_wait\<close> owns the mutex again when it does so.
\<close>

section \<open>Cancellation\<close>

inductive cancel_step :: "conc \<Rightarrow> conc \<Rightarrow> bool" where
  x_poll: "pcs c Reader = Ready \<Longrightarrow> cancel_step c (goto Reader Fin_Start c)"
| x_read: "pcs c Reader = Push_Own i \<Longrightarrow> cancel_step c (goto Reader Fin_Start c)"
| x_push_wait: "pcs c Reader = Push_Waiting \<or> pcs c Reader = Push_Awake \<Longrightarrow> owner c = None \<Longrightarrow>
    cancel_step c (goto Reader Fin_Start (c\<lparr>owner := Some Reader\<rparr>))"
| x_write: "pcs c Writer = Pop_Own i \<Longrightarrow> cancel_step c (goto Writer Fin_Start c)"
| x_pop_wait: "pcs c Writer = Pop_Waiting \<or> pcs c Writer = Pop_Awake \<Longrightarrow> owner c = None \<Longrightarrow>
    cancel_step c (goto Writer Fin_Start (c\<lparr>owner := Some Writer\<rparr>))"

definition any_step :: "conc \<Rightarrow> conc \<Rightarrow> bool" where
  "any_step c c' \<longleftrightarrow> conc_step c c' \<or> cancel_step c c'"

section \<open>A thread that waits for itself\<close>

text \<open>Nobody is inside a critical section, and the owner of the mutex waits for the mutex.\<close>

definition self_blocked :: "thread \<Rightarrow> conc \<Rightarrow> bool" where
  "self_blocked t c \<longleftrightarrow> owner c = Some t \<and> pcs c t = Fin_Lock \<and> (\<forall>u. \<not> holds_lock (pcs c u))"

lemma blocked_reader: "reader_step c c' \<Longrightarrow> self_blocked t c \<Longrightarrow> self_blocked t c'"
proof (induction rule: reader_step.induct)
  case (r_return c r)
  then show ?case unfolding self_blocked_def by (metis holds_lock.simps(2))
qed (auto simp: self_blocked_def split: if_splits, (metis holds_lock.simps)+)

lemma blocked_writer: "writer_step c c' \<Longrightarrow> self_blocked t c \<Longrightarrow> self_blocked t c'"
proof (induction rule: writer_step.induct)
  case (w_return c r)
  then show ?case unfolding self_blocked_def by (metis holds_lock.simps(7))
qed (auto simp: self_blocked_def split: if_splits, (metis holds_lock.simps)+)

lemma blocked_final: "final_step u c c' \<Longrightarrow> self_blocked t c \<Longrightarrow> self_blocked t c'"
  by (induction rule: final_step.induct) (auto simp: self_blocked_def, (metis holds_lock.simps)+)

lemma blocked_env: "env_step c c' \<Longrightarrow> self_blocked t c \<Longrightarrow> self_blocked t c'"
  by (induction rule: env_step.induct) (auto simp: self_blocked_def)

lemma blocked_cancel: "cancel_step c c' \<Longrightarrow> self_blocked t c \<Longrightarrow> self_blocked t c'"
  by (induction rule: cancel_step.induct) (auto simp: self_blocked_def)

lemma blocked_forever: "any_step\<^sup>*\<^sup>* c c' \<Longrightarrow> self_blocked t c \<Longrightarrow> self_blocked t c'"
proof (induction rule: rtranclp_induct)
  case (step c1 c2)
  from step.hyps(2) have "conc_step c1 c2 \<or> cancel_step c1 c2" by (simp add: any_step_def)
  with step.IH [OF step.prems] show ?case
    by (auto elim!: conc_step_induct intro: blocked_reader blocked_writer blocked_final blocked_env blocked_cancel)
qed simp

lemma cancelled_wait_blocks:
  assumes "pcs c Writer = Pop_Waiting" "owner c = None" "q_active (cq c)" "\<forall>u. \<not> holds_lock (pcs c u)"
  shows "\<exists>c'. any_step\<^sup>*\<^sup>* c c' \<and> self_blocked Writer c'"
proof -
  let ?c1 = "goto Writer Fin_Start (c\<lparr>owner := Some Writer\<rparr>)"
  let ?c2 = "goto Writer Fin_Lock (c\<lparr>owner := Some Writer\<rparr>)"
  have cancel: "any_step c ?c1" using x_pop_wait [of c] assms by (simp add: any_step_def)
  have "final_step Writer ?c1 ?c2" using f_start [of ?c1 Writer] assms(3) by (cases c) simp
  then have "any_step ?c1 ?c2" by (auto simp: any_step_def conc_step_defs)
  with cancel have "any_step\<^sup>*\<^sup>* c ?c2" by (rule converse_rtranclp_into_rtranclp [OF _ r_into_rtranclp])
  moreover have "self_blocked Writer ?c2" using assms(4) by (simp add: self_blocked_def)
  ultimately show ?thesis by blast
qed

lemma run_writer_waits:
  assumes "conc_reach q c" "pcs c Writer = Ready" "owner c = None" "q_active (cq c)" "qlen (cq c) = 0"
  shows "conc_reach q (goto Writer Pop_Waiting c)"
proof -
  have "q_length (cq c) = 0" using assms(5) by (simp add: unat_eq_0)
  note len = this
  have "conc_reach q (goto Writer Pop_Lock c)" using reach_thread(2) [OF assms(1) w_call] assms(2) len by (cases c) simp
  from reach_thread(2) [OF this w_lock] have "conc_reach q (goto Writer Pop_Test (c\<lparr>owner := Some Writer\<rparr>))"
    using assms(3) by (cases c) simp
  from reach_thread(2) [OF this w_wait] show ?thesis
    using assms(3,4) len by (cases c) (simp add: pop_must_wait_def)
qed

text \<open>
  C38: Cancelling the writer while it waits hangs the program. In every reachable state in which the writer waits
  on \<open>not_empty\<close> of an active queue with the mutex free, the cancellation leads to a state after which,
  whatever all threads and the environment do, the writer owns the mutex and waits for it inside
  \<open>jp_queue_finalize\<close>: it never ends, and its join never returns.
\<close>

theorem cancelled_wait_hangs:
  assumes "conc_reach q c" "queue_ok q" "queue_contents q = []"
    and "pcs c Writer = Pop_Waiting" "owner c = None" "q_active (cq c)"
  shows "\<exists>c'. any_step\<^sup>*\<^sup>* c c' \<and>
     (\<forall>c''. any_step\<^sup>*\<^sup>* c' c'' \<longrightarrow> owner c'' = Some Writer \<and> pcs c'' Writer = Fin_Lock)"
proof -
  have "lock_inv c" using conc_inv_reach [OF assms(1-3)] by (simp add: conc_inv_def)
  then have "\<forall>u. \<not> holds_lock (pcs c u)" using assms(5) by (simp add: lock_inv_def)
  from cancelled_wait_blocks [OF assms(4-6) this] blocked_forever show ?thesis
    unfolding self_blocked_def by blast
qed


theorem cancelled_wait_hangs_witness:
  "\<exists>q c c'. conc_reach q c \<and> pcs c Writer = Pop_Waiting \<and> any_step\<^sup>*\<^sup>* c c' \<and>
     owner c' = Some Writer \<and> pcs c' Writer = Fin_Lock"
proof -
  obtain q where q: "queue_ok q" "queue_contents q = []" "q_active q" using small_queue by blast
  have c: "conc_reach q (goto Writer Pop_Waiting (conc_start q))"
    using run_writer_waits [OF reach_start [of q]] q by (simp add: conc_start_def flip: length_queue_contents)
  from cancelled_wait_hangs [OF c q(1,2)] q(3) obtain c' where
    "any_step\<^sup>*\<^sup>* (goto Writer Pop_Waiting (conc_start q)) c'"
    "\<forall>c''. any_step\<^sup>*\<^sup>* c' c'' \<longrightarrow> owner c'' = Some Writer \<and> pcs c'' Writer = Fin_Lock"
    by (auto simp: conc_start_def)
  with c show ?thesis by (intro exI [of _ q] exI [of _ "goto Writer Pop_Waiting (conc_start q)"] exI [of _ c']) simp
qed

end
