(* ===== verification/JP_Queue_Pace.thy ===== *)
theory JP_Queue_Pace
  imports JP_Queue_Runs
begin

text \<open>
  The threads of the concurrent queue cannot run without getting anywhere: between two turns (a commit of the reader,
  a refusal by a full queue under the drop policy, an event from outside) there is a bounded number of steps.
\<close>

section \<open>Turns\<close>

text \<open>An event from outside is the arrival of the signal or a spurious wakeup.\<close>

definition turn :: "conc \<Rightarrow> conc \<Rightarrow> bool" where
  "turn c c' \<longleftrightarrow>
     pcs c Reader = Push_Commit_Store \<and> pcs c' Reader = Push_Commit_Signal \<or>
     (\<exists>e. pcs c Reader = Push_Unlock (Inl e)) \<and> pcs c' Reader = Ready \<or> env_step c c'"

text \<open>An execution of \<open>n\<close> steps, \<open>k\<close> of them turns.\<close>

inductive paced :: "nat \<Rightarrow> nat \<Rightarrow> conc \<Rightarrow> conc \<Rightarrow> bool" where
  paced_start: "paced 0 0 c c"
| paced_turn: "paced n k c d \<Longrightarrow> conc_step d e \<Longrightarrow> turn d e \<Longrightarrow> paced (Suc n) (Suc k) c e"
| paced_step: "paced n k c d \<Longrightarrow> conc_step d e \<Longrightarrow> \<not> turn d e \<Longrightarrow> paced (Suc n) k c e"

section \<open>The measure\<close>

text \<open>
  The steps that a thread has before it must wait, end or take a turn. A signal pays for what the thread that it wakes
  does next, and a block in the queue for the pass of the writer that takes it.
\<close>

fun push_pace :: "jp_queue \<Rightarrow> pc \<Rightarrow> nat" where
  "push_pace q Push_Commit_Signal = 22 + qchunk q"
| "push_pace q Push_Commit_Unlock = 19 + qchunk q"
| "push_pace q Ready = 18 + qchunk q"
| "push_pace q Push_Length = 17 + qchunk q"
| "push_pace q Push_Lock = 16 + qchunk q"
| "push_pace q Push_Awake = 16 + qchunk q"
| "push_pace q Push_Test = 15 + qchunk q"
| "push_pace q Push_Waiting = 14 + qchunk q"
| "push_pace q (Push_Unlock r) = 14 + qchunk q"
| "push_pace q (Push_Reset i) = 13 + qchunk q"
| "push_pace q (Push_Own i) = 12 + (qchunk q - blk_length (q_blocks q ! unat i))"
| "push_pace q Push_Commit_Lock = 11"
| "push_pace q Push_Commit_Store = 10"
| "push_pace q Fin_Start = 9"
| "push_pace q Fin_Lock = 8"
| "push_pace q Fin_Store = 7"
| "push_pace q Fin_Broadcast = 6"
| "push_pace q Fin_Unlock = 1"
| "push_pace q _ = 0"

fun pop_pace :: "pc \<Rightarrow> nat" where
  "pop_pace Pop_Commit_Signal = 20"
| "pop_pace Pop_Commit_Unlock = 17"
| "pop_pace Ready = 16"
| "pop_pace Pop_Lock = 15"
| "pop_pace Pop_Awake = 15"
| "pop_pace Pop_Test = 14"
| "pop_pace Pop_Waiting = 13"
| "pop_pace (Pop_Unlock r) = 13"
| "pop_pace (Pop_Own i) = 12"
| "pop_pace Pop_Commit_Lock = 11"
| "pop_pace Pop_Commit_Store = 10"
| "pop_pace Fin_Start = 9"
| "pop_pace Fin_Lock = 8"
| "pop_pace Fin_Store = 7"
| "pop_pace Fin_Broadcast = 6"
| "pop_pace Fin_Unlock = 1"
| "pop_pace _ = 0"

definition pace :: "conc \<Rightarrow> nat" where
  "pace c =
     push_pace (cq c) (pcs c Reader) + pop_pace (pcs c Writer) + pop_pace (pcs c Watcher) + 11 * qlen (cq c)"

definition turn_pace :: "nat \<Rightarrow> nat" where
  "turn_pace n = 24 + n"

lemma push_pace_same:
  "q_chunk_size q' = q_chunk_size q \<Longrightarrow> q_blocks q' = q_blocks q \<Longrightarrow> push_pace q' p = push_pace q p"
  by (cases p) simp_all

lemma pace_reader:
  "reader_step c c' \<Longrightarrow> conc_inv c \<Longrightarrow>
   q_chunk_size (cq c') = q_chunk_size (cq c) \<and>
   pace c' + 1 \<le> pace c + (if turn c c' then turn_pace (qchunk (cq c)) else 0)"
proof (induction rule: reader_step.induct)
  case (r_return c r)
  then show ?case by (cases r) (auto simp: pace_def turn_def turn_pace_def)
next
  case (r_reset c i)
  then have "unat i < length (q_blocks (cq c))"
    by (auto simp: conc_inv_def data_inv_def queue_ok_def blocks_ok_def)
  with r_reset show ?case by (auto simp: pace_def block_reset_def)
next
  case (r_fill c i bs q')
  then have "unat i < length (q_blocks (cq c))"
    by (auto simp: conc_inv_def data_inv_def queue_ok_def blocks_ok_def)
  with r_fill show ?case
    by (cases bs) (auto simp: pace_def block_append_def Let_def bind_eq_Some_conv)
next
  case (r_commit_store c)
  then have "qlen (jp_queue_push_commit (cq c)) = qlen (cq c) + 1"
    by (intro push_commit_ok) (simp_all add: conc_inv_def data_inv_def)
  with r_commit_store show ?case by (auto simp: pace_def turn_def turn_pace_def)
qed (auto simp: pace_def)

lemma pace_writer:
  "writer_step c c' \<Longrightarrow> conc_inv c \<Longrightarrow>
   q_chunk_size (cq c') = q_chunk_size (cq c) \<and> pace c' + 1 \<le> pace c"
proof (induction rule: writer_step.induct)
  case (w_return c r)
  then show ?case by (cases r) (auto simp: pace_def)
next
  case (w_commit_store c)
  then have "0 < qlen (cq c)" "qlen (jp_queue_pop_commit (cq c)) = qlen (cq c) - 1"
    using pop_commit_ok(3) [of "cq c"] by (simp_all add: conc_inv_def data_inv_def)
  moreover have "push_pace (jp_queue_pop_commit (cq c)) p = push_pace (cq c) p" for p
    by (rule push_pace_same) (simp_all add: jp_queue_pop_commit_def)
  ultimately show ?case using w_commit_store by (auto simp: pace_def)
next
  case (w_commit_signal c)
  then show ?case by (auto simp: pace_def)
qed (auto simp: pace_def)

lemma pace_final:
  "final_step t c c' \<Longrightarrow> q_chunk_size (cq c') = q_chunk_size (cq c) \<and> pace c' + 1 \<le> pace c"
proof (induction rule: final_step.induct)
  case (f_store c)
  have "push_pace ((cq c)\<lparr>q_active := False\<rparr>) p = push_pace (cq c) p" for p
    by (rule push_pace_same) simp_all
  with f_store show ?case by (cases t) (auto simp: pace_def)
qed (cases t; auto simp: pace_def)+

lemma pace_env:
  "env_step c c' \<Longrightarrow>
   q_chunk_size (cq c') = q_chunk_size (cq c) \<and> pace c' + 1 \<le> pace c + turn_pace (qchunk (cq c))"
  by (induction rule: env_step.induct) (auto simp: pace_def turn_pace_def)

lemma pace_step:
  assumes "conc_step c c'" "conc_inv c"
  shows "q_chunk_size (cq c') = q_chunk_size (cq c) \<and>
     pace c' + 1 \<le> pace c + (if turn c c' then turn_pace (qchunk (cq c)) else 0)"
  using assms(1)
proof (rule conc_step_induct)
  show "?thesis" if "reader_step c c'" using pace_reader [OF that assms(2)] .
  show "?thesis" if "writer_step c c'" using pace_writer [OF that assms(2)] by simp
  show "?thesis" if "final_step t c c'" for t using pace_final [OF that] by simp
  show "?thesis" if "env_step c c'" using pace_env [OF that] that by (simp add: turn_def)
qed

lemma paced_bound:
  assumes "paced n k c d" "conc_inv c"
  shows "conc_inv d \<and> q_chunk_size (cq d) = q_chunk_size (cq c) \<and> n + pace d \<le> pace c + k * turn_pace (qchunk (cq c))"
  using assms
proof (induction rule: paced.induct)
  case paced_start
  then show ?case by simp
next
  case (paced_turn n k d e)
  then show ?case using pace_step [OF paced_turn.hyps(2)] conc_inv_step [OF paced_turn.hyps(2)] by auto
next
  case (paced_step n k d e)
  then show ?case using pace_step [OF paced_step.hyps(2)] conc_inv_step [OF paced_step.hyps(2)] by auto
qed

lemma paced_reach: "paced n k c d \<Longrightarrow> conc_reach q c \<Longrightarrow> conc_reach q d"
  by (induction rule: paced.induct) (blast intro: reach_step)+

lemma pace_start: "q_length q = 0 \<Longrightarrow> pace (conc_start q) = 50 + qchunk q"
  by (simp add: pace_def conc_start_def)

section \<open>Which steps are turns\<close>

lemma env_moves:
  "env_step c c' \<Longrightarrow> \<exists>t. pcs c t \<in> {Ready, Push_Waiting, Pop_Waiting} \<and> pcs c' t \<noteq> pcs c t \<and> (\<forall>u. u \<noteq> t \<longrightarrow> pcs c' u = pcs c u) \<and>
     (t = Watcher \<or> pcs c t \<noteq> Ready)"
  by (induction rule: env_step.induct) force+

lemma reader_no_env: "reader_step c c' \<Longrightarrow> \<not> env_step c c'"
proof
  assume step: "reader_step c c'" and "env_step c c'"
  from env_moves [OF this(2)] obtain t where t: "pcs c t \<in> {Ready, Push_Waiting, Pop_Waiting}" "pcs c' t \<noteq> pcs c t"
    "\<forall>u. u \<noteq> t \<longrightarrow> pcs c' u = pcs c u" "t = Watcher \<or> pcs c t \<noteq> Ready" by blast
  have "pcs c' Watcher = pcs c Watcher \<and> pcs c Reader \<noteq> Push_Waiting \<and> pcs c Reader \<noteq> Pop_Waiting \<and>
      (pcs c' Reader = pcs c Reader \<longrightarrow> pcs c' Writer = pcs c Writer)"
    using step by (induction rule: reader_step.induct) (auto split: sum.splits)
  with t show False by (cases t) auto
qed

lemma writer_no_turn: "writer_step c c' \<Longrightarrow> \<not> turn c c'"
proof
  assume step: "writer_step c c'" and "turn c c'"
  have w: "pcs c' Watcher = pcs c Watcher \<and> pcs c' Writer \<noteq> pcs c Writer \<and> pcs c Writer \<noteq> Push_Waiting \<and> pcs c Writer \<noteq> Pop_Waiting \<and>
      (pcs c' Reader = pcs c Reader \<or> pcs c Reader = Push_Waiting)"
    using step by (induction rule: writer_step.induct) (auto split: sum.splits)
  from \<open>turn c c'\<close> w have "env_step c c'" by (auto simp: turn_def)
  from env_moves [OF this] obtain t where "pcs c t \<in> {Ready, Push_Waiting, Pop_Waiting}" "pcs c' t \<noteq> pcs c t"
    "\<forall>u. u \<noteq> t \<longrightarrow> pcs c' u = pcs c u" "t = Watcher \<or> pcs c t \<noteq> Ready" by blast
  with w show False by (cases t) auto
qed

lemma final_no_turn: "final_step t c c' \<Longrightarrow> \<not> turn c c'"
proof
  assume step: "final_step t c c'" and "turn c c'"
  have w: "pcs c' t \<noteq> pcs c t \<and> pcs c t \<notin> {Ready, Push_Waiting, Pop_Waiting, Push_Commit_Store} \<and> (\<forall>r. pcs c t \<noteq> Push_Unlock r) \<and>
      (pcs c' Reader = pcs c Reader \<or> t = Reader \<or> pcs c Reader = Push_Waiting)"
    using step by (induction rule: final_step.induct) (cases t; auto)+
  from \<open>turn c c'\<close> w have "env_step c c'" by (auto simp: turn_def)
  from env_moves [OF this] obtain u where "pcs c u \<in> {Ready, Push_Waiting, Pop_Waiting}" "\<forall>v. v \<noteq> u \<longrightarrow> pcs c' v = pcs c v" by blast
  with w show False by (cases "u = t") auto
qed

lemma paced_trans: "paced m j d e \<Longrightarrow> paced n k c d \<Longrightarrow> paced (n + m) (k + j) c e"
proof (induction rule: paced.induct)
  case (paced_turn m j d e f)
  then show ?case using paced.paced_turn [of "n + m" "k + j" c e f] by simp
next
  case (paced_step m j d e f)
  then show ?case using paced.paced_step [of "n + m" "k + j" c e f] by simp
qed simp

lemma paced_one: "conc_step c c' \<Longrightarrow> paced 1 (if turn c c' then 1 else 0) c c'"
  using paced_turn [OF paced_start, of c c'] paced_step [OF paced_start, of c c'] by simp

section \<open>Properties\<close>

text \<open>
  C32: No livelock. From a new queue no execution of the three threads, whatever the schedule, has more than
  \<open>50 + c + k * (24 + c)\<close> steps, where \<open>c\<close> is the chunk size and \<open>k\<close> counts the blocks that the reader committed, the
  messages that a full queue refused under the drop policy, and the events from outside: the signal and the spurious
  wakeups. A poll of the reader for its input, in its own code, is not a step. In particular the threads never spin on the queue, and a schedule that goes on for ever commits, drops or
  is woken for ever.
\<close>

theorem queue_no_livelock:
  assumes "queue_ok q" "queue_contents q = []" "paced n k (conc_start q) c"
  shows "n \<le> 50 + qchunk q + k * (24 + qchunk q)"
proof -
  have "q_length q = 0" using arg_cong [OF assms(2), of length] by (simp add: unat_eq_0)
  moreover have "n + pace c \<le> pace (conc_start q) + k * turn_pace (qchunk q)"
    using paced_bound [OF assms(3) conc_inv_start [OF assms(1,2)]] by (simp add: conc_start_def)
  ultimately show ?thesis by (simp add: pace_start turn_pace_def)
qed

theorem queue_no_livelock_witness:
  "\<exists>q c. queue_ok q \<and> paced 2 1 (conc_start q) c \<and> 2 \<le> 50 + qchunk q + 1 * (24 + qchunk q)"
proof -
  obtain q where q: "queue_ok q" "queue_contents q = []" "q_active q" using small_queue by blast
  let ?c = "goto Watcher Fin_Start ((conc_start q)\<lparr>signalled := True\<rparr>)"
  have "env_step (conc_start q) ?c" by (rule e_signal) (simp add: conc_start_def)
  then have "paced (Suc 0) (Suc 0) (conc_start q) ?c"
    by (intro paced_turn [OF paced_start]) (simp_all add: conc_step_def turn_def)
  moreover have "final_step Watcher ?c (goto Watcher (if q_active (cq ?c) then Fin_Lock else Done) ?c)"
    by (rule f_start) simp
  then have "conc_step ?c (goto Watcher Fin_Lock ?c)"
    using q(3) by (auto simp: conc_step_defs conc_start_def)
  moreover have "\<not> turn ?c (goto Watcher Fin_Lock ?c)"
    by (auto simp: turn_def conc_start_def elim: env_step.cases)
  ultimately have "paced (Suc (Suc 0)) (Suc 0) (conc_start q) (goto Watcher Fin_Lock ?c)" by (rule paced_step)
  then have p: "paced 2 1 (conc_start q) (goto Watcher Fin_Lock ?c)" by (simp add: numeral_2_eq_2)
  from queue_no_livelock [OF q(1,2) p] q(1) p show ?thesis by blast
qed

end
