(* ===== verification/JP_Bench.thy ===== *)
theory JP_Bench
  imports JP_Writer JP_Memory
begin

text \<open>
  \<^verbatim>\<open>bench/lib/bench.c\<close> and \<^verbatim>\<open>bench/json.c\<close>: the stop watch of the benchmarks, the division of a data file into
  records at the byte \<open>0x1E\<close>, and the benchmark of the value encoder over these records. The clock and the
  files are arguments; the report, which prints floating point numbers, is not modelled.
\<close>

section \<open>The stop watch\<close>

record timespec =
  tv_sec :: int
  tv_nsec :: int

record jp_bench =
  bn_start :: timespec
  bn_end :: timespec
  bn_total_ns :: "64 word"
  bn_iterations :: "64 word"
  bn_name :: cstring

text \<open>\<open>now\<close> is what \<^verbatim>\<open>clock_gettime\<close> stores.\<close>

definition jp_bench_start :: "timespec \<Rightarrow> jp_bench \<Rightarrow> cstring \<Rightarrow> 64 word \<Rightarrow> jp_bench" where
  "jp_bench_start now bench name iterations =
     bench\<lparr>bn_name := name, bn_iterations := iterations, bn_total_ns := 0, bn_start := now\<rparr>"

definition int64 :: "int \<Rightarrow> bool" where
  "int64 i \<longleftrightarrow> - (2 ^ 63) \<le> i \<and> i < 2 ^ 63"

text \<open>\<^const>\<open>None\<close>: a difference overflows its \<open>int64_t\<close>.\<close>

definition jp_bench_stop :: "timespec \<Rightarrow> jp_bench \<Rightarrow> jp_bench option" where
  "jp_bench_stop now bench =
     (let bench = bench\<lparr>bn_end := now\<rparr>;
          seconds = tv_sec (bn_end bench) - tv_sec (bn_start bench);
          nanoseconds = tv_nsec (bn_end bench) - tv_nsec (bn_start bench);
          seconds' = (if nanoseconds < 0 then seconds - 1 else seconds);
          nanoseconds' = (if nanoseconds < 0 then nanoseconds + 1000000000 else nanoseconds)
      in if int64 seconds \<and> int64 nanoseconds \<and> int64 seconds' \<and> int64 nanoseconds'
         then Some (bench\<lparr>bn_total_ns := of_int seconds' * 1000000000 + of_int nanoseconds'\<rparr>)
         else None)"

definition nanos :: "timespec \<Rightarrow> int" where
  "nanos t = tv_sec t * 1000000000 + tv_nsec t"

text \<open>
  The stop watch is exact: for a clock that does not go back and an elapsed time below \<open>2 ^ 64\<close> nanoseconds the
  total is the difference of the two times.
\<close>

theorem bench_elapsed:
  assumes "0 \<le> tv_nsec a" "tv_nsec a < 1000000000" "0 \<le> tv_nsec b" "tv_nsec b < 1000000000"
    and "nanos a \<le> nanos b" "nanos b - nanos a < 2 ^ 64"
  shows "\<exists>bench'. jp_bench_stop b (jp_bench_start a bench name n) = Some bench' \<and>
     uint (bn_total_ns bench') = nanos b - nanos a \<and> bn_name bench' = name \<and> bn_iterations bench' = n"
proof -
  let ?s = "tv_sec b - tv_sec a" and ?n = "tv_nsec b - tv_nsec a"
  have s: "0 \<le> ?s * 1000000000 + ?n" "?s * 1000000000 + ?n < 2 ^ 64"
    using assms(5,6) by (simp_all add: nanos_def algebra_simps)
  have "int64 ?s" "int64 (?s - 1)" "int64 ?n" "int64 (?n + 1000000000)"
    using assms(1-4) s by (auto simp: int64_def)
  moreover have "uint (of_int d :: 64 word) = d" if "0 \<le> d" "d < 2 ^ 64" for d
    using that by (simp add: unsigned_of_int take_bit_int_eq_self)
  from this [of "nanos b - nanos a"] have "uint (of_int (nanos b - nanos a) :: 64 word) = nanos b - nanos a"
    using assms(5,6) by simp
  moreover have "of_int ?s * 1000000000 + of_int ?n = (of_int (nanos b - nanos a) :: 64 word)"
    "of_int (?s - 1) * 1000000000 + of_int (?n + 1000000000) = (of_int (nanos b - nanos a) :: 64 word)"
    by (simp_all add: nanos_def algebra_simps)
  ultimately show ?thesis
    by (auto simp: jp_bench_stop_def jp_bench_start_def Let_def)
qed

definition example_bench :: jp_bench where
  "example_bench =
     \<lparr>bn_start = \<lparr>tv_sec = 0, tv_nsec = 0\<rparr>, bn_end = \<lparr>tv_sec = 0, tv_nsec = 0\<rparr>, bn_total_ns = 0, bn_iterations = 0, bn_name = []\<rparr>"

theorem bench_elapsed_witness:
  "\<exists>bench'. jp_bench_stop \<lparr>tv_sec = 7, tv_nsec = 5\<rparr>
       (jp_bench_start \<lparr>tv_sec = 5, tv_nsec = 999999999\<rparr> example_bench (bytes ''x'') 1) = Some bench' \<and>
     uint (bn_total_ns bench') = 1000000006"
  using bench_elapsed [of "\<lparr>tv_sec = 5, tv_nsec = 999999999\<rparr>" "\<lparr>tv_sec = 7, tv_nsec = 5\<rparr>" example_bench "bytes ''x''" 1]
  by (auto simp: nanos_def)

section \<open>The records of a data file\<close>

record jp_bench_chunk =
  ck_buffer :: nat \<comment> \<open>an offset into the mapped data\<close>
  ck_length :: nat

record jp_bench_data =
  bd_chunk_size :: nat
  bd_total_size :: nat
  bd_max_chunk_size :: nat
  bd_chunks :: "jp_bench_chunk option list" \<comment> \<open>\<^const>\<open>None\<close>: not yet written\<close>
  bd_data :: buffer

text \<open>What the code asks of the files: whether \<^verbatim>\<open>open\<close> succeeds, the size, and the mapping of so many bytes.\<close>

record bench_files =
  bf_open :: "cstring \<Rightarrow> bool"
  bf_stat :: "cstring \<Rightarrow> nat option"
  bf_mmap :: "cstring \<Rightarrow> nat \<Rightarrow> buffer option"

datatype bench_resource = Bench_Object | Bench_Mapping | Bench_Chunks

definition count_separators :: "buffer \<Rightarrow> nat" where
  "count_separators p = foldl (\<lambda>capacity i. if p ! i = 30 then capacity + 1 else capacity) 0 [0..<length p]"

text \<open>The loop over \<open>current\<close>; \<^const>\<open>None\<close> is a store outside the array of chunks.\<close>

function split_loop ::
  "buffer \<Rightarrow> nat \<Rightarrow> nat \<Rightarrow> nat \<Rightarrow> nat \<Rightarrow> jp_bench_chunk option list \<Rightarrow> (nat \<times> nat \<times> jp_bench_chunk option list) option"
where
  "split_loop data capacity current chunk_size max_size chunks =
     (if current < length data \<and> chunk_size < capacity
      then case memchr (drop current data) 30 of
             None \<Rightarrow> Some (chunk_size, max_size, chunks)
           | Some n \<Rightarrow>
               let max_size = (if n > max_size then n else max_size)
               in if chunk_size < length chunks
                  then split_loop data capacity (current + n + 1) (chunk_size + 1) max_size
                         (chunks[chunk_size := Some \<lparr>ck_buffer = current, ck_length = n\<rparr>])
                  else None
      else Some (chunk_size, max_size, chunks))"
  by pat_completeness auto

termination split_loop
  by (relation "measure (\<lambda>(data, _, current, _). length data - current)") auto

declare split_loop.simps [simp del]

text \<open>
  The outer option is \<^const>\<open>None\<close> for an access outside an object, the inner one for the null pointer; the list has
  the objects that are allocated when the function returns.
\<close>

definition jp_bench_data_prepare ::
  "bench_files \<Rightarrow> cstring \<Rightarrow> nat \<Rightarrow> cstring \<Rightarrow> (jp_bench_data option \<times> bench_resource list) option"
where
  "jp_bench_data_prepare fs data_dir sizeof_chunk filename =
     (let file_path = take (JP_PATH_MAX - 1) (data_dir @ bytes ''/'' @ filename)
      in if \<not> bf_open fs file_path then Some (None, [Bench_Object])
         else case bf_stat fs file_path of
                None \<Rightarrow> Some (None, [Bench_Object])
              | Some total_size \<Rightarrow>
                  (case bf_mmap fs file_path total_size of
                     None \<Rightarrow> Some (None, [])
                   | Some data \<Rightarrow>
                       let capacity = count_separators data;
                           chunks_size = unat (of_nat sizeof_chunk * of_nat capacity :: size_t);
                           slots = chunks_size div sizeof_chunk
                       in do {
                         JP_ATTR_ASSUME (chunks_size > 0);
                         (chunk_size, max_size, chunks) \<leftarrow> split_loop data capacity 0 0 0 (replicate slots None);
                         Some (Some \<lparr>bd_chunk_size = chunk_size, bd_total_size = total_size, bd_max_chunk_size = max_size,
                                     bd_chunks = chunks, bd_data = data\<rparr>,
                               [Bench_Object, Bench_Mapping, Bench_Chunks])
                       }))"

definition jp_bench_data_destroy :: "jp_bench_data option \<Rightarrow> bench_resource list \<Rightarrow> bench_resource list" where
  "jp_bench_data_destroy bench_data held =
     (case bench_data of
        None \<Rightarrow> held
      | Some _ \<Rightarrow> filter (\<lambda>r. r \<noteq> Bench_Mapping \<and> r \<noteq> Bench_Chunks \<and> r \<noteq> Bench_Object) held)"

section \<open>The encoder benchmark\<close>

text \<open>One of the two loops: \<^const>\<open>None\<close> is a division by zero or an access outside an object.\<close>

fun encode_rounds :: "jp_bench_data \<Rightarrow> nat \<Rightarrow> nat list \<Rightarrow> buffer \<Rightarrow> buffer option" where
  "encode_rounds d dest_len [] dest = Some dest"
| "encode_rounds d dest_len (i # is) dest =
     (if bd_chunk_size d = 0 \<or> \<not> i mod bd_chunk_size d < length (bd_chunks d) then None
      else case bd_chunks d ! (i mod bd_chunk_size d) of
             None \<Rightarrow> None
           | Some chunk \<Rightarrow>
               do {
                 (_, dest) \<leftarrow> jp_json_value_encoder (take (ck_length chunk) (drop (ck_buffer chunk) (bd_data d))) dest 0 dest_len;
                 encode_rounds d dest_len is dest
               })"

text \<open>
  The benchmark for one file, less the clock: \<open>Some None\<close> is the exit with a failure, otherwise the result has the
  objects of the data that are left.
\<close>

definition bench_json_value_encoder ::
  "(nat \<Rightarrow> buffer) \<Rightarrow> bench_files \<Rightarrow> cstring \<Rightarrow> nat \<Rightarrow> cstring \<Rightarrow> nat \<Rightarrow> bench_resource list option option"
where
  "bench_json_value_encoder junk fs data_dir sizeof_chunk filename iterations =
     do {
       (bench_data, held) \<leftarrow> jp_bench_data_prepare fs data_dir sizeof_chunk filename;
       case bench_data of
         None \<Rightarrow> Some None
       | Some d \<Rightarrow>
           let dest_len = unat (of_nat (bd_max_chunk_size d) * 6 :: size_t)
           in do {
             dest \<leftarrow> new_object junk dest_len;
             dest \<leftarrow> encode_rounds d dest_len [0..<1000] dest;
             dest \<leftarrow> encode_rounds d dest_len [0..<iterations] dest;
             Some (Some (jp_bench_data_destroy bench_data held))
           }
     }"

text \<open>The calls of \<^verbatim>\<open>main\<close>, one after the other, and the exit status; \<open>EXIT_FAILURE\<close> is 1.\<close>

fun bench_json_calls ::
  "(nat \<Rightarrow> buffer) \<Rightarrow> bench_files \<Rightarrow> cstring \<Rightarrow> nat \<Rightarrow> (cstring \<times> cstring \<times> nat) list \<Rightarrow> int option"
where
  "bench_json_calls junk fs data_dir sizeof_chunk [] = Some 0"
| "bench_json_calls junk fs data_dir sizeof_chunk ((name, filename, iterations) # calls) =
     do {
       r \<leftarrow> bench_json_value_encoder junk fs data_dir sizeof_chunk filename iterations;
       case r of
         None \<Rightarrow> Some 1
       | Some held \<Rightarrow> bench_json_calls junk fs data_dir sizeof_chunk calls
     }"

definition bench_json_main :: "(cstring \<times> cstring \<times> nat) list" where
  "bench_json_main =
     [(bytes ''Plain / Short'', bytes ''short_plain_input.bin'', 1000000),
      (bytes ''Plain / Medium'', bytes ''medium_plain_input.bin'', 1000000),
      (bytes ''Plain / Long'', bytes ''long_plain_input.bin'', 1000000),
      (bytes ''Escaped / Short'', bytes ''short_escaped_input.bin'', 1000000),
      (bytes ''Escaped / Medium'', bytes ''medium_escaped_input.bin'', 1000000),
      (bytes ''Escaped / Long'', bytes ''long_escaped_input.bin'', 1000000),
      (bytes ''Highly Escaped / Short'', bytes ''short_highly_escaped_input.bin'', 1000000),
      (bytes ''Highly Escaped / Medium'', bytes ''medium_highly_escaped_input.bin'', 1000000),
      (bytes ''Highly Escaped / Long'', bytes ''long_highly_escaped_input.bin'', 1000000)]"

section \<open>The records are found\<close>

text \<open>The texts that a separator ends, and where they are.\<close>

function records :: "byte list \<Rightarrow> byte list list" where
  "records bs = (if 30 \<in> set bs then takeWhile (\<lambda>c. c \<noteq> 30) bs # records (tl (dropWhile (\<lambda>c. c \<noteq> 30) bs)) else [])"
  by pat_completeness auto

termination records
proof (relation "measure length")
  fix bs :: "byte list"
  assume "30 \<in> set bs"
  then have "0 < length bs" by (cases bs) simp_all
  then show "(tl (dropWhile (\<lambda>c. c \<noteq> 30) bs), bs) \<in> measure length"
    using length_dropWhile_le [of "\<lambda>c. c \<noteq> 30" bs] unfolding in_measure length_tl by linarith
qed simp

declare records.simps [simp del]

fun chunks_at :: "nat \<Rightarrow> byte list list \<Rightarrow> jp_bench_chunk list" where
  "chunks_at cur [] = []"
| "chunks_at cur (r # rs) = \<lparr>ck_buffer = cur, ck_length = length r\<rparr> # chunks_at (cur + length r + 1) rs"

lemma count_separators_eq: "count_separators p = count_list p 30"
proof -
  have "foldl (\<lambda>capacity i. if p ! i = 30 then capacity + 1 else capacity) n [0..<k] = n + count_list (take k p) 30"
    if "k \<le> length p" for n k
    using that by (induction k) (auto simp: take_Suc_conv_app_nth)
  from this [of "length p" 0] show ?thesis by (simp add: count_separators_def)
qed

lemma memchr_split:
  "memchr xs ch = (if ch \<in> set xs then Some (length (takeWhile (\<lambda>c. c \<noteq> ch) xs)) else None)"
  by (induction xs) auto

lemma drop_separator:
  assumes "ch \<in> set xs"
  shows "drop (length (takeWhile (\<lambda>c. c \<noteq> ch) xs) + 1) xs = tl (dropWhile (\<lambda>c. c \<noteq> ch) xs)"
    and "Suc (count_list (tl (dropWhile (\<lambda>c. c \<noteq> ch) xs)) ch) = count_list xs ch"
  using assms by (induction xs) auto

lemma length_records: "length (records bs) = count_list bs 30"
proof (induction bs rule: records.induct)
  case (1 bs)
  then show ?case
    using drop_separator(2) [of 30 bs] by (cases "30 \<in> set bs") (simp_all add: records.simps [of bs] count_list_0_iff)
qed

lemma split_loop_eq:
  assumes "k + count_list (drop cur data) 30 = capacity" "length chunks = capacity" "cur \<le> length data"
  shows "split_loop data capacity cur k m chunks =
     Some (capacity, foldl max m (map length (records (drop cur data))),
           take k chunks @ map Some (chunks_at cur (records (drop cur data))))"
  using assms
proof (induction data capacity cur k m chunks rule: split_loop.induct)
  case (1 data capacity cur k m chunks)
  show ?case
  proof (cases "30 \<in> set (drop cur data)")
    case False
    then have "count_list (drop cur data) 30 = 0" "records (drop cur data) = []"
      by (simp_all add: count_list_0_iff records.simps)
    with "1.prems" False show ?thesis by (subst split_loop.simps) (simp add: memchr_split)
  next
    case True
    let ?r = "takeWhile (\<lambda>c. c \<noteq> 30) (drop cur data)"
    let ?n = "length ?r"
    have cur: "cur < length data" using True by (metis drop_all empty_iff list.set(1) not_le)
    have rest: "drop (cur + ?n + 1) data = tl (dropWhile (\<lambda>c. c \<noteq> 30) (drop cur data))"
      using drop_separator(1) [OF True] by (simp add: ac_simps)
    have k: "Suc k + count_list (drop (cur + ?n + 1) data) 30 = capacity"
      using drop_separator(2) [OF True] "1.prems"(1) unfolding rest by simp
    then have kc: "k < capacity" by simp
    have n: "?n < length (drop cur data)"
      using memchr_less [of "drop cur data" 30 ?n] True by (simp add: memchr_split)
    have chr: "memchr (drop cur data) 30 = Some ?n" using True by (simp add: memchr_split)
    have mx: "(if ?n > m then ?n else m) = max m ?n" by (simp add: max_def)
    have recs: "records (drop cur data) = ?r # records (drop (cur + ?n + 1) data)"
      unfolding rest by (subst records.simps) (simp only: True if_True)
    have "split_loop data capacity (cur + ?n + 1) (k + 1) (max m ?n) (chunks[k := Some \<lparr>ck_buffer = cur, ck_length = ?n\<rparr>]) =
        Some (capacity, foldl max (max m ?n) (map length (records (drop (cur + ?n + 1) data))),
              take (k + 1) (chunks[k := Some \<lparr>ck_buffer = cur, ck_length = ?n\<rparr>]) @
              map Some (chunks_at (cur + ?n + 1) (records (drop (cur + ?n + 1) data))))"
      using "1.IH" [OF conjI [OF cur kc] chr refl] cur kc k n "1.prems" unfolding mx by simp
    moreover have "split_loop data capacity cur k m chunks =
        split_loop data capacity (cur + ?n + 1) (k + 1) (max m ?n) (chunks[k := Some \<lparr>ck_buffer = cur, ck_length = ?n\<rparr>])"
      using cur kc "1.prems"(2) by (subst split_loop.simps) (simp add: chr mx Let_def)
    ultimately show ?thesis
      using kc "1.prems"(2) unfolding recs by (simp add: take_Suc_conv_app_nth)
  qed
qed

definition chunk_text :: "buffer \<Rightarrow> jp_bench_chunk \<Rightarrow> byte list" where
  "chunk_text data c = take (ck_length c) (drop (ck_buffer c) data)"

lemma chunk_text_at [simp]: "chunk_text data \<lparr>ck_buffer = i, ck_length = n\<rparr> = take n (drop i data)"
  by (simp add: chunk_text_def)

lemma chunks_at_text: "drop cur data = bs \<Longrightarrow> map (chunk_text data) (chunks_at cur (records bs)) = records bs"
proof (induction bs arbitrary: cur rule: records.induct)
  case (1 bs)
  show ?case
  proof (cases "30 \<in> set bs")
    case False
    then show ?thesis by (simp add: records.simps)
  next
    case True
    let ?r = "takeWhile (\<lambda>c. c \<noteq> 30) bs" and ?bs = "tl (dropWhile (\<lambda>c. c \<noteq> 30) bs)"
    have recs: "records bs = ?r # records ?bs" by (subst records.simps) (simp only: True if_True)
    have "drop (cur + length ?r + 1) data = ?bs"
      using drop_separator(1) [OF True] by (simp add: "1.prems" [symmetric] ac_simps)
    from "1.IH" [OF True this] have "map (chunk_text data) (chunks_at (cur + length ?r + 1) (records ?bs)) = records ?bs" .
    moreover have "take (length ?r) (drop cur data) = ?r" unfolding "1.prems" by (rule takeWhile_eq_take [symmetric])
    ultimately show ?thesis unfolding recs by simp
  qed
qed

lemma length_record: "list_all (\<lambda>r. length r \<le> length bs) (records bs)"
proof (induction bs rule: records.induct)
  case (1 bs)
  show ?case
  proof (cases "30 \<in> set bs")
    case True
    have "length (tl (dropWhile (\<lambda>c. c \<noteq> 30) bs)) \<le> length bs"
      using length_dropWhile_le [of "\<lambda>c. c \<noteq> 30" bs] unfolding length_tl by linarith
    then have "list_all (\<lambda>r. length r \<le> length bs) (records (tl (dropWhile (\<lambda>c. c \<noteq> 30) bs)))"
      using "1.IH" [OF True] by (auto simp only: list_all_iff intro: order_trans)
    with True show ?thesis by (subst records.simps) (simp add: length_takeWhile_le)
  qed (subst records.simps, simp)
qed

lemma foldl_max_le: "foldl max m xs \<le> n \<longleftrightarrow> m \<le> n \<and> list_all (\<lambda>x. x \<le> n) xs" for n :: nat
  by (induction xs arbitrary: m) auto

text \<open>A data file that can be mapped, with sizes that do not wrap.\<close>

definition bench_file :: "bench_files \<Rightarrow> cstring \<Rightarrow> cstring \<Rightarrow> nat \<Rightarrow> byte list \<Rightarrow> bool" where
  "bench_file fs data_dir filename sizeof_chunk data \<longleftrightarrow>
     (let path = take (JP_PATH_MAX - 1) (data_dir @ bytes ''/'' @ filename)
      in bf_open fs path \<and> bf_stat fs path = Some (length data) \<and> bf_mmap fs path (length data) = Some data) \<and>
     0 < sizeof_chunk \<and> sizeof_chunk * length data < 2 ^ 64 \<and> 6 * length data < 2 ^ 64"

lemma bench_prepare:
  assumes "bench_file fs data_dir filename sizeof_chunk data" "30 \<in> set data"
  shows "\<exists>d. jp_bench_data_prepare fs data_dir sizeof_chunk filename = Some (Some d, [Bench_Object, Bench_Mapping, Bench_Chunks]) \<and>
     bd_chunks d = map Some (chunks_at 0 (records data)) \<and> bd_data d = data \<and> bd_chunk_size d = length (records data) \<and>
     bd_max_chunk_size d = foldl max 0 (map length (records data)) \<and> bd_total_size d = length data"
proof -
  let ?n = "count_list data 30"
  have "sizeof_chunk * ?n \<le> sizeof_chunk * length data" by (simp add: count_le_length)
  also have "\<dots> < 2 ^ 64" using assms by (simp add: bench_file_def)
  finally have "sizeof_chunk * ?n < 2 ^ 64" .
  then have "unat (of_nat sizeof_chunk * of_nat ?n :: size_t) = sizeof_chunk * ?n"
    by (simp add: unat_of_nat flip: of_nat_mult)
  moreover have "0 < ?n" using assms(2) by (metis count_list_0_iff gr0I)
  ultimately have "0 < unat (of_nat sizeof_chunk * of_nat ?n :: size_t)" "unat (of_nat sizeof_chunk * of_nat ?n :: size_t) div sizeof_chunk = ?n"
    using assms(1) by (simp_all add: bench_file_def)
  then show ?thesis
    using assms(1) split_loop_eq [of 0 0 data ?n "replicate ?n None" 0]
    by (simp add: jp_bench_data_prepare_def bench_file_def Let_def count_separators_eq length_records)
qed

lemma bench_prepare_none:
  assumes "bench_file fs data_dir filename sizeof_chunk data" "30 \<notin> set data"
  shows "jp_bench_data_prepare fs data_dir sizeof_chunk filename = None"
proof -
  have "count_list data 30 = 0" using assms(2) by (simp add: count_notin)
  with assms(1) show ?thesis
    by (simp add: jp_bench_data_prepare_def bench_file_def Let_def count_separators_eq JP_ATTR_ASSUME_def)
qed

text \<open>
  The division of a data file. For every file that can be mapped and has a separator, no store leaves the array of chunks, the chunks
  are exactly the texts that a separator ends, in order, the size kept is the greatest of their lengths, and
  \<open>jp_bench_data_destroy\<close> frees everything.
\<close>

theorem bench_prepare_correct:
  assumes "bench_file fs data_dir filename sizeof_chunk data" "30 \<in> set data"
  shows "\<exists>d held. jp_bench_data_prepare fs data_dir sizeof_chunk filename = Some (Some d, held) \<and>
     map (map_option (chunk_text (bd_data d))) (bd_chunks d) = map Some (records data) \<and>
     bd_chunk_size d = length (records data) \<and>
     (\<forall>m. bd_max_chunk_size d \<le> m \<longleftrightarrow> list_all (\<lambda>r. length r \<le> m) (records data)) \<and>
     jp_bench_data_destroy (Some d) held = []"
proof -
  obtain d where d: "jp_bench_data_prepare fs data_dir sizeof_chunk filename = Some (Some d, [Bench_Object, Bench_Mapping, Bench_Chunks])"
    "bd_chunks d = map Some (chunks_at 0 (records data))" "bd_data d = data" "bd_chunk_size d = length (records data)"
    "bd_max_chunk_size d = foldl max 0 (map length (records data))"
    using bench_prepare [OF assms] by blast
  have "map (map_option (chunk_text data)) (map Some (chunks_at 0 (records data))) =
      map Some (map (chunk_text data) (chunks_at 0 (records data)))" by simp
  also have "\<dots> = map Some (records data)" using chunks_at_text [of 0 data data] by simp
  finally show ?thesis
    using d by (simp add: foldl_max_le jp_bench_data_destroy_def list.pred_map comp_def)
qed

definition example_files :: bench_files where
  "example_files = \<lparr>bf_open = (\<lambda>_. True), bf_stat = (\<lambda>_. Some 6), bf_mmap = (\<lambda>_ _. Some [97, 30, 98, 99, 30, 100])\<rparr>"

lemma example_file: "bench_file example_files (bytes ''data'') (bytes ''f'') 16 [97, 30, 98, 99, 30, 100]"
  by (simp add: bench_file_def example_files_def Let_def)

theorem bench_prepare_correct_witness:
  "\<exists>d held. jp_bench_data_prepare example_files (bytes ''data'') 16 (bytes ''f'') = Some (Some d, held) \<and>
     map (map_option (chunk_text (bd_data d))) (bd_chunks d) = [Some [97], Some [98, 99]]"
  using bench_prepare_correct [OF example_file] by (auto simp: records.simps)

section \<open>The encoder has room\<close>

lemma encode_rounds_ok:
  assumes "bd_chunks d = map Some cs" "bd_chunk_size d = length cs" "cs \<noteq> []"
    and "list_all (\<lambda>c. 6 * length (chunk_text (bd_data d) c) \<le> dest_len) cs"
  shows "length dest = dest_len \<Longrightarrow> \<exists>dest'. encode_rounds d dest_len is dest = Some dest' \<and> length dest' = dest_len"
proof (induction "is" arbitrary: dest)
  case (Cons i "is")
  have i: "i mod length cs < length cs" using assms(3) by simp
  let ?c = "cs ! (i mod length cs)"
  have fits: "6 * length (chunk_text (bd_data d) ?c) \<le> dest_len" using assms(4) i by (simp add: list_all_length)
  then have "length (json_escape_all (chunk_text (bd_data d) ?c)) \<le> length dest"
    using length_json_escape_all [of "chunk_text (bd_data d) ?c"] Cons.prems by simp
  then have "\<exists>n dest'. jp_json_value_encoder (chunk_text (bd_data d) ?c) dest 0 dest_len = Some (n, dest') \<and>
      length dest' = dest_len"
    using fits Cons.prems by (simp add: jp_json_value_encoder_copy json_escape_upto_all buf_copy_def)
  with Cons.IH assms(1-3) i show ?case by (auto simp: chunk_text_def)
qed simp

lemma bench_encoder_runs:
  assumes "bench_file fs data_dir filename sizeof_chunk data"
  shows "bench_json_value_encoder junk fs data_dir sizeof_chunk filename iterations =
     (if \<exists>r \<in> set (records data). r \<noteq> [] then Some (Some []) else None)"
proof (cases "30 \<in> set data")
  case False
  then have "records data = []" by (subst records.simps) simp
  with bench_prepare_none [OF assms False] show ?thesis by (simp add: bench_json_value_encoder_def)
next
  case True
  obtain d where d: "jp_bench_data_prepare fs data_dir sizeof_chunk filename = Some (Some d, [Bench_Object, Bench_Mapping, Bench_Chunks])"
    "bd_chunks d = map Some (chunks_at 0 (records data))" "bd_data d = data" "bd_chunk_size d = length (records data)"
    "bd_max_chunk_size d = foldl max 0 (map length (records data))"
    using bench_prepare [OF assms True] by blast
  let ?cs = "chunks_at 0 (records data)" and ?m = "bd_max_chunk_size d"
  have max: "?m \<le> n \<longleftrightarrow> (\<forall>r \<in> set (records data). length r \<le> n)" for n
    using d(5) by (simp add: foldl_max_le list_all_iff)
  show ?thesis
  proof (cases "\<exists>r \<in> set (records data). r \<noteq> []")
    case empty: False
    then have "?m = 0" using max [of 0] by auto
    with d(1) show ?thesis
      unfolding if_not_P [OF empty] by (simp add: bench_json_value_encoder_def Let_def new_object_def JP_ATTR_ASSUME_def)
  next
    case full: True
    have texts: "map (chunk_text data) ?cs = records data" by (rule chunks_at_text) simp
    have "list_all (\<lambda>r. length r \<le> ?m) (map (chunk_text data) ?cs)"
      using max [of ?m] unfolding texts by (simp add: list_all_iff)
    then have cs: "list_all (\<lambda>c. length (chunk_text data c) \<le> ?m) ?cs" by (simp add: list.pred_map comp_def)
    have len: "length ?cs = length (records data)" using arg_cong [OF texts, of length] by simp
    then have ne: "?cs \<noteq> []" using full by auto
    have pos: "0 < ?m" using max [of 0] full by auto
    from length_record [of data] have "?m \<le> length data" using max by (simp add: list_all_iff)
    then have m: "unat (of_nat ?m * 6 :: size_t) = 6 * ?m"
      using assms by (simp add: bench_file_def unat_word_ariths unat_of_nat)
    have rounds: "\<exists>dest'. encode_rounds d (6 * ?m) is dest = Some dest' \<and> length dest' = 6 * ?m" if "length dest = 6 * ?m" for "is" dest
      using d cs len ne that by (intro encode_rounds_ok [where cs = ?cs]) (auto simp: list_all_iff)
    obtain dest where dest: "encode_rounds d (6 * ?m) [0..<1000] (malloc_bytes junk (6 * ?m)) = Some dest" "length dest = 6 * ?m"
      using rounds by (metis length_malloc_bytes)
    obtain dest' where "encode_rounds d (6 * ?m) [0..<iterations] dest = Some dest'" using rounds [OF dest(2)] by blast
    with dest full d(1) m pos show ?thesis
      by (simp add: bench_json_value_encoder_def jp_bench_data_destroy_def Let_def del: upt_rec_numeral)
  qed
qed

text \<open>
  The benchmark of the encoder: for a file with a record that is not empty every round finds its record and encodes it
  inside the destination, and nothing of the data is left at the end. For any other file the behaviour is undefined:
  without a record the array of chunks, and with empty records only the destination, is an object of size 0.
\<close>

theorem bench_encoder_safe:
  assumes "bench_file fs data_dir filename sizeof_chunk data"
  shows "bench_json_value_encoder junk fs data_dir sizeof_chunk filename iterations =
     (if \<exists>r \<in> set (records data). r \<noteq> [] then Some (Some []) else None)"
  by (rule bench_encoder_runs [OF assms])

theorem bench_encoder_safe_witness:
  "bench_json_value_encoder (\<lambda>_. []) example_files (bytes ''data'') 16 (bytes ''f'') 1000000 = Some (Some [])"
  using bench_encoder_safe [OF example_file, of "\<lambda>_. []" 1000000] by (simp add: records.simps)

text \<open>With data files that have a record that is not empty the benchmark program ends with status 0.\<close>

lemma bench_json_calls_succeed:
  assumes "\<And>name filename n. (name, filename, n) \<in> set calls \<Longrightarrow>
      \<exists>data. bench_file fs data_dir filename sizeof_chunk data \<and> (\<exists>r \<in> set (records data). r \<noteq> [])"
  shows "bench_json_calls junk fs data_dir sizeof_chunk calls = Some 0"
  using assms
proof (induction calls)
  case (Cons c calls)
  obtain name filename n where c: "c = (name, filename, n)" by (cases c)
  with Cons.prems [of name filename n] obtain data where
    data: "bench_file fs data_dir filename sizeof_chunk data" "\<exists>r \<in> set (records data). r \<noteq> []" by auto
  have "bench_json_calls junk fs data_dir sizeof_chunk calls = Some 0"
  proof (rule Cons.IH)
    fix name filename n
    assume "(name, filename, n) \<in> set calls"
    then show "\<exists>data. bench_file fs data_dir filename sizeof_chunk data \<and> (\<exists>r \<in> set (records data). r \<noteq> [])"
      using Cons.prems [of name filename n] by simp
  qed
  with bench_encoder_runs [OF data(1), of junk n] data(2) show ?case by (simp add: c)
qed simp

theorem bench_json_main_succeeds:
  assumes "\<And>name filename n. (name, filename, n) \<in> set bench_json_main \<Longrightarrow>
      \<exists>data. bench_file fs data_dir filename sizeof_chunk data \<and> (\<exists>r \<in> set (records data). r \<noteq> [])"
  shows "bench_json_calls junk fs data_dir sizeof_chunk bench_json_main = Some 0"
  by (rule bench_json_calls_succeed [OF assms])

end
