(* ===== verification/JP_Bench_Queue.thy ===== *)
theory JP_Bench_Queue
  imports JP_Queue_Pace JP_Bench
begin

text \<open>
  \<^verbatim>\<open>bench/queue.c\<close>: a thread that pushes a number of blocks of one byte and a thread that pops until the queue shuts
  down, over one queue of each of several capacities. The threads are steps over the states of \<open>JP_Queue_Conc\<close>: inside
  the functions of the queue they take the steps of the queue, and between the calls the steps of their own code. The
  thread that pushes, \<open>data_writer\<close>, has the place of \<^const>\<open>Reader\<close> there, and the thread that pops, \<open>data_reader\<close>, the
  place of \<^const>\<open>Writer\<close>; there is no watcher. The starting and the joining of the threads are taken to succeed, as the
  code does.
\<close>

section \<open>The two threads\<close>

record bench_threads =
  bt_conc :: conc
  bt_i :: "64 word" \<comment> \<open>the loop counter of \<open>data_writer\<close>\<close>

text \<open>\<^verbatim>\<open>block->data[0] = 65\<close> and \<^verbatim>\<open>block->length = 1\<close>; \<^const>\<open>None\<close> is a store outside the area.\<close>

definition bench_fill :: "size_t \<Rightarrow> jp_queue \<Rightarrow> jp_queue option" where
  "bench_fill i q =
     (let b = q_blocks q ! unat i
      in do {
        area \<leftarrow> buf_set (q_area q) (blk_data b) 65;
        Some (q\<lparr>q_area := area, q_blocks := (q_blocks q)[unat i := b\<lparr>blk_length := 1\<rparr>]\<rparr>)
      })"

fun in_push :: "pc \<Rightarrow> bool" where
  "in_push Push_Length = True" | "in_push Push_Lock = True" | "in_push Push_Test = True"
| "in_push Push_Awake = True" | "in_push Push_Commit_Lock = True" | "in_push Push_Commit_Store = True"
| "in_push Push_Commit_Signal = True" | "in_push _ = False"

fun in_pop :: "pc \<Rightarrow> bool" where
  "in_pop Ready = True" | "in_pop Pop_Lock = True" | "in_pop Pop_Test = True" | "in_pop Pop_Awake = True"
| "in_pop Pop_Commit_Lock = True" | "in_pop Pop_Commit_Store = True" | "in_pop Pop_Commit_Signal = True"
| "in_pop Pop_Commit_Unlock = True" | "in_pop _ = False"

inductive data_writer :: "64 word \<Rightarrow> bench_threads \<Rightarrow> bench_threads \<Rightarrow> bool" for iterations where
  dw_call: "pcs c Reader = Ready \<Longrightarrow> i < iterations \<Longrightarrow>
    data_writer iterations \<lparr>bt_conc = c, bt_i = i\<rparr>
      \<lparr>bt_conc = goto Reader (if q_active (cq c) then Push_Length else Fin_Start) c, bt_i = i\<rparr>"
| dw_leave: "pcs c Reader = Ready \<Longrightarrow> \<not> i < iterations \<Longrightarrow>
    data_writer iterations \<lparr>bt_conc = c, bt_i = i\<rparr> \<lparr>bt_conc = goto Reader Fin_Start c, bt_i = i\<rparr>"
| dw_queue: "in_push (pcs c Reader) \<Longrightarrow> reader_step c c' \<Longrightarrow>
    data_writer iterations \<lparr>bt_conc = c, bt_i = i\<rparr> \<lparr>bt_conc = c', bt_i = i\<rparr>"
| dw_return: "pcs c Reader = Push_Unlock r \<Longrightarrow>
    data_writer iterations \<lparr>bt_conc = c, bt_i = i\<rparr>
      \<lparr>bt_conc = goto Reader (case r of Inr j \<Rightarrow> Push_Reset j | Inl e \<Rightarrow> Fin_Start) (c\<lparr>owner := None\<rparr>), bt_i = i\<rparr>"
| dw_fill: "pcs c Reader = Push_Reset j \<Longrightarrow> bench_fill j (cq c) = Some q' \<Longrightarrow>
    data_writer iterations \<lparr>bt_conc = c, bt_i = i\<rparr> \<lparr>bt_conc = goto Reader Push_Commit_Lock (c\<lparr>cq := q'\<rparr>), bt_i = i\<rparr>"
| dw_round: "pcs c Reader = Push_Commit_Unlock \<Longrightarrow>
    data_writer iterations \<lparr>bt_conc = c, bt_i = i\<rparr> \<lparr>bt_conc = goto Reader Ready (c\<lparr>owner := None\<rparr>), bt_i = i + 1\<rparr>"
| dw_finalize: "final_step Reader c c' \<Longrightarrow> data_writer iterations \<lparr>bt_conc = c, bt_i = i\<rparr> \<lparr>bt_conc = c', bt_i = i\<rparr>"

text \<open>The block that \<open>data_reader\<close> is given, it does not look at; \<open>got\<close> records its bytes all the same.\<close>

inductive data_reader :: "conc \<Rightarrow> conc \<Rightarrow> bool" where
  dr_queue: "in_pop (pcs c Writer) \<Longrightarrow> writer_step c c' \<Longrightarrow> data_reader c c'"
| dr_return: "pcs c Writer = Pop_Unlock r \<Longrightarrow>
    data_reader c (goto Writer (case r of Inr j \<Rightarrow> Pop_Own j | Inl e \<Rightarrow> Done) (c\<lparr>owner := None\<rparr>))"
| dr_commit: "pcs c Writer = Pop_Own j \<Longrightarrow>
    data_reader c (goto Writer Pop_Commit_Lock (c\<lparr>got := got c @ [block_bytes j (cq c)]\<rparr>))"

text \<open>One step of the benchmark, and whether it is a spurious wakeup.\<close>

inductive bench_step :: "64 word \<Rightarrow> bool \<Rightarrow> bench_threads \<Rightarrow> bench_threads \<Rightarrow> bool" for iterations where
  bs_writer: "data_writer iterations b b' \<Longrightarrow> bench_step iterations False b b'"
| bs_reader: "data_reader c c' \<Longrightarrow> bench_step iterations False \<lparr>bt_conc = c, bt_i = i\<rparr> \<lparr>bt_conc = c', bt_i = i\<rparr>"
| bs_spurious: "env_step c c' \<Longrightarrow> pcs c' Watcher = pcs c Watcher \<Longrightarrow>
    bench_step iterations True \<lparr>bt_conc = c, bt_i = i\<rparr> \<lparr>bt_conc = c', bt_i = i\<rparr>"

text \<open>Executions of \<open>n\<close> steps, \<open>s\<close> of them spurious wakeups.\<close>

inductive bench_run :: "64 word \<Rightarrow> jp_queue \<Rightarrow> nat \<Rightarrow> nat \<Rightarrow> bench_threads \<Rightarrow> bool" for iterations q where
  br_start: "bench_run iterations q 0 0 \<lparr>bt_conc = conc_start q, bt_i = 0\<rparr>"
| br_step: "bench_run iterations q n s b \<Longrightarrow> bench_step iterations e b b' \<Longrightarrow>
    bench_run iterations q (Suc n) (if e then Suc s else s) b'"

section \<open>The program\<close>

text \<open>
  Before the threads start: the queue, or the exit status. \<open>EXIT_FAILURE\<close> is 1.
\<close>

definition bench_queue_create ::
  "(nat \<Rightarrow> buffer) \<Rightarrow> size_t \<Rightarrow> size_t \<Rightarrow> int \<Rightarrow> int \<Rightarrow> int \<Rightarrow> size_t \<Rightarrow> (int + jp_queue \<times> queue_resource list) option"
where
  "bench_queue_create junk sizeof_queue sizeof_block mutex_init not_empty_init not_full_init capacity =
     do {
       (queue, err, held) \<leftarrow> jp_queue_create junk sizeof_queue sizeof_block mutex_init not_empty_init not_full_init
         capacity (of_nat BYTES_IN_KB) JP_QUEUE_POLICY_WAIT;
       Some (case queue of
               Some q \<Rightarrow> if err \<noteq> None then Inl 1 else Inr (q, held)
             | None \<Rightarrow> Inl 1)
     }"

text \<open>After both threads are joined, the report left out.\<close>

definition bench_queue_close ::
  "timespec \<Rightarrow> jp_bench \<Rightarrow> jp_queue \<Rightarrow> queue_resource list \<Rightarrow> (jp_bench \<times> queue_resource list) option"
where
  "bench_queue_close now bench queue held =
     do { bench \<leftarrow> jp_bench_stop now bench; Some (bench, jp_queue_destroy (Some queue) held) }"

text \<open>The calls of \<^verbatim>\<open>main\<close>: a name, a capacity, the number of iterations.\<close>

definition bench_queue_main :: "(cstring \<times> size_t \<times> 64 word) list" where
  "bench_queue_main =
     [(bytes ''Warm-Up: 1'', 128, 10000000), (bytes ''Warm-Up: 2'', 128, 10000000),
      (bytes ''Warm-Up: 3'', 128, 10000000), (bytes ''Queue Capacity: 8'', 8, 10000000),
      (bytes ''Queue Capacity: 32'', 32, 10000000), (bytes ''Queue Capacity: 256'', 256, 10000000),
      (bytes ''Queue Capacity: 1024'', 1024, 10000000)]"

section \<open>The invariant\<close>

lemma bench_fill_eq:
  "unat i < length (q_blocks q) \<Longrightarrow> bench_fill i q = block_append i [65] (block_reset i q)"
  by (simp add: bench_fill_def block_append_def block_reset_def buf_set_copy Let_def)

fun ending :: "pc \<Rightarrow> bool" where
  "ending Fin_Start = True" | "ending Fin_Lock = True" | "ending Fin_Store = True" | "ending Fin_Broadcast = True"
| "ending Fin_Unlock = True" | "ending Done = True" | "ending _ = False"

definition committed :: "pc \<Rightarrow> nat" where
  "committed p = (if p = Push_Commit_Signal \<or> p = Push_Commit_Unlock then 1 else 0)"

text \<open>
  The blocks committed are one for each round; the round under way is below the limit, and the thread ends only when
  all rounds are done; the queue is active until then.
\<close>

definition bench_inv :: "64 word \<Rightarrow> conc \<Rightarrow> 64 word \<Rightarrow> bool" where
  "bench_inv iterations c i \<longleftrightarrow>
     q_policy (cq c) = JP_QUEUE_POLICY_WAIT \<and> 1 \<le> qchunk (cq c) \<and> \<not> failed c \<and> \<not> signalled c \<and>
     pcs c Watcher = Ready \<and> (ending (pcs c Writer) \<longrightarrow> pcs c Writer = Done) \<and>
     sent c = replicate (unat i + committed (pcs c Reader)) [65] \<and>
     i \<le> iterations \<and> (ending (pcs c Reader) \<longrightarrow> i = iterations) \<and>
     (push_pc (pcs c Reader) \<and> \<not> common_pc (pcs c Reader) \<longrightarrow> i < iterations) \<and>
     (q_active (cq c) \<longleftrightarrow> \<not> ended_pc (pcs c Reader)) \<and>
     (\<forall>r. pcs c Reader = Push_Unlock r \<longrightarrow> (\<exists>j. r = Inr j)) \<and>
     (\<forall>j. pcs c Reader \<noteq> Push_Own j) \<and>
     (pcs c Reader = Push_Commit_Lock \<or> pcs c Reader = Push_Commit_Store \<longrightarrow>
        block_bytes (q_tail (cq c)) (cq c) = [65])"

lemma bench_inv_start:
  "q_policy q = JP_QUEUE_POLICY_WAIT \<Longrightarrow> q_active q \<Longrightarrow> 1 \<le> qchunk q \<Longrightarrow> bench_inv iterations (conc_start q) 0"
  by (simp add: bench_inv_def conc_start_def committed_def ended_pc_def)

lemma push_after_wait_active:
  "q_policy q = JP_QUEUE_POLICY_WAIT \<Longrightarrow> q_active q \<Longrightarrow> push_after_wait q = Inr (q_tail q)"
  by (simp add: push_after_wait_def)

lemma block_bytes_pop_commit [simp]: "block_bytes i (jp_queue_pop_commit q) = block_bytes i q"
  by (simp add: block_bytes_def jp_queue_pop_commit_def)

lemma tail_pop_commit [simp]: "q_tail (jp_queue_pop_commit q) = q_tail q"
  by (simp add: jp_queue_pop_commit_def)

lemma block_bytes_inactive [simp]: "block_bytes i (q\<lparr>q_active := a\<rparr>) = block_bytes i q"
  by (simp add: block_bytes_def)

lemma bench_reader:
  assumes "data_reader c c'" "bench_inv iterations c i"
  shows "bench_inv iterations c' i"
  using assms
proof (induction rule: data_reader.induct)
  case (dr_queue c c')
  from dr_queue(2,1,3) show ?case
    by (induction rule: writer_step.induct) (auto simp: bench_inv_def committed_def ended_pc_def)
next
  case (dr_return c r)
  then show ?case by (cases r) (auto simp: bench_inv_def)
qed (simp add: bench_inv_def)

lemma bench_spurious:
  "env_step c c' \<Longrightarrow> pcs c' Watcher = pcs c Watcher \<Longrightarrow> bench_inv iterations c i \<Longrightarrow> bench_inv iterations c' i"
  by (induction rule: env_step.induct) (auto simp: bench_inv_def committed_def ended_pc_def)

lemma bench_finalize:
  "final_step Reader c c' \<Longrightarrow> bench_inv iterations c i \<Longrightarrow> bench_inv iterations c' i"
  by (induction rule: final_step.induct) (auto simp: bench_inv_def committed_def ended_pc_def)

lemma bench_pushing:
  "reader_step c c' \<Longrightarrow> in_push (pcs c Reader) \<Longrightarrow> bench_inv iterations c i \<Longrightarrow> bench_inv iterations c' i"
proof (induction rule: reader_step.induct)
  case (r_go c)
  then have "push_after_wait (cq c) = Inr (q_tail (cq c))"
    by (simp add: bench_inv_def push_after_wait_active ended_pc_def)
  with r_go show ?case by (simp add: bench_inv_def committed_def ended_pc_def)
next
  case (r_commit_store c)
  then show ?case by (simp add: bench_inv_def committed_def ended_pc_def replicate_append_same)
next
  case (r_lock c)
  then show ?case by (elim disjE) (simp_all add: bench_inv_def committed_def ended_pc_def)
qed (simp_all add: bench_inv_def committed_def ended_pc_def)

lemma bench_fill_ok:
  assumes "conc_inv c" "bench_inv iterations c i" "pcs c Reader = Push_Reset j"
  obtains q1 where "j = q_tail (cq c)" "bench_fill j (cq c) = Some q1"
    "block_append j [65] (block_reset j (cq c)) = Some q1"
    "blk_length (q_blocks (block_reset j (cq c)) ! unat j) + length [65::byte] \<le> qchunk (block_reset j (cq c))"
    "block_bytes j q1 = [65]" "q1 = (cq c)\<lparr>q_area := q_area q1, q_blocks := q_blocks q1\<rparr>"
proof -
  have j: "j = q_tail (cq c)" and ok: "queue_ok (cq c)" and room: "qlen (cq c) < qcap (cq c)" and chunk: "1 \<le> qchunk (cq c)"
    using assms by (simp_all add: conc_inv_def data_inv_def bench_inv_def)
  then have l: "unat j < length (q_blocks (cq c))" by (simp add: queue_ok_def blocks_ok_def)
  from chunk have "length [65::byte] \<le> qchunk (cq c)" by simp
  from fill_block [OF ok room this] obtain q1 where
    "block_append j [65] (block_reset j (cq c)) = Some q1" "block_bytes j q1 = [65]"
    "q1 = (cq c)\<lparr>q_area := q_area q1, q_blocks := q_blocks q1\<rparr>" unfolding j by blast
  with j bench_fill_eq [OF l] show thesis
    using chunk l by (intro that [of q1]) (simp_all add: block_reset_def)
qed

lemma bench_fill_run:
  assumes "conc_inv c" "bench_inv iterations c i" "pcs c Reader = Push_Reset j" "bench_fill j (cq c) = Some q'"
  shows "j = q_tail (cq c)" "block_append j [65] (block_reset j (cq c)) = Some q'"
    and "blk_length (q_blocks (block_reset j (cq c)) ! unat j) + length [65::byte] \<le> qchunk (block_reset j (cq c))"
    and "block_bytes j q' = [65]" "q_tail q' = q_tail (cq c)" "q_policy q' = q_policy (cq c)"
    and "q_chunk_size q' = q_chunk_size (cq c)" "q_active q' = q_active (cq c)"
proof -
  obtain q1 where q1: "j = q_tail (cq c)" "bench_fill j (cq c) = Some q1"
    "block_append j [65] (block_reset j (cq c)) = Some q1"
    "blk_length (q_blocks (block_reset j (cq c)) ! unat j) + length [65::byte] \<le> qchunk (block_reset j (cq c))"
    "block_bytes j q1 = [65]" "q1 = (cq c)\<lparr>q_area := q_area q1, q_blocks := q_blocks q1\<rparr>"
    using bench_fill_ok [OF assms(1-3)] .
  have eq: "q' = q1" using assms(4) q1(2) by simp
  show "j = q_tail (cq c)" by (rule q1(1))
  show "block_append j [65] (block_reset j (cq c)) = Some q'" unfolding eq by (rule q1(3))
  show "blk_length (q_blocks (block_reset j (cq c)) ! unat j) + length [65::byte] \<le> qchunk (block_reset j (cq c))"
    by (rule q1(4))
  show "block_bytes j q' = [65]" unfolding eq by (rule q1(5))
  show "q_tail q' = q_tail (cq c)" "q_policy q' = q_policy (cq c)" "q_chunk_size q' = q_chunk_size (cq c)"
    "q_active q' = q_active (cq c)" unfolding eq by (subst q1(6), simp)+
qed

lemma bench_writer:
  assumes "data_writer iterations b b'" "conc_inv (bt_conc b)" "bench_inv iterations (bt_conc b) (bt_i b)"
  shows "bench_inv iterations (bt_conc b') (bt_i b')"
  using assms
proof (induction rule: data_writer.induct)
  case (dw_call c i)
  then show ?case by (simp add: bench_inv_def committed_def ended_pc_def)
next
  case (dw_leave c i)
  then show ?case by (simp add: bench_inv_def committed_def ended_pc_def)
next
  case (dw_queue c c' i)
  then show ?case by (simp add: bench_pushing)
next
  case (dw_return c r i)
  then obtain j where "r = Inr j" by (auto simp: bench_inv_def)
  with dw_return show ?case by (simp add: bench_inv_def committed_def ended_pc_def)
next
  case (dw_fill c j q' i)
  have inv: "conc_inv c" "bench_inv iterations c i" using dw_fill by simp_all
  note fill = bench_fill_run [OF inv dw_fill(1,2)]
  show ?case using inv(2) fill dw_fill(1) by (simp add: bench_inv_def committed_def ended_pc_def)
next
  case (dw_round c i)
  then have "i < iterations" by (simp add: bench_inv_def)
  moreover have "unat iterations < 2 ^ 64" using unsigned_less [of iterations] by simp
  ultimately have "unat (i + 1) = unat i + 1" "i + 1 \<le> iterations"
    by (simp_all add: word_less_nat_alt word_le_nat_alt unat_word_ariths)
  with dw_round show ?case by (simp add: bench_inv_def committed_def ended_pc_def)
next
  case (dw_finalize c c' i)
  then show ?case by (simp add: bench_finalize)
qed

section \<open>The benchmark is an execution of the queue\<close>

lemma reader_turn:
  "reader_step c c' \<Longrightarrow> turn c c' \<Longrightarrow> pcs c Reader = Push_Commit_Store \<or> (\<exists>e. pcs c Reader = Push_Unlock (Inl e))"
  using reader_no_env [of c c'] by (auto simp: turn_def)

lemma paced_reader:
  assumes "paced n k c d" "reader_step d e" "pcs d Reader \<noteq> Push_Commit_Store" "\<nexists>x. pcs d Reader = Push_Unlock (Inl x)"
  shows "paced (Suc n) k c e"
  using assms reader_turn by (intro paced_step [OF assms(1)]) (auto simp: conc_step_defs)

lemma sent_grows: "reader_step c c' \<Longrightarrow>
   length (sent c') = length (sent c) + (if pcs c Reader = Push_Commit_Store then 1 else 0)"
  by (induction rule: reader_step.induct) auto

lemma sent_writer: "writer_step c c' \<Longrightarrow> sent c' = sent c"
  by (induction rule: writer_step.induct) simp_all

lemma sent_final: "final_step t c c' \<Longrightarrow> sent c' = sent c"
  by (induction rule: final_step.induct) simp_all

lemma sent_env: "env_step c c' \<Longrightarrow> sent c' = sent c"
  by (induction rule: env_step.induct) simp_all

definition advances :: "bool \<Rightarrow> conc \<Rightarrow> conc \<Rightarrow> bool" where
  "advances e c c' \<longleftrightarrow>
     (\<exists>n k. paced n k c c' \<and> 1 \<le> n \<and> k + length (sent c) \<le> length (sent c') + (if e then 1 else 0))"

lemma advances_writer:
  assumes "data_writer iterations b b'" "conc_inv (bt_conc b)" "bench_inv iterations (bt_conc b) (bt_i b)"
  shows "advances False (bt_conc b) (bt_conc b')"
  using assms
proof (induction rule: data_writer.induct)
  case (dw_call c i)
  have "paced (Suc 0) 0 c (goto Reader (if q_active (cq c) then Push_Length else Fin_Start) c)"
    using dw_call by (intro paced_reader [OF paced_start r_call]) simp_all
  then show ?case unfolding advances_def by (intro exI [of _ "Suc 0"] exI [of _ 0]) simp
next
  case (dw_leave c i)
  have "paced (Suc 0) 0 c (goto Reader Fin_Start c)"
    using dw_leave by (intro paced_reader [OF paced_start r_end]) simp_all
  then show ?case unfolding advances_def by (intro exI [of _ "Suc 0"] exI [of _ 0]) simp
next
  case (dw_queue c c' i)
  have "turn c c' \<Longrightarrow> pcs c Reader = Push_Commit_Store" using reader_turn [OF dw_queue(2)] dw_queue(1) by auto
  with dw_queue paced_one [of c c'] sent_grows [OF dw_queue(2)] show ?case
    unfolding advances_def by (intro exI [of _ 1] exI [of _ "if turn c c' then 1 else 0"]) (simp add: conc_step_defs)
next
  case (dw_return c r i)
  then obtain j where r: "r = Inr j" by (auto simp: bench_inv_def)
  have "paced (Suc 0) 0 c (goto Reader (Push_Reset j) (c\<lparr>owner := None\<rparr>))"
    using paced_reader [OF paced_start r_return [of c r]] dw_return(1) r by simp
  with r show ?case unfolding advances_def by (intro exI [of _ "Suc 0"] exI [of _ 0]) simp
next
  case (dw_fill c j q' i)
  have inv: "conc_inv c" "bench_inv iterations c i" using dw_fill by simp_all
  let ?c1 = "goto Reader (Push_Own j) (c\<lparr>cq := block_reset j (cq c)\<rparr>)"
  have fill: "block_append j [65] (cq ?c1) = Some q'" "blk_length (q_blocks (cq ?c1) ! unat j) + length [65::byte] \<le> qchunk (cq ?c1)"
    using bench_fill_run [OF inv dw_fill(1,2)] by simp_all
  have "paced (Suc 0) 0 c ?c1" using dw_fill(1) by (intro paced_reader [OF paced_start r_reset]) simp_all
  from paced_reader [OF this r_fill [OF _ _ fill(2,1)]]
  have "paced (Suc (Suc 0)) 0 c (goto Reader (Push_Own j) (c\<lparr>cq := q'\<rparr>))"
    by (cases c) simp
  from paced_reader [OF this r_commit] have "paced (Suc (Suc (Suc 0))) 0 c (goto Reader Push_Commit_Lock (c\<lparr>cq := q'\<rparr>))"
    by (cases c) simp
  then show ?case unfolding advances_def by (intro exI [of _ "Suc (Suc (Suc 0))"] exI [of _ 0]) simp
next
  case (dw_round c i)
  have "paced (Suc 0) 0 c (goto Reader Ready (c\<lparr>owner := None\<rparr>))"
    using dw_round by (intro paced_reader [OF paced_start r_commit_unlock]) simp_all
  then show ?case unfolding advances_def by (intro exI [of _ "Suc 0"] exI [of _ 0]) simp
next
  case (dw_finalize c c' i)
  have "paced (Suc 0) 0 c c'"
    using dw_finalize final_no_turn by (intro paced_step [OF paced_start]) (auto simp: conc_step_defs)
  with sent_final [OF dw_finalize(1)] show ?case
    unfolding advances_def by (intro exI [of _ "Suc 0"] exI [of _ 0]) simp
qed

lemma advances_pop: "writer_step c c' \<Longrightarrow> advances False c c'"
  using writer_no_turn [of c c'] sent_writer [of c c'] paced_step [OF paced_start, of c c']
  unfolding advances_def by (intro exI [of _ "Suc 0"] exI [of _ 0]) (simp add: conc_step_defs)

lemma advances_reader:
  assumes "data_reader c c'" "quiet_inv c" "bench_inv iterations c i"
  shows "advances False c c'"
  using assms(1)
proof cases
  case dr_queue
  then show ?thesis by (intro advances_pop)
next
  case (dr_return r)
  show ?thesis
  proof (cases r)
    case (Inr j)
    then show ?thesis using w_return [OF dr_return(2)] dr_return(1) by (intro advances_pop) simp
  next
    case (Inl e)
    let ?c1 = "goto Writer Fin_Start (c\<lparr>owner := None\<rparr>)"
    have inactive: "\<not> q_active (cq c)" using assms(2,3) dr_return Inl by (simp add: quiet_inv_def bench_inv_def)
    have step1: "writer_step c ?c1" using w_return [OF dr_return(2)] Inl by simp
    have "final_step Writer ?c1 (goto Writer (if q_active (cq ?c1) then Fin_Lock else Done) ?c1)" by (rule f_start) simp
    then have step2: "final_step Writer ?c1 c'" using inactive dr_return(1) Inl by simp
    have "paced (Suc 0) 0 c ?c1"
      using step1 writer_no_turn by (intro paced_step [OF paced_start]) (auto simp: conc_step_defs)
    then have "paced (Suc (Suc 0)) 0 c c'"
      by (rule paced_step) (use step2 final_no_turn in \<open>auto simp: conc_step_defs\<close>)
    moreover have "sent c' = sent c" using dr_return(1) by simp
    ultimately show ?thesis unfolding advances_def by (intro exI [of _ "Suc (Suc 0)"] exI [of _ 0]) simp
  qed
next
  case (dr_commit j)
  then show ?thesis using w_read [OF dr_commit(2)] by (intro advances_pop) simp
qed

lemma bench_advances:
  assumes "bench_step iterations e b b'" "conc_inv (bt_conc b)" "quiet_inv (bt_conc b)" "bench_inv iterations (bt_conc b) (bt_i b)"
  shows "advances e (bt_conc b) (bt_conc b') \<and> bench_inv iterations (bt_conc b') (bt_i b')"
  using assms(1)
proof cases
  case bs_writer
  with assms show ?thesis by (simp add: advances_writer bench_writer)
next
  case (bs_reader c c' i)
  with assms show ?thesis using advances_reader bench_reader by auto
next
  case (bs_spurious c c' i)
  have "paced (Suc 0) (Suc 0) c c'"
    using bs_spurious by (intro paced_turn [OF paced_start]) (simp_all add: conc_step_defs turn_def)
  then have "advances e c c'"
    unfolding advances_def using sent_env [OF bs_spurious(4)] bs_spurious(1)
    by (intro exI [of _ "Suc 0"]) simp
  with bs_spurious assms(4) show ?thesis using bench_spurious by simp
qed

lemma bench_paced:
  assumes "bench_run iterations q m s b" "queue_ok q" "queue_contents q = []" "q_active q"
    and "q_policy q = JP_QUEUE_POLICY_WAIT" "1 \<le> qchunk q"
  shows "(\<exists>n k. paced n k (conc_start q) (bt_conc b) \<and> m \<le> n \<and> k \<le> length (sent (bt_conc b)) + s) \<and>
     bench_inv iterations (bt_conc b) (bt_i b)"
  using assms(1)
proof (induction rule: bench_run.induct)
  case br_start
  have "paced 0 0 (conc_start q) (conc_start q)" by (rule paced_start)
  with assms(4-6) show ?case by (auto simp: bench_inv_start)
next
  case (br_step m s b e b')
  then obtain n k where n: "paced n k (conc_start q) (bt_conc b)" "m \<le> n" "k \<le> length (sent (bt_conc b)) + s" by blast
  have reach: "conc_reach q (bt_conc b)" by (rule paced_reach [OF n(1) reach_start])
  have step: "advances e (bt_conc b) (bt_conc b') \<and> bench_inv iterations (bt_conc b') (bt_i b')"
    using br_step conc_inv_reach [OF reach assms(2,3)] quiet_inv_reach [OF reach assms(2-4)] by (intro bench_advances) auto
  then obtain n' k' where n': "paced n' k' (bt_conc b) (bt_conc b')" "1 \<le> n'"
    "k' + length (sent (bt_conc b)) \<le> length (sent (bt_conc b')) + (if e then 1 else 0)" by (auto simp: advances_def)
  from paced_trans [OF n'(1) n(1)] n(2,3) n'(2,3) step show ?case
    by (intro conjI exI [of _ "n + n'"] exI [of _ "k + k'"]) auto
qed

lemma bench_enabled:
  assumes "conc_inv c" "quiet_inv c" "bench_inv iterations c i" "pcs c Reader \<noteq> Done \<or> pcs c Writer \<noteq> Done"
  shows "\<exists>b'. bench_step iterations False \<lparr>bt_conc = c, bt_i = i\<rparr> b'"
proof -
  obtain c' where "thread_step c c'" using conc_progress [OF assms(1,4)] by blast
  then consider (r) "reader_step c c'" | (w) "writer_step c c'" | (f) t where "final_step t c c'"
    by (auto simp: thread_step_def)
  then have "(\<exists>b'. data_writer iterations \<lparr>bt_conc = c, bt_i = i\<rparr> b') \<or> (\<exists>d. data_reader c d)"
  proof cases
    case r
    have push: "push_pc (pcs c Reader)" using assms(1) by (simp add: conc_inv_def role_inv_def)
    show ?thesis
    proof (cases "in_push (pcs c Reader)")
      case True
      from dw_queue [OF this r] show ?thesis by blast
    next
      case False
      from r have "\<not> ending (pcs c Reader)" "pcs c Reader \<noteq> Push_Waiting"
        by (induction rule: reader_step.induct) auto
      with push False assms(3) consider "pcs c Reader = Ready" | x where "pcs c Reader = Push_Unlock x" |
        j where "pcs c Reader = Push_Reset j" | "pcs c Reader = Push_Commit_Unlock"
        by (cases "pcs c Reader") (simp_all add: bench_inv_def)
      then show ?thesis
      proof cases
        case 1
        then show ?thesis using dw_call [of c i iterations] dw_leave [of c i iterations] by blast
      next
        case 3
        obtain q1 where "bench_fill j (cq c) = Some q1" using bench_fill_ok [OF assms(1,3) 3] by metis
        from dw_fill [OF 3 this] show ?thesis by blast
      qed (blast intro: dw_return dw_round)+
    qed
  next
    case w
    show ?thesis
    proof (cases "in_pop (pcs c Writer)")
      case True
      from dr_queue [OF this w] show ?thesis by blast
    next
      case False
      with w have "(\<exists>x. pcs c Writer = Pop_Unlock x) \<or> (\<exists>j. pcs c Writer = Pop_Own j)"
        by (induction rule: writer_step.induct) auto
      then show ?thesis by (blast intro: dr_return dr_commit)
    qed
  next
    case f
    then have "ending (pcs c t)" "pcs c t \<noteq> Done" by (induction rule: final_step.induct) auto
    with assms(3) have "t = Reader" by (cases t) (auto simp: bench_inv_def)
    with f dw_finalize show ?thesis by blast
  qed
  then show ?thesis by (blast intro: bs_writer bs_reader)
qed

lemma bench_run_bound:
  assumes "bench_run iterations q n s b" "queue_ok q" "queue_contents q = []" "q_active q"
    and "q_policy q = JP_QUEUE_POLICY_WAIT" "1 \<le> qchunk q"
  shows "n \<le> 50 + qchunk q + (unat iterations + s) * (24 + qchunk q)"
proof -
  obtain m k where m: "paced m k (conc_start q) (bt_conc b)" "n \<le> m" "k \<le> length (sent (bt_conc b)) + s"
    and inv: "bench_inv iterations (bt_conc b) (bt_i b)"
    using bench_paced [OF assms] by blast
  have "unat (bt_i b) + committed (pcs (bt_conc b) Reader) \<le> unat iterations"
    using inv by (auto simp: bench_inv_def committed_def word_less_nat_alt word_le_nat_alt)
  with inv m(3) have "k \<le> unat iterations + s" by (simp add: bench_inv_def)
  then have "k * (24 + qchunk q) \<le> (unat iterations + s) * (24 + qchunk q)" by (rule mult_le_mono1)
  moreover have "q_length q = 0" using arg_cong [OF assms(3), of length] by (simp add: unat_eq_0)
  then have "m \<le> 50 + qchunk q + k * (24 + qchunk q)"
    using paced_bound [OF m(1) conc_inv_start [OF assms(2,3)]] pace_start [of q] by (simp add: conc_start_def turn_pace_def)
  ultimately show ?thesis using m(2) by linarith
qed

lemma bench_run_ends:
  assumes "bench_run iterations q n s b" "queue_ok q" "queue_contents q = []" "q_active q"
    and "q_policy q = JP_QUEUE_POLICY_WAIT" "1 \<le> qchunk q" "\<nexists>b'. bench_step iterations False b b'"
  shows "pcs (bt_conc b) Reader = Done \<and> pcs (bt_conc b) Writer = Done \<and>
     sent (bt_conc b) = replicate (unat iterations) [65] \<and> got (bt_conc b) = sent (bt_conc b)"
proof -
  obtain m k where m: "paced m k (conc_start q) (bt_conc b)"
    and inv: "bench_inv iterations (bt_conc b) (bt_i b)"
    using bench_paced [OF assms(1-6)] by blast
  have reach: "conc_reach q (bt_conc b)" by (rule paced_reach [OF m reach_start])
  note invs = conc_inv_reach [OF reach assms(2,3)] quiet_inv_reach [OF reach assms(2-4)]
  have ends: "pcs (bt_conc b) Reader = Done" "pcs (bt_conc b) Writer = Done"
    using bench_enabled [OF invs inv] assms(7) by (cases b, auto)+
  moreover have "got (bt_conc b) = sent (bt_conc b)"
    using inv by (intro quiet_end [OF invs ends(2)]) (simp_all add: bench_inv_def)
  ultimately show ?thesis using inv by (simp add: bench_inv_def committed_def)
qed

section \<open>Properties\<close>

text \<open>
  C33: The benchmark of the queue measures what it means to, for each of its seven capacities. A failed initialisation
  ends the program with status 1 and nothing held. Otherwise, whatever the schedule, an execution with \<open>s\<close> spurious
  wakeups has at most \<open>50 + 1024 + (iterations + s) * (24 + 1024)\<close> steps; it stops only when both threads have ended, all
  the blocks pushed, each with the single byte 65, and all of them popped in order; and then everything is released.
\<close>

theorem bench_queue_correct:
  assumes "(name, capacity, iterations) \<in> set bench_queue_main"
    and "unat sizeof_queue < 2 ^ 32" "unat sizeof_block < 2 ^ 32"
  shows "if mutex_init = 0 \<and> not_empty_init = 0 \<and> not_full_init = 0
    then \<exists>q held. bench_queue_create junk sizeof_queue sizeof_block mutex_init not_empty_init not_full_init capacity =
        Some (Inr (q, held)) \<and> q_capacity q = capacity \<and>
      (\<forall>n s b. bench_run iterations q n s b \<longrightarrow>
         n \<le> 50 + 1024 + (unat iterations + s) * (24 + 1024) \<and>
         ((\<nexists>b'. bench_step iterations False b b') \<longrightarrow>
            pcs (bt_conc b) Reader = Done \<and> pcs (bt_conc b) Writer = Done \<and>
            sent (bt_conc b) = replicate (unat iterations) [65] \<and> got (bt_conc b) = sent (bt_conc b))) \<and>
      (\<forall>now bench. bench_queue_close now bench q held = map_option (\<lambda>bench'. (bench', [])) (jp_bench_stop now bench))
    else bench_queue_create junk sizeof_queue sizeof_block mutex_init not_empty_init not_full_init capacity = Some (Inl 1)"
proof -
  have cap: "JP_CONF_BUFFER_SIZE_MIN \<le> unat capacity" "unat capacity \<le> JP_CONF_BUFFER_SIZE_MAX"
    using assms(1) by (auto simp: bench_queue_main_def jp_conf_defs)
  have chunk: "unat (of_nat BYTES_IN_KB :: size_t) \<le> JP_CONF_CHUNK_SIZE_MAX" by (simp add: jp_conf_defs)
  obtain q where q: "jp_queue_create junk sizeof_queue sizeof_block mutex_init not_empty_init not_full_init
        capacity (of_nat BYTES_IN_KB) JP_QUEUE_POLICY_WAIT =
      Some (if mutex_init = 0 \<and> not_empty_init = 0 \<and> not_full_init = 0
            then (Some q, None, [Queue_Not_Full, Queue_Not_Empty, Queue_Lock, Queue_Object])
            else (None, Some (JP_ESYS_ERR, if mutex_init \<noteq> 0 then mutex_init
                    else if not_empty_init \<noteq> 0 then not_empty_init else not_full_init), []))"
    "queue_ok q" "queue_contents q = []" "q_active q" "q_policy q = JP_QUEUE_POLICY_WAIT"
    "q_capacity q = capacity" "q_chunk_size q = of_nat BYTES_IN_KB"
    using jp_queue_create_conf [OF cap chunk assms(2,3)] by blast
  have n: "qchunk q = 1024" using q(7) by (simp add: jp_conf_defs)
  then have one: "1 \<le> qchunk q" by simp
  show ?thesis
  proof (cases "mutex_init = 0 \<and> not_empty_init = 0 \<and> not_full_init = 0")
    case True
    let ?held = "[Queue_Not_Full, Queue_Not_Empty, Queue_Lock, Queue_Object]"
    have "bench_queue_create junk sizeof_queue sizeof_block mutex_init not_empty_init not_full_init capacity = Some (Inr (q, ?held))"
      using q(1) True by (simp add: bench_queue_create_def)
    moreover have "bench_queue_close now bench q ?held = map_option (\<lambda>bench'. (bench', [])) (jp_bench_stop now bench)" for now bench
      by (cases "jp_bench_stop now bench") (simp_all add: bench_queue_close_def jp_queue_destroy_def)
    moreover have "n \<le> 50 + 1024 + (unat iterations + s) * (24 + 1024)" if "bench_run iterations q n s b" for n s b
      using bench_run_bound [OF that q(2-5) one] unfolding n .
    ultimately show ?thesis
      unfolding if_P [OF True] using bench_run_ends [OF _ q(2-5) one, of iterations] q(6)
      by (intro exI [of _ q] exI [of _ ?held] conjI allI impI) blast+
  next
    case False
    show ?thesis unfolding if_not_P [OF False] bench_queue_create_def q(1) by simp
  qed
qed

theorem bench_queue_correct_witness:
  "\<exists>q held. bench_queue_create (\<lambda>_. []) 640 16 0 0 0 8 = Some (Inr (q, held)) \<and> q_capacity q = 8 \<and>
     (\<forall>n s b. bench_run 10000000 q n s b \<longrightarrow> n \<le> 50 + 1024 + (unat (10000000 :: 64 word) + s) * (24 + 1024))"
proof -
  have "(bytes ''Queue Capacity: 8'', 8, 10000000) \<in> set bench_queue_main" by (simp add: bench_queue_main_def)
  from bench_queue_correct [OF this, of 640 16 0 0 0 "\<lambda>_. []"] show ?thesis by (simp only: simp_thms if_True) auto
qed

end
