(* ===== verification/Spec2Isabelle.thy ===== *)
theory Spec2Isabelle
  imports JP_Pipeline_Safe JP_Reader_Wait JP_Field_Heap JP_Queue_Cancel JP_Bench_Queue
begin

text \<open>
  A verification development for jpipe, a tool that reads lines from its standard input and writes each
  as one record with additional fields.

  \<^bold>\<open>The program.\<close> \<^verbatim>\<open>main.c\<close> dispatches on its first argument (\<^verbatim>\<open>command.c\<close>, flags in \<^verbatim>\<open>config.c\<close>). The command
  \<open>run\<close> (\<^verbatim>\<open>worker.c\<close>) collects its options into a context, with a set of fields (\<^verbatim>\<open>field.c\<close>), makes the output
  directory, creates the queue and starts three threads. The reader (\<^verbatim>\<open>reader.c\<close>) waits on a poller
  (\<^verbatim>\<open>poller/epoll.c\<close> or \<^verbatim>\<open>poller/kqueue.c\<close>), reads into blocks of the queue (\<^verbatim>\<open>queue.c\<close>) and commits them; the
  writer (\<^verbatim>\<open>writer.c\<close>) takes the blocks, cuts them into lines, encodes the lines (\<^verbatim>\<open>json.c\<close>) and writes records
  (\<^verbatim>\<open>file.c\<close>); the watcher shuts the queue down on a signal. Errors are recorded in a context per thread and
  printed as one row (\<^verbatim>\<open>errno.c\<close>); allocation ends the process when it fails (\<^verbatim>\<open>memory.c\<close>).

  \<^bold>\<open>The theories\<close>, in the order of their imports:

  \<^item> \<open>JP_Prelude\<close>: bytes, buffers with checked stores, the constants of the configuration, and the
    lemmas on lists, buffers and words that the components share.

  \<^item> \<open>JP_Errno\<close>, \<open>JP_Raise\<close>, \<open>JP_Memory\<close>: the error context and its row, which always fits its buffer; the
    macros that raise errors, as values that a function returns; the allocation functions.

  \<^item> \<open>JP_Field\<close>: fields and field sets. The set refines an association list; the locale
    \<open>field_store\<close> is what its clients use. \<open>JP_Field_Heap\<close> refines it once more, to objects that are
    allocated and freed: no leak, no double free.

  \<^item> \<open>JP_Json\<close>, \<open>JP_Json_Text\<close>: the encoder, with the locale \<open>record_encoder\<close> that the writer uses, and
    what its texts mean: the RFC 8259 number grammar, a decoder of string bodies, a reader of members.

  \<^item> \<open>JP_Queue\<close>: the ring buffer with the calls as functions on its state. Its contents refine a bounded
    list (locale \<open>bounded_fifo\<close>). A waiting call takes the list of states it finds when it wakes up.

  \<^item> \<open>JP_Queue_Conc\<close>, \<open>JP_Queue_Runs\<close>: the same calls as steps of the three threads, interleaved: mutual
    exclusion, order, no lost wakeup, no deadlock, termination after a shutdown, and the existence of
    an execution for every sequence of blocks. What a thread does between two calls of the queue is not a step: the
    reader may stay in its own code (its loop over the poller, a \<^verbatim>\<open>read\<close> that blocks) and the writer in a \<^verbatim>\<open>writev\<close>, and
    \<open>forced_step\<close> leaves out the steps by which they go on. \<open>JP_Queue_Pace\<close>: how many steps an execution can have between two
    commits, drops or events from outside.

  \<^item> \<open>JP_Queue_Weak\<close>: the same steps under the memory orders that the code asks for, with loads that may return old
    values. The invariants of the interleaving hold there too, and the blocks are never raced for.

  \<^item> \<open>JP_Queue_Cancel\<close>: the cancellation of the threads, which hangs when it hits the waiting writer.

  \<^item> \<open>JP_File\<close>, \<open>JP_Writer\<close>, \<open>JP_Writer_Lines\<close>: the vectored write under a kernel that writes partially and
    interrupts; the writer loop; what it puts out, first in terms of pieces and then of lines.

  \<^item> \<open>JP_Poller\<close>, \<open>JP_Reader\<close>: the two pollers behind the locale \<open>poller\<close>; the reader loop and where every
    byte of the input goes. \<open>JP_Reader_Wait\<close>: what the reader has in hand when it waits, and what becomes of an input
    that never pauses.

  \<^item> \<open>JP_Command\<close>, \<open>JP_Worker\<close>, \<open>JP_Worker_Args\<close>, \<open>JP_Worker_Run\<close>, \<open>JP_Main\<close>: flags and dispatch; the options,
    the output directory, the texts and the threads of \<open>run\<close>, with the errors they raise; the program as
    a whole, down to its exit status and the row of its error.

  \<^item> \<open>JP_Pipeline\<close>: the thread functions, the composition of reader, queue and writer, and what a thread that fails
    prints. \<open>JP_Pipeline_Safe\<close>: what has been written at any moment of any execution.

  \<^item> \<open>JP_Bench\<close>: the stop watch and the data files of the benchmarks (\<^verbatim>\<open>bench/lib/bench.c\<close>), and the benchmark of the
    encoder (\<^verbatim>\<open>bench/json.c\<close>). \<open>JP_Bench_Queue\<close>: the benchmark of the queue (\<^verbatim>\<open>bench/queue.c\<close>), another client of the
    steps of the queue, simulated by the executions of \<open>JP_Queue_Pace\<close>.

  \<^bold>\<open>How the code is modelled.\<close> A structure is a record with the same members; a pointer into an object is
  an offset; a C string is the list of its bytes without the NUL. \<open>size_t\<close> is a 64-bit word wherever the
  code computes sizes that could wrap. Undefined behaviour (a store or a read outside an object, a null
  pointer that is followed, a \<^verbatim>\<open>free\<close> of an interior pointer, a broken promise of \<open>JP_ATTR_ASSUME\<close>) is the
  value \<^const>\<open>None\<close>, so that a theorem with \<^const>\<open>Some\<close> in its conclusion also says that there is none. What
  the program asks of its
  surroundings is an argument: the bytes that fresh memory happens to hold (\<open>junk\<close>), the answers of
  \<^verbatim>\<open>read\<close>, \<^verbatim>\<open>writev\<close>, the poller's system calls, the file system, the \<^verbatim>\<open>pthread\<close> calls, and the options
  that \<^verbatim>\<open>getopt_long\<close> finds. No fuel is used: the recursive definitions are structural or have a
  termination proof (\<open>mkdir_loop\<close> by the bytes left, \<open>writer_block\<close> by the bytes left and then the overflow,
  \<open>reader_inner\<close> by what is left of the input). A call that is given too few answers has not returned
  (\<^const>\<open>None\<close> as its error); that enough answers make it return is part of the theorems.

  \<^bold>\<open>What is shown.\<close> \<open>pipe_end_to_end\<close> composes the parts for a run in which nothing goes wrong: with lines shorter than
  the chunk size, a queue that accepts every block, no signal and an output that takes each record at once, for every
  way the input arrives and every execution of the threads under the memory orders of the code the output is the records
  of the lines, in order. \<open>pipe_output_is_right_so_far\<close> is what remains of this with signals, dropped messages, lines of any
  length and an output that fails between two records, and before the end. An output that takes a part of a record is
  outside both (\<open>writer_partial_write_frees_interior_pointer\<close>). Below them are the theorems of the components named above. Some theorems state a behaviour that
  the program should not have:
  records are not JSON texts (\<open>record_is_not_json\<close>), a last line without a newline is lost
  (\<open>writer_loses_unterminated_line\<close>), a partial write corrupts the writer
  (\<open>writer_partial_write_frees_interior_pointer\<close>), a signal can lose a block (\<open>queue_loses_block_at_signal\<close>),
  lines wait in a block when the input is not in non-blocking mode (\<open>reader_holds_back_blocking_input\<close>),
  a path of 4096 bytes overruns an array (\<open>out_dir_overrun\<close>), the errors of the output directory do not show it
  (\<open>dir_error_hides_path\<close>), an idle reader does not notice a shutdown (\<open>reader_ignores_shutdown_while_idle\<close>), a value in
  quotes keeps its quotes (\<open>readme_value_table\<close>), and a global option in front of the command is an unknown command
  (\<open>main_dispatch\<close>).

  \<^bold>\<open>Not modelled.\<close> Debug output, which a release build leaves out; the compiler attributes of \<^verbatim>\<open>jp_common.h\<close>, which
  have no effect on behaviour; the report of the benchmarks, whose floating point results are printed and not used; the
  tests and the build files.
\<close>

end
